(* ===== verification/Go_Base.thy ===== *)
theory Go_Base
  imports Main "HOL-Library.Word" "HOL-Library.Char_ord" "HOL-Library.List_Lexorder"
    "HOL-Library.Finite_Map" "HOL-Library.Multiset"
begin

text \<open>
  Shared vocabulary of the development: the Go types the engine's code is written in and the
  generic lemmas the component theories use.

  \<^item> A Go \<open>[]byte\<close> or \<open>string\<close> is a list of 8-bit characters, ordered lexicographically by byte
    value (\<open>bytes.Compare\<close>).
  \<^item> \<open>uint64\<close> is a 64-bit word; \<open>int64\<close> is a 64-bit word read by \<^const>\<open>sint\<close>, or, where the
    code tests for overflow itself, an \<^typ>\<open>int\<close> with the wrap-around written out (\<open>wrap64\<close>).
  \<^item> A Go map is a finite map; the nil map and the empty map are not distinguished, since no code
    modelled here observes the difference.
\<close>

section \<open>Types\<close>

type_synonym bytes = string
type_synonym uint64 = "64 word"
type_synonym int64 = "64 word"

text \<open>An effect address, the Go array \<open>[2]uint64\<close> of node id and sequence number. Its zero value is
  \<open>zero_tip\<close>; addresses are ordered by node, then by sequence number.\<close>

datatype tip = Tip (tip_node: uint64) (tip_seq: uint64)

definition zero_tip :: tip where
  "zero_tip = Tip 0 0"

instantiation tip :: linorder
begin

definition less_eq_tip :: "tip \<Rightarrow> tip \<Rightarrow> bool" where
  "less_eq_tip a b \<longleftrightarrow> tip_node a < tip_node b \<or> tip_node a = tip_node b \<and> tip_seq a \<le> tip_seq b"

definition less_tip :: "tip \<Rightarrow> tip \<Rightarrow> bool" where
  "less_tip a b \<longleftrightarrow> tip_node a < tip_node b \<or> tip_node a = tip_node b \<and> tip_seq a < tip_seq b"

instance
  by standard (auto simp: less_eq_tip_def less_tip_def tip.expand)

end

section \<open>Machine integers with explicit wrap-around\<close>

definition MaxInt64 :: int where
  "MaxInt64 = 2 ^ 63 - 1"

definition MinInt64 :: int where
  "MinInt64 = - (2 ^ 63)"

definition wrap64 :: "int \<Rightarrow> int" where
  "wrap64 x = (x + 2 ^ 63) mod 2 ^ 64 - 2 ^ 63"

definition in_int64 :: "int \<Rightarrow> bool" where
  "in_int64 x \<longleftrightarrow> MinInt64 \<le> x \<and> x \<le> MaxInt64"

named_theorems int64_defs
declare MaxInt64_def [int64_defs] MinInt64_def [int64_defs] in_int64_def [int64_defs]

lemma wrap64_id [simp]:
  assumes "in_int64 x"
  shows "wrap64 x = x"
proof -
  have "(x + 2 ^ 63) mod 2 ^ 64 = x + 2 ^ 63"
    using assms by (intro mod_pos_pos_trivial) (simp_all add: int64_defs)
  then show ?thesis
    by (simp only: wrap64_def)
qed

lemma wrap64_range: "in_int64 (wrap64 x)"
proof -
  define m where "m = (x + 2 ^ 63) mod 2 ^ 64"
  have "0 \<le> m" "m < 2 ^ 64"
    unfolding m_def by (rule pos_mod_sign, simp, rule pos_mod_bound, simp)
  moreover have "wrap64 x = m - 2 ^ 63"
    by (simp only: wrap64_def m_def)
  ultimately show ?thesis
    by (simp add: int64_defs)
qed

lemma sint_word_of_int: "sint (word_of_int x :: int64) = wrap64 x"
  unfolding int_word_sint wrap64_def by simp

section \<open>Lists\<close>

text \<open>\<open>slices.Contains\<close>, the linear scans over frontiers.\<close>

lemma filter_notin_set_eq_Nil [simp]:
  "filter (\<lambda>x. x \<notin> S) xs = [] \<longleftrightarrow> set xs \<subseteq> S"
  by (auto simp: filter_empty_conv)

lemma distinct_sort_key_inj_perm:
  fixes f :: "'a \<Rightarrow> 'b :: linorder"
  assumes "mset xs = mset ys" and "inj_on f (set xs)"
  shows "sort_key f xs = sort_key f ys"
  by (rule sort_key_inj_key_eq) (simp_all add: assms)

section \<open>Finite maps\<close>

lemma fmlookup_eqI: "(\<And>k. fmlookup m k = fmlookup n k) \<Longrightarrow> m = n"
  by (rule fmap_ext) simp

definition fm_is_empty :: "('k, 'v) fmap \<Rightarrow> bool" where
  "fm_is_empty m \<longleftrightarrow> fmdom m = {||}"

lemma fm_is_empty_fmempty [simp]: "fm_is_empty fmempty"
  by (simp add: fm_is_empty_def)

lemma fm_is_empty_fmupd [simp]: "\<not> fm_is_empty (fmupd k v m)"
  by (simp add: fm_is_empty_def)

lemma fm_is_empty_iff: "fm_is_empty m \<longleftrightarrow> m = fmempty"
  by (metis fm_is_empty_def fmap_ext fmdom_empty fmdom_notD fempty_iff)

end
