(* ===== verification/Go_Float.thy ===== *)
theory Go_Float
  imports Complex_Main Go_Base
begin

text \<open>
  The parts of Go's numeric runtime the engine's reducers and predicates use: IEEE 754 binary64
  values with addition (round to nearest, ties to even) and comparison, the conversion
  \<open>float64(int64)\<close>, and \<open>strconv.ParseInt(s, 10, 64)\<close> and \<open>strconv.ParseFloat(s, 64)\<close> with the
  error value dropped, as effects/parse.go's callers use them (\<open>v, _ := parseInt(b)\<close>).
\<close>

section \<open>Binary64 values\<close>

text \<open>A finite value is a sign and a magnitude; the sign distinguishes the two zeros.\<close>

datatype float64 = FNaN | FInf bool | Fin bool rat

fun fval :: "float64 \<Rightarrow> rat" where
  "fval (Fin s a) = (if s then - a else a)"
| "fval _ = 0"

function nlog2 :: "int \<Rightarrow> int" where
  "nlog2 n = (if n \<le> 1 then 0 else 1 + nlog2 (n div 2))"
  by pat_completeness auto
termination
  by (relation "measure nat") auto

declare nlog2.simps [simp del]

definition pow2 :: "int \<Rightarrow> rat" where
  "pow2 e = (if 0 \<le> e then 2 ^ nat e else 1 / 2 ^ nat (- e))"

text \<open>The exponent \<open>e\<close> with \<open>2\<^sup>e \<le> q < 2\<^sup>e\<^sup>+\<^sup>1\<close>, for a positive rational.\<close>

definition rat_log2 :: "rat \<Rightarrow> int" where
  "rat_log2 q =
     (case quotient_of q of (n, d) \<Rightarrow>
        let k = nlog2 n - nlog2 d
        in if pow2 k \<le> q then k else k - 1)"

definition round_half_even :: "rat \<Rightarrow> int" where
  "round_half_even q =
     (let f = \<lfloor>q\<rfloor>; d = q - of_int f
      in if d < 1 / 2 then f else if d > 1 / 2 then f + 1 else if even f then f else f + 1)"

text \<open>Round a magnitude to binary64: 53 significant bits, least exponent \<open>-1074\<close>.\<close>

definition round_f64 :: "bool \<Rightarrow> rat \<Rightarrow> float64" where
  "round_f64 s a =
     (if a = 0 then Fin s 0
      else let e = max (- 1074) (rat_log2 a - 52);
               v = of_int (round_half_even (a / pow2 e)) * pow2 e
           in if v \<ge> pow2 1024 then FInf s else Fin s v)"

fun fadd :: "float64 \<Rightarrow> float64 \<Rightarrow> float64" where
  "fadd FNaN y = FNaN"
| "fadd x FNaN = FNaN"
| "fadd (FInf s) (FInf t) = (if s = t then FInf s else FNaN)"
| "fadd (FInf s) (Fin t b) = FInf s"
| "fadd (Fin s a) (FInf t) = FInf t"
| "fadd (Fin s a) (Fin t b) =
     (let v = fval (Fin s a) + fval (Fin t b)
      in if v = 0 then Fin (s \<and> t) 0 else round_f64 (v < 0) \<bar>v\<bar>)"

fun fless :: "float64 \<Rightarrow> float64 \<Rightarrow> bool" where
  "fless FNaN y = False"
| "fless x FNaN = False"
| "fless (FInf s) (FInf t) = (s \<and> \<not> t)"
| "fless (FInf s) (Fin t b) = s"
| "fless (Fin s a) (FInf t) = (\<not> t)"
| "fless (Fin s a) (Fin t b) = (fval (Fin s a) < fval (Fin t b))"

definition f64_of_int :: "int \<Rightarrow> float64" where
  "f64_of_int i = round_f64 (i < 0) \<bar>of_int i\<bar>"

lemma fadd_commute: "fadd x y = fadd y x"
  by (cases x; cases y) (auto simp: Let_def add.commute conj_commute)

lemma fless_irrefl [simp]: "\<not> fless x x"
  by (cases x) simp_all

lemma fless_asym: "fless x y \<Longrightarrow> \<not> fless y x"
  by (cases x; cases y) (auto split: if_splits)

lemma fless_trans: "fless x y \<Longrightarrow> fless y z \<Longrightarrow> fless x z"
  by (cases x; cases y; cases z) (auto split: if_splits)

section \<open>strconv\<close>

definition is_digit :: "char \<Rightarrow> bool" where
  "is_digit c \<longleftrightarrow> CHR ''0'' \<le> c \<and> c \<le> CHR ''9''"

definition char_int :: "char \<Rightarrow> int" where
  "char_int c = of_char c"

definition lower :: "char \<Rightarrow> char" where
  "lower c = (if CHR ''A'' \<le> c \<and> c \<le> CHR ''Z'' then char_of (char_int c + 32) else c)"

text \<open>\<open>strconv.ParseUint\<close> in base 10: \<open>None\<close> is a syntax error; the largest \<open>uint64\<close> stands for a
  range error, which is reported as soon as the prefix overflows.\<close>

fun parse_uint_loop :: "int \<Rightarrow> string \<Rightarrow> int option" where
  "parse_uint_loop n [] = Some n"
| "parse_uint_loop n (c # cs) =
     (if \<not> is_digit c then None
      else let m = n * 10 + (char_int c - 48)
           in if m > 2 ^ 64 - 1 then Some (2 ^ 64 - 1) else parse_uint_loop m cs)"

definition strip_sign :: "string \<Rightarrow> bool \<times> string" where
  "strip_sign s = (case s of
       [] \<Rightarrow> (False, [])
     | c # cs \<Rightarrow> if c = CHR ''-'' then (True, cs) else if c = CHR ''+'' then (False, cs) else (False, s))"

definition parseInt :: "bytes \<Rightarrow> int" where
  "parseInt b =
     (case strip_sign b of (neg, ds) \<Rightarrow>
        if ds = [] then 0
        else case parse_uint_loop 0 ds of
               None \<Rightarrow> 0
             | Some un \<Rightarrow>
                 if \<not> neg \<and> un \<ge> 2 ^ 63 then MaxInt64
                 else if neg \<and> un > 2 ^ 63 then MinInt64
                 else if neg then - un else un)"

text \<open>The mantissa scanner of \<open>strconv.ParseFloat\<close>: underscores are skipped and remembered, a second
  dot ends the scan. The result carries the digits read as one integer and how many of them
  followed the dot.\<close>

record mantissa =
  m_val :: int
  m_frac :: nat
  m_dot :: bool
  m_digits :: bool
  m_under :: bool

definition digit_val :: "bool \<Rightarrow> char \<Rightarrow> int option" where
  "digit_val hex c =
     (if is_digit c then Some (char_int c - 48)
      else if hex \<and> CHR ''a'' \<le> lower c \<and> lower c \<le> CHR ''f'' then Some (char_int (lower c) - 87)
      else None)"

fun scan_mantissa :: "bool \<Rightarrow> mantissa \<Rightarrow> string \<Rightarrow> mantissa \<times> string" where
  "scan_mantissa hex m [] = (m, [])"
| "scan_mantissa hex m (c # cs) =
     (if c = CHR ''_'' then scan_mantissa hex (m\<lparr>m_under := True\<rparr>) cs
      else if c = CHR ''.'' then
        (if m_dot m then (m, c # cs) else scan_mantissa hex (m\<lparr>m_dot := True\<rparr>) cs)
      else case digit_val hex c of
             None \<Rightarrow> (m, c # cs)
           | Some d \<Rightarrow>
               scan_mantissa hex
                 (m\<lparr>m_val := m_val m * (if hex then 16 else 10) + d, m_digits := True,
                    m_frac := m_frac m + (if m_dot m then 1 else 0)\<rparr>) cs)"

fun scan_exponent :: "int \<Rightarrow> bool \<Rightarrow> string \<Rightarrow> int \<times> bool \<times> string" where
  "scan_exponent e u [] = (e, u, [])"
| "scan_exponent e u (c # cs) =
     (if is_digit c then scan_exponent (if e < 10000 then e * 10 + (char_int c - 48) else e) u cs
      else if c = CHR ''_'' then scan_exponent e True cs
      else (e, u, c # cs))"

text \<open>\<open>strconv.underscoreOK\<close>: \<open>prev\<close> is what the loop saw last (\<open>'0'\<close> a digit or base prefix, \<open>'_'\<close>
  an underscore, \<open>'!'\<close> anything else, \<open>'^'\<close> the beginning).\<close>

fun underscore_loop :: "bool \<Rightarrow> char \<Rightarrow> string \<Rightarrow> bool" where
  "underscore_loop hex prev [] = (prev \<noteq> CHR ''_'')"
| "underscore_loop hex prev (c # cs) =
     (if digit_val hex c \<noteq> None then underscore_loop hex (CHR ''0'') cs
      else if c = CHR ''_'' then (if prev \<noteq> CHR ''0'' then False else underscore_loop hex (CHR ''_'') cs)
      else if prev = CHR ''_'' then False
      else underscore_loop hex (CHR ''!'') cs)"

definition underscoreOK :: "string \<Rightarrow> bool" where
  "underscoreOK s =
     (case snd (strip_sign s) of
        z # b # rest \<Rightarrow>
          if z = CHR ''0'' \<and> lower b \<in> {CHR ''b'', CHR ''o'', CHR ''x''}
          then underscore_loop (lower b = CHR ''x'') (CHR ''0'') rest
          else underscore_loop False (CHR ''^'') (z # b # rest)
      | t \<Rightarrow> underscore_loop False (CHR ''^'') t)"

definition read_float :: "string \<Rightarrow> float64 option" where
  "read_float s =
     (let (neg, t) = strip_sign s;
          hex = (case t of z # x # c # _ \<Rightarrow> z = CHR ''0'' \<and> lower x = CHR ''x'' | _ \<Rightarrow> False);
          (m, rest) = scan_mantissa hex \<lparr>m_val = 0, m_frac = 0, m_dot = False, m_digits = False, m_under = False\<rparr>
                        (if hex then drop 2 t else t);
          mant = of_int (m_val m) / (if hex then 16 else 10) ^ m_frac m
      in if \<not> m_digits m then None
         else case rest of
           [] \<Rightarrow>
             if hex then None
             else if m_under m \<and> \<not> underscoreOK s then None
             else Some (round_f64 neg mant)
         | c # es \<Rightarrow>
             if lower c \<noteq> (if hex then CHR ''p'' else CHR ''e'') then None
             else let (eneg, ds) = strip_sign es in
               if ds = [] \<or> \<not> is_digit (hd ds) then None
               else let (e, u, left) = scan_exponent 0 (m_under m) ds;
                        sc = (if hex then 2 else 10) ^ nat e
                    in if left \<noteq> [] then None
                       else if u \<and> \<not> underscoreOK s then None
                       else Some (round_f64 neg (if eneg then mant / sc else mant * sc)))"

text \<open>Special values, then numbers; a syntax error reads as zero.\<close>

definition parseFloat :: "bytes \<Rightarrow> float64" where
  "parseFloat b =
     (let (neg, t) = strip_sign b; l = map lower t
      in if l = ''inf'' \<or> l = ''infinity'' then FInf neg
         else if map lower b = ''nan'' then FNaN
         else case read_float b of None \<Rightarrow> Fin False 0 | Some f \<Rightarrow> f)"

lemma parse_uint_loop_nonneg: "parse_uint_loop n ds = Some m \<Longrightarrow> 0 \<le> n \<Longrightarrow> 0 \<le> m"
proof (induction n ds rule: parse_uint_loop.induct)
  case (2 n c cs)
  have "0 \<le> n * 10 + (char_int c - 48)" if "is_digit c"
  proof -
    have "(48::nat) \<le> of_char c"
      using that by (simp add: is_digit_def less_eq_char_def)
    then have "(48::int) \<le> of_char c"
      by (metis of_nat_le_iff of_nat_numeral of_nat_of_char)
    then show ?thesis
      using "2.prems"(2) by (simp add: char_int_def)
  qed
  then show ?case
    using 2 by (simp add: Let_def split: if_splits)
qed simp

lemma parseInt_range: "in_int64 (parseInt b)"
  by (auto simp: parseInt_def int64_defs dest: parse_uint_loop_nonneg
      split: prod.split option.split)

end
