(* ===== verification/Proto.thy ===== *)
theory Proto
  imports Go_Float
begin

text \<open>
  The messages of cluster/proto (replication.pb.go, types.go, valuebytes.go): effects, the state
  they reduce to, and the accessors the engine reads them with. A nil message pointer is \<open>None\<close>;
  an accessor on nil returns the field's zero value, as the generated getters do. Proto3 enums are
  open, so an enum whose consumers have a default branch carries one constructor for the numbers
  the schema does not name.
\<close>

section \<open>Enums\<close>

datatype effect_op = UNKNOWN_OP | INSERT_OP | REMOVE_OP

datatype merge_rule =
    LAST_WRITE_WINS | ADDITIVE_INT | ADDITIVE_FLOAT | MAX_INT | FIRST_WRITE_WINS | MAX_BYTES
  | MERGE_OTHER int

datatype collection_kind = SCALAR | KEYED | ORDERED | COLLECTION_OTHER int

datatype placement =
    PLACE_NONE | PLACE_HEAD | PLACE_TAIL | PLACE_AFTER | PLACE_BEFORE | PLACE_SELF
  | PLACE_OTHER int

datatype compression = COMPRESSION_NONE | COMPRESSION_ZSTD | COMPRESSION_OTHER int

datatype value_type =
    TYPE_UNSPECIFIED | TYPE_STRING | TYPE_LIST | TYPE_HASH | TYPE_SET | TYPE_ZSET | TYPE_STREAM
  | TYPE_HLL | TYPE_BITMAP | TYPE_GEO | TYPE_JSON | TYPE_JSON_OBJECT | TYPE_JSON_ARRAY
  | TYPE_OTHER int

datatype verdict = VERDICT_UNSPECIFIED | WON | LOST

datatype predicate_cmp_op = CMP_EQ | CMP_LT | CMP_LE | CMP_GT | CMP_GE | CMP_OTHER int

section \<open>Messages\<close>

record timestamp =
  ts_seconds :: int
  ts_nanos :: int

record compressed_value =
  cv_codec :: compression
  cv_raw_len :: uint64
  cv_data :: bytes

datatype data_value =
    Raw bytes
  | IntVal int64
  | FloatVal float64
  | Compressed compressed_value
  | Child bytes

record data_effect =
  de_op :: effect_op
  de_merge :: merge_rule
  de_collection :: collection_kind
  de_placement :: placement
  de_reference :: bytes
  de_id :: bytes
  de_value :: "data_value option"

record meta_effect =
  me_expires_at :: "timestamp option"
  me_type_tag :: value_type
  me_element_id :: bytes

record key_bind =
  kb_key :: bytes
  kb_heads :: "uint64 list"
  kb_consumed_tips :: "tip list"
  kb_new_tip :: "tip option"

record txn_bind =
  tb_keys :: "key_bind list"
  tb_txn_hlc :: "timestamp option"
  tb_originator_node_id :: uint64
  tb_abort_deps :: "tip list"

record reduced_element =
  el_data :: data_effect
  el_hlc :: "timestamp option"
  el_node_id :: uint64
  el_expires_at :: "timestamp option"
  el_fork_choice_hash :: bytes

text \<open>A \<open>ReducedEffect\<close> is its own (root) state together with its virtual partitions, which are
  again reduced effects. The root state is a record of its own, because the reducers work on it
  with the partitions set aside (\<open>cloneReducedFlat\<close>).\<close>

record reduced_flat =
  re_op :: effect_op
  re_merge :: merge_rule
  re_collection :: collection_kind
  re_hlc :: "timestamp option"
  re_node_id :: uint64
  re_commutative :: bool
  re_scalar :: "data_effect option"
  re_net_adds :: "(bytes, reduced_element) fmap"
  re_net_removes :: "(bytes, bool) fmap"
  re_ordered_elements :: "reduced_element list"
  re_type_tag :: value_type
  re_expires_at :: "timestamp option"
  re_subscribers :: "(uint64, bool) fmap"
  re_serialization_leader :: "uint64 option"
  re_fork_choice_hash :: bytes

datatype reduced_effect =
  ReducedEffect (re_flat: reduced_flat) (re_partitions: "(bytes, reduced_effect) fmap")

definition empty_flat :: reduced_flat where
  "empty_flat =
     \<lparr>re_op = UNKNOWN_OP, re_merge = LAST_WRITE_WINS, re_collection = SCALAR, re_hlc = None,
      re_node_id = 0, re_commutative = False, re_scalar = None, re_net_adds = fmempty,
      re_net_removes = fmempty, re_ordered_elements = [], re_type_tag = TYPE_UNSPECIFIED,
      re_expires_at = None, re_subscribers = fmempty, re_serialization_leader = None,
      re_fork_choice_hash = []\<rparr>"

record snapshot_effect =
  sn_collection :: collection_kind
  sn_state :: "reduced_effect option"
  sn_txn_verdicts :: "(string, verdict) fmap"
  sn_prev_snapshot :: "tip option"

datatype typed_value_kind = NULL_VALUE | TV_INT | TV_FLOAT | TV_TEXT | TV_BLOB | TV_OTHER int

record typed_value =
  tv_kind :: typed_value_kind
  tv_int_val :: int64
  tv_float_val :: float64
  tv_text_val :: string
  tv_blob_val :: bytes

datatype predicate_kind =
    PRED_BOOL | PRED_AND | PRED_OR | PRED_NOT | PRED_CMP | PRED_COL_CMP | PRED_IS_NULL | PRED_OTHER int

datatype predicate =
  Predicate (pr_kind: predicate_kind) (pr_bool_val: bool) (pr_children: "predicate list")
    (pr_child: "predicate option") (pr_col: "32 word") (pr_col2: "32 word") (pr_op: predicate_cmp_op)
    (pr_literal: "typed_value option")

datatype row_write_kind = RW_INSERT | RW_UPDATE | RW_DELETE

record row_write_effect =
  rw_pk :: bytes
  rw_kind :: row_write_kind
  rw_columns :: "typed_value list"

record subscription_effect =
  su_subscriber_node_id :: uint64
  su_unsubscribe :: bool
  su_discovery :: bool
  su_ephemeral :: bool

record serialization_effect =
  se_leader_node_id :: uint64
  se_release :: bool

datatype effect_kind =
    Data data_effect
  | Meta meta_effect
  | TxnBind txn_bind
  | Snapshot snapshot_effect
  | Subscription subscription_effect
  | Serialization serialization_effect
  | Noop
  | Observation "predicate option"
  | RowWrite row_write_effect
  | PubsubMessage bytes bytes

record effect =
  eff_key :: bytes
  eff_hlc :: "timestamp option"
  eff_node_id :: uint64
  eff_deps :: "tip list"
  eff_txn_id :: string
  eff_fork_choice_hash :: bytes
  eff_virtual :: bytes
  eff_kind :: "effect_kind option"

section \<open>Accessors\<close>

definition GetData :: "effect \<Rightarrow> data_effect option" where
  "GetData e = (case eff_kind e of Some (Data d) \<Rightarrow> Some d | _ \<Rightarrow> None)"

definition GetMeta :: "effect \<Rightarrow> meta_effect option" where
  "GetMeta e = (case eff_kind e of Some (Meta m) \<Rightarrow> Some m | _ \<Rightarrow> None)"

definition GetTxnBind :: "effect \<Rightarrow> txn_bind option" where
  "GetTxnBind e = (case eff_kind e of Some (TxnBind b) \<Rightarrow> Some b | _ \<Rightarrow> None)"

definition GetSnapshot :: "effect \<Rightarrow> snapshot_effect option" where
  "GetSnapshot e = (case eff_kind e of Some (Snapshot s) \<Rightarrow> Some s | _ \<Rightarrow> None)"

definition GetSubscription :: "effect \<Rightarrow> subscription_effect option" where
  "GetSubscription e = (case eff_kind e of Some (Subscription s) \<Rightarrow> Some s | _ \<Rightarrow> None)"

definition GetSerialization :: "effect \<Rightarrow> serialization_effect option" where
  "GetSerialization e = (case eff_kind e of Some (Serialization s) \<Rightarrow> Some s | _ \<Rightarrow> None)"

text \<open>The two payloads the predicate check reads; an observation may lack its predicate.\<close>

definition GetObservation :: "effect \<Rightarrow> predicate option option" where
  "GetObservation e = (case eff_kind e of Some (Observation p) \<Rightarrow> Some p | _ \<Rightarrow> None)"

definition GetRowWrite :: "effect \<Rightarrow> row_write_effect option" where
  "GetRowWrite e = (case eff_kind e of Some (RowWrite w) \<Rightarrow> Some w | _ \<Rightarrow> None)"

definition GetIntVal :: "data_effect \<Rightarrow> int64" where
  "GetIntVal d = (case de_value d of Some (IntVal i) \<Rightarrow> i | _ \<Rightarrow> 0)"

definition GetFloatVal :: "data_effect \<Rightarrow> float64" where
  "GetFloatVal d = (case de_value d of Some (FloatVal f) \<Rightarrow> f | _ \<Rightarrow> Fin False 0)"

named_theorems getters
declare GetData_def [getters] GetMeta_def [getters] GetTxnBind_def [getters]
  GetSnapshot_def [getters] GetSubscription_def [getters] GetSerialization_def [getters]
  GetObservation_def [getters] GetRowWrite_def [getters] GetIntVal_def [getters]
  GetFloatVal_def [getters]

text \<open>\<open>bind.GetKeys()\<close> on a possibly nil bind.\<close>

definition bind_keys :: "txn_bind option \<Rightarrow> key_bind list" where
  "bind_keys b = (case b of None \<Rightarrow> [] | Some tb \<Rightarrow> tb_keys tb)"

text \<open>\<open>EffectSeqFromRef\<close>: a nil reference is the zero address.\<close>

definition EffectSeqFromRef :: "tip option \<Rightarrow> tip" where
  "EffectSeqFromRef ref = (case ref of None \<Rightarrow> zero_tip | Some t \<Rightarrow> t)"

text \<open>\<open>DataEffect.Decompress\<close>; \<open>zstd\<close> is the third-party decoder's \<open>DecodeAll\<close>, \<open>None\<close> on corrupt
  input. The nil slice and the empty slice are both \<open>[]\<close>.\<close>

definition Decompress :: "(bytes \<Rightarrow> bytes option) \<Rightarrow> data_effect option \<Rightarrow> bytes" where
  "Decompress zstd d =
     (case d of None \<Rightarrow> []
      | Some d' \<Rightarrow> (case de_value d' of
           Some (Raw b) \<Rightarrow> b
         | Some (Compressed cv) \<Rightarrow>
             if cv_codec cv \<noteq> COMPRESSION_ZSTD then []
             else (case zstd (cv_data cv) of None \<Rightarrow> [] | Some out \<Rightarrow> out)
         | _ \<Rightarrow> []))"

end
