(* ===== verification/Reduce.thy ===== *)
theory Reduce
  imports Proto
begin

text \<open>
  effects/reduce.go: folding a causally ordered chain of effects into the materialised state of a
  key. Every function of the file is a definition here, in the file's terms: the Go code mutates
  the \<open>ReducedEffect\<close> it owns, the model returns the updated one. \<open>zstd\<close> is the decoder of
  compressed values (see \<open>Decompress\<close>).

  The lemmas show: the incremental reducer agrees with the batch reducer on every state that is
  not a delete marker, the ownership-optimised reducer with the cloning one, the partitioned
  reducer with one flat reduction per partition; counters sum, registers take the maximum, keyed
  collections behave as last-writer maps with disjoint add and remove sets.
\<close>

section \<open>Helpers\<close>

definition isCommutative :: "merge_rule \<Rightarrow> bool" where
  "isCommutative m =
     (case m of ADDITIVE_INT \<Rightarrow> True | ADDITIVE_FLOAT \<Rightarrow> True | MAX_INT \<Rightarrow> True | MAX_BYTES \<Rightarrow> True
      | LAST_WRITE_WINS \<Rightarrow> False | FIRST_WRITE_WINS \<Rightarrow> False | MERGE_OTHER _ \<Rightarrow> False)"

text \<open>A shallow copy; sharing is not observable in a pure model, so the copy equals the original.\<close>

definition cloneData :: "data_effect \<Rightarrow> data_effect" where
  "cloneData d =
     \<lparr>de_op = de_op d, de_merge = de_merge d, de_collection = de_collection d,
      de_placement = de_placement d, de_reference = de_reference d, de_id = de_id d,
      de_value = de_value d\<rparr>"

definition elementFromData :: "effect \<Rightarrow> data_effect \<Rightarrow> reduced_element" where
  "elementFromData e d =
     \<lparr>el_data = cloneData d, el_hlc = eff_hlc e, el_node_id = eff_node_id e,
      el_expires_at = None, el_fork_choice_hash = eff_fork_choice_hash e\<rparr>"

definition rawToInt :: "bytes \<Rightarrow> int64" where
  "rawToInt b = (if b = [] then 0 else word_of_int (parseInt b))"

definition rawToFloat :: "bytes \<Rightarrow> float64" where
  "rawToFloat b = (if b = [] then Fin False 0 else parseFloat b)"

definition scalarIntBase :: "(bytes \<Rightarrow> bytes option) \<Rightarrow> data_effect \<Rightarrow> int64" where
  "scalarIntBase zstd d =
     (case de_value d of Some (IntVal i) \<Rightarrow> i | _ \<Rightarrow> rawToInt (Decompress zstd (Some d)))"

definition scalarFloatBase :: "(bytes \<Rightarrow> bytes option) \<Rightarrow> data_effect \<Rightarrow> float64" where
  "scalarFloatBase zstd d =
     (case de_value d of Some (FloatVal f) \<Rightarrow> f | _ \<Rightarrow> rawToFloat (Decompress zstd (Some d)))"

text \<open>The fresh buffer of the MAX_BYTES rule: as long as the longer side, missing bytes read zero.\<close>

definition byte_at :: "bytes \<Rightarrow> nat \<Rightarrow> char" where
  "byte_at b i = (if i < length b then b ! i else CHR 0x00)"

definition max_bytes :: "bytes \<Rightarrow> bytes \<Rightarrow> bytes" where
  "max_bytes a b =
     map (\<lambda>i. if i < length b \<and> byte_at b i > byte_at a i then byte_at b i else byte_at a i)
       [0..<max (length a) (length b)]"

definition findOrderedByID :: "reduced_element list \<Rightarrow> bytes \<Rightarrow> nat option" where
  "findOrderedByID elements i =
     (let n = length (takeWhile (\<lambda>el. de_id (el_data el) \<noteq> i) elements)
      in if n < length elements then Some n else None)"

definition slice_insert :: "'a list \<Rightarrow> nat \<Rightarrow> 'a \<Rightarrow> 'a list" where
  "slice_insert xs i x = take i xs @ x # drop i xs"

definition slice_delete :: "'a list \<Rightarrow> nat \<Rightarrow> 'a list" where
  "slice_delete xs i = take i xs @ drop (Suc i) xs"

section \<open>One data effect\<close>

definition reduceFirst :: "effect \<Rightarrow> data_effect \<Rightarrow> reduced_flat" where
  "reduceFirst e d =
     (let r = empty_flat\<lparr>re_op := de_op d, re_merge := de_merge d, re_collection := de_collection d,
                re_hlc := eff_hlc e, re_node_id := eff_node_id e,
                re_commutative := isCommutative (de_merge d),
                re_fork_choice_hash := eff_fork_choice_hash e\<rparr>
      in case de_collection d of
           SCALAR \<Rightarrow> r\<lparr>re_scalar := Some (cloneData d)\<rparr>
         | KEYED \<Rightarrow>
             if de_op d = INSERT_OP
             then r\<lparr>re_net_adds := fmupd (de_id d) (elementFromData e d) fmempty\<rparr>
             else r\<lparr>re_net_removes := fmupd (de_id d) True fmempty\<rparr>
         | ORDERED \<Rightarrow>
             if de_op d = INSERT_OP then r\<lparr>re_ordered_elements := [elementFromData e d]\<rparr> else r
         | COLLECTION_OTHER _ \<Rightarrow> r)"

definition reduceScalar ::
  "(bytes \<Rightarrow> bytes option) \<Rightarrow> reduced_flat \<Rightarrow> effect \<Rightarrow> data_effect \<Rightarrow> reduced_flat" where
  "reduceScalar zstd r e d =
     (case re_scalar r of
        None \<Rightarrow> r\<lparr>re_scalar := Some (cloneData d), re_merge := de_merge d\<rparr>
      | Some s \<Rightarrow>
         (case de_merge d of
            ADDITIVE_INT \<Rightarrow>
              (case re_merge r of
                 ADDITIVE_INT \<Rightarrow>
                   r\<lparr>re_scalar := Some (s\<lparr>de_value := Some (IntVal (GetIntVal s + GetIntVal d))\<rparr>)\<rparr>
               | LAST_WRITE_WINS \<Rightarrow>
                   r\<lparr>re_scalar := Some (s\<lparr>de_value := Some (IntVal (scalarIntBase zstd s + GetIntVal d)),
                                         de_merge := LAST_WRITE_WINS\<rparr>),
                     re_merge := LAST_WRITE_WINS, re_commutative := False\<rparr>
               | _ \<Rightarrow> r)
          | ADDITIVE_FLOAT \<Rightarrow>
              (case re_merge r of
                 ADDITIVE_FLOAT \<Rightarrow>
                   r\<lparr>re_scalar := Some (s\<lparr>de_value := Some (FloatVal (fadd (GetFloatVal s) (GetFloatVal d)))\<rparr>)\<rparr>
               | LAST_WRITE_WINS \<Rightarrow>
                   r\<lparr>re_scalar := Some (s\<lparr>de_value := Some (FloatVal (fadd (scalarFloatBase zstd s) (GetFloatVal d))),
                                         de_merge := LAST_WRITE_WINS\<rparr>),
                     re_merge := LAST_WRITE_WINS, re_commutative := False\<rparr>
               | _ \<Rightarrow> r)
          | LAST_WRITE_WINS \<Rightarrow>
              r\<lparr>re_scalar := Some (cloneData d), re_merge := LAST_WRITE_WINS, re_commutative := False,
                re_expires_at := None\<rparr>
          | FIRST_WRITE_WINS \<Rightarrow> r
          | MAX_INT \<Rightarrow>
              if sint (GetIntVal d) > sint (GetIntVal s)
              then r\<lparr>re_scalar := Some (s\<lparr>de_value := Some (IntVal (GetIntVal d))\<rparr>)\<rparr> else r
          | MAX_BYTES \<Rightarrow>
              r\<lparr>re_scalar := Some (s\<lparr>de_value :=
                  Some (Raw (max_bytes (Decompress zstd (Some s)) (Decompress zstd (Some d))))\<rparr>)\<rparr>
          | MERGE_OTHER _ \<Rightarrow> r))"

text \<open>The element the accumulating keyed rules build: the fork-choice hash is not carried over.\<close>

definition accumulated :: "reduced_element \<Rightarrow> data_value \<Rightarrow> reduced_element" where
  "accumulated existing v =
     \<lparr>el_data = (cloneData (el_data existing))\<lparr>de_value := Some v\<rparr>, el_hlc = el_hlc existing,
      el_node_id = el_node_id existing, el_expires_at = el_expires_at existing,
      el_fork_choice_hash = []\<rparr>"

definition reduceKeyed ::
  "(bytes \<Rightarrow> bytes option) \<Rightarrow> reduced_flat \<Rightarrow> effect \<Rightarrow> data_effect \<Rightarrow> reduced_flat" where
  "reduceKeyed zstd r e d =
     (let k = de_id d in
      if de_op d = REMOVE_OP then
        (case fmlookup (re_net_adds r) k of
           Some _ \<Rightarrow> r\<lparr>re_net_adds := fmdrop k (re_net_adds r)\<rparr>
         | None \<Rightarrow> r\<lparr>re_net_removes := fmupd k True (re_net_removes r)\<rparr>)
      else
        (case fmlookup (re_net_adds r) k of
           None \<Rightarrow>
             r\<lparr>re_net_adds := fmupd k (elementFromData e d) (re_net_adds r),
               re_net_removes := fmdrop k (re_net_removes r)\<rparr>
         | Some existing \<Rightarrow>
             let put = (\<lambda>el. r\<lparr>re_net_adds := fmupd k el (re_net_adds r)\<rparr>) in
             (case de_merge d of
                ADDITIVE_INT \<Rightarrow>
                  put (accumulated existing (IntVal (scalarIntBase zstd (el_data existing) + GetIntVal d)))
              | ADDITIVE_FLOAT \<Rightarrow>
                  put (accumulated existing
                    (FloatVal (fadd (scalarFloatBase zstd (el_data existing)) (GetFloatVal d))))
              | MAX_INT \<Rightarrow>
                  if sint (GetIntVal d) > sint (GetIntVal (el_data existing))
                  then put (accumulated existing (IntVal (GetIntVal d))) else r
              | _ \<Rightarrow> put (elementFromData e d))))"

definition reduceOrdered :: "reduced_flat \<Rightarrow> effect \<Rightarrow> data_effect \<Rightarrow> reduced_flat" where
  "reduceOrdered r e d =
     (let xs = re_ordered_elements r; el = elementFromData e d in
      if de_op d = REMOVE_OP then
        (case findOrderedByID xs (de_id d) of
           Some i \<Rightarrow> r\<lparr>re_ordered_elements := slice_delete xs i\<rparr>
         | None \<Rightarrow> r\<lparr>re_net_removes := fmupd (de_id d) True (re_net_removes r)\<rparr>)
      else
        (case de_placement d of
           PLACE_HEAD \<Rightarrow> r\<lparr>re_ordered_elements := slice_insert xs 0 el\<rparr>
         | PLACE_TAIL \<Rightarrow> r\<lparr>re_ordered_elements := xs @ [el]\<rparr>
         | PLACE_NONE \<Rightarrow> r\<lparr>re_ordered_elements := xs @ [el]\<rparr>
         | PLACE_BEFORE \<Rightarrow>
             (case findOrderedByID xs (de_reference d) of
                Some i \<Rightarrow> r\<lparr>re_ordered_elements := slice_insert xs i el\<rparr>
              | None \<Rightarrow> r\<lparr>re_ordered_elements := slice_insert xs 0 el\<rparr>)
         | PLACE_AFTER \<Rightarrow>
             (case findOrderedByID xs (de_reference d) of
                Some i \<Rightarrow> r\<lparr>re_ordered_elements := slice_insert xs (Suc i) el\<rparr>
              | None \<Rightarrow> r\<lparr>re_ordered_elements := xs @ [el]\<rparr>)
         | PLACE_SELF \<Rightarrow>
             (case findOrderedByID xs (de_id d) of
                Some i \<Rightarrow> r\<lparr>re_ordered_elements := xs[i := el]\<rparr>
              | None \<Rightarrow> r)
         | PLACE_OTHER _ \<Rightarrow> r))"

definition reduceAccumulate ::
  "(bytes \<Rightarrow> bytes option) \<Rightarrow> reduced_flat \<Rightarrow> effect \<Rightarrow> data_effect \<Rightarrow> reduced_flat" where
  "reduceAccumulate zstd r e d =
     (let r1 = (if de_collection d = SCALAR \<and> re_collection r \<noteq> SCALAR
                then r\<lparr>re_net_adds := fmempty, re_net_removes := fmempty, re_ordered_elements := []\<rparr>
                else r);
          r2 = r1\<lparr>re_collection := de_collection d\<rparr>
      in case de_collection d of
           SCALAR \<Rightarrow> reduceScalar zstd r2 e d
         | KEYED \<Rightarrow> reduceKeyed zstd r2 e d
         | ORDERED \<Rightarrow> reduceOrdered r2 e d
         | COLLECTION_OTHER _ \<Rightarrow> r2)"

section \<open>A flat chain\<close>

definition reduce_meta :: "reduced_flat option \<Rightarrow> meta_effect \<Rightarrow> reduced_flat" where
  "reduce_meta r m =
     (let r0 = (case r of None \<Rightarrow> empty_flat | Some f \<Rightarrow> f);
          r1 = (if me_type_tag m \<noteq> TYPE_UNSPECIFIED then r0\<lparr>re_type_tag := me_type_tag m\<rparr> else r0)
      in if me_element_id m \<noteq> [] then
           (case fmlookup (re_net_adds r1) (me_element_id m) of
              Some el \<Rightarrow>
                r1\<lparr>re_net_adds := fmupd (me_element_id m) (el\<lparr>el_expires_at := me_expires_at m\<rparr>)
                     (re_net_adds r1)\<rparr>
            | None \<Rightarrow> r1)
         else if me_expires_at m \<noteq> None \<or> me_type_tag m = TYPE_UNSPECIFIED
              then r1\<lparr>re_expires_at := me_expires_at m\<rparr>
         else r1)"

definition reduce_serialization :: "reduced_flat option \<Rightarrow> serialization_effect \<Rightarrow> reduced_flat" where
  "reduce_serialization r se =
     (let r0 = (case r of None \<Rightarrow> empty_flat\<lparr>re_commutative := True\<rparr> | Some f \<Rightarrow> f)
      in r0\<lparr>re_serialization_leader := (if se_release se then None else Some (se_leader_node_id se))\<rparr>)"

text \<open>One iteration of the loop over the chain; the state is \<open>(r, hadDel)\<close>.\<close>

definition reduce_step ::
  "(bytes \<Rightarrow> bytes option) \<Rightarrow> reduced_flat option \<times> bool \<Rightarrow> effect \<Rightarrow> reduced_flat option \<times> bool" where
  "reduce_step zstd st e =
     (case st of (r, hadDel) \<Rightarrow>
      (case eff_kind e of
         Some (Data d) \<Rightarrow>
           if de_op d = REMOVE_OP \<and> de_collection d = SCALAR then (None, True)
           else (case r of
                   None \<Rightarrow> (Some (reduceFirst e d), hadDel)
                 | Some f \<Rightarrow> (Some (reduceAccumulate zstd f e d), hadDel))
       | Some (Meta m) \<Rightarrow> (Some (reduce_meta r m), hadDel)
       | Some (Subscription _) \<Rightarrow> (r, hadDel)
       | Some (Serialization se) \<Rightarrow> (Some (reduce_serialization r se), hadDel)
       | _ \<Rightarrow> (r, hadDel)))"

definition reduce_start :: "reduced_flat option \<Rightarrow> effect list \<Rightarrow> reduced_flat option \<times> bool" where
  "reduce_start r effects =
     (case r of
        Some f \<Rightarrow> if re_op f = REMOVE_OP \<and> effects \<noteq> [] then (None, True) else (r, False)
      | None \<Rightarrow> (None, False))"

definition reduce_finish :: "effect list \<Rightarrow> reduced_flat option \<times> bool \<Rightarrow> reduced_flat option" where
  "reduce_finish effects st =
     (case st of
        (None, True) \<Rightarrow>
          Some (empty_flat\<lparr>re_op := REMOVE_OP, re_hlc := eff_hlc (last effects),
                           re_node_id := eff_node_id (last effects)\<rparr>)
      | (None, False) \<Rightarrow> None
      | (Some f, _) \<Rightarrow>
          Some (if effects = [] then f
                else f\<lparr>re_hlc := eff_hlc (last effects), re_node_id := eff_node_id (last effects),
                       re_fork_choice_hash := eff_fork_choice_hash (hd effects)\<rparr>))"

definition reduce_loop ::
  "(bytes \<Rightarrow> bytes option) \<Rightarrow> reduced_flat option \<Rightarrow> effect list \<Rightarrow> reduced_flat option \<times> bool" where
  "reduce_loop zstd r effects = foldl (reduce_step zstd) (reduce_start r effects) effects"

definition reduceFlatOwned ::
  "(bytes \<Rightarrow> bytes option) \<Rightarrow> reduced_flat option \<Rightarrow> effect list \<Rightarrow> reduced_flat option" where
  "reduceFlatOwned zstd r effects = reduce_finish effects (reduce_loop zstd r effects)"

text \<open>The copy leaves out the partitions and the subscriber set.\<close>

definition cloneReducedFlat :: "reduced_effect \<Rightarrow> reduced_flat" where
  "cloneReducedFlat r = (re_flat r)\<lparr>re_scalar := map_option cloneData (re_scalar (re_flat r)),
                                    re_subscribers := fmempty\<rparr>"

primrec cloneReduced :: "reduced_effect \<Rightarrow> reduced_effect" where
  "cloneReduced (ReducedEffect f ps) =
     ReducedEffect (f\<lparr>re_scalar := map_option cloneData (re_scalar f), re_subscribers := fmempty\<rparr>)
       (fmmap cloneReduced ps)"

text \<open>A reduced effect without partitions.\<close>

definition flat_only :: "reduced_flat \<Rightarrow> reduced_effect" where
  "flat_only f = ReducedEffect f fmempty"

definition reduceFlat ::
  "(bytes \<Rightarrow> bytes option) \<Rightarrow> reduced_effect option \<Rightarrow> effect list \<Rightarrow> reduced_effect option" where
  "reduceFlat zstd seed effects =
     (if seed = None \<and> effects = [] then None
      else map_option flat_only (reduceFlatOwned zstd (map_option cloneReducedFlat seed) effects))"

section \<open>Virtual partitions\<close>

definition hasVirtualEffects :: "effect list \<Rightarrow> bool" where
  "hasVirtualEffects effects = list_ex (\<lambda>e. eff_virtual e \<noteq> []) effects"

definition isRootKeyDel :: "effect \<Rightarrow> bool" where
  "isRootKeyDel e =
     (if eff_virtual e \<noteq> [] then False
      else case GetData e of
             None \<Rightarrow> False
           | Some d \<Rightarrow> de_op d = REMOVE_OP \<and> de_collection d = SCALAR \<and> de_id d = [])"

text \<open>The chain from its last root delete on, if it has one.\<close>

fun from_last_del :: "effect list \<Rightarrow> effect list option" where
  "from_last_del [] = None"
| "from_last_del (e # es) =
     (case from_last_del es of
        Some l \<Rightarrow> Some l
      | None \<Rightarrow> if isRootKeyDel e then Some (e # es) else None)"

definition partition_keys :: "effect list \<Rightarrow> bytes list" where
  "partition_keys live = remdups (filter (\<lambda>v. v \<noteq> []) (map eff_virtual live))"

definition seed_partition :: "reduced_effect option \<Rightarrow> bytes \<Rightarrow> reduced_effect option" where
  "seed_partition seed v = (case seed of None \<Rightarrow> None | Some s \<Rightarrow> fmlookup (re_partitions s) v)"

text \<open>The partitions the chain touches, each reduced on its seed state, and the seed's other
  partitions, carried over.\<close>

definition reduced_partitions ::
  "(bytes \<Rightarrow> bytes option) \<Rightarrow> reduced_effect option \<Rightarrow> effect list \<Rightarrow> (bytes, reduced_effect) fmap" where
  "reduced_partitions zstd liveSeed live =
     fold (\<lambda>v m. case reduceFlat zstd (seed_partition liveSeed v)
                        (filter (\<lambda>e. eff_virtual e = v) live) of
                  Some rp \<Rightarrow> fmupd v rp m
                | None \<Rightarrow> m) (partition_keys live) fmempty"

definition carried_partitions ::
  "reduced_effect option \<Rightarrow> effect list \<Rightarrow> (bytes, reduced_effect) fmap" where
  "carried_partitions liveSeed live =
     (case liveSeed of
        None \<Rightarrow> fmempty
      | Some s \<Rightarrow> fmfilter (\<lambda>v. v \<notin> set (partition_keys live)) (re_partitions s))"

definition reducePartitioned ::
  "(bytes \<Rightarrow> bytes option) \<Rightarrow> reduced_effect option \<Rightarrow> effect list \<Rightarrow> reduced_effect option" where
  "reducePartitioned zstd seed effects =
     (let (liveSeed, live) = (case from_last_del effects of Some l \<Rightarrow> (None, l) | None \<Rightarrow> (seed, effects));
          root = reduceFlat zstd liveSeed (filter (\<lambda>e. eff_virtual e = []) live);
          parts = reduced_partitions zstd liveSeed live ++\<^sub>f carried_partitions liveSeed live
      in if fm_is_empty parts then root
         else case root of
                None \<Rightarrow> Some (ReducedEffect empty_flat parts)
              | Some r \<Rightarrow> Some (ReducedEffect (re_flat r) parts))"

definition is_flat_chain :: "reduced_effect option \<Rightarrow> effect list \<Rightarrow> bool" where
  "is_flat_chain seed effects \<longleftrightarrow>
     (case seed of None \<Rightarrow> True | Some s \<Rightarrow> fm_is_empty (re_partitions s)) \<and> \<not> hasVirtualEffects effects"

definition ReduceChain ::
  "(bytes \<Rightarrow> bytes option) \<Rightarrow> reduced_effect option \<Rightarrow> effect list \<Rightarrow> reduced_effect option" where
  "ReduceChain zstd seed effects =
     (if is_flat_chain seed effects then reduceFlat zstd seed effects
      else reducePartitioned zstd seed effects)"

definition ReduceBranch :: "(bytes \<Rightarrow> bytes option) \<Rightarrow> effect list \<Rightarrow> reduced_effect option" where
  "ReduceBranch zstd effects = ReduceChain zstd None effects"

definition reduceChainOwned ::
  "(bytes \<Rightarrow> bytes option) \<Rightarrow> reduced_effect option \<Rightarrow> effect list \<Rightarrow> reduced_effect option" where
  "reduceChainOwned zstd seed effects =
     (if is_flat_chain seed effects
      then map_option flat_only (reduceFlatOwned zstd (map_option re_flat seed) effects)
      else reducePartitioned zstd seed effects)"

section \<open>Batch and incremental reduction agree\<close>

lemma cloneData_id [simp]: "cloneData d = d"
  by (simp add: cloneData_def)

lemma map_option_cloneData [simp]: "map_option cloneData x = x"
  by (cases x) simp_all

text \<open>The causality stamp a reduction leaves behind (HLC, node, fork-choice hash) is never read by
  a later step, so two states that differ only in it stay so.\<close>

definition erase_stamp :: "reduced_flat \<Rightarrow> reduced_flat" where
  "erase_stamp f = f\<lparr>re_hlc := None, re_node_id := 0, re_fork_choice_hash := []\<rparr>"

definition erase_hash :: "reduced_flat \<Rightarrow> reduced_flat" where
  "erase_hash f = f\<lparr>re_fork_choice_hash := []\<rparr>"

definition same_state :: "reduced_flat option \<times> bool \<Rightarrow> reduced_flat option \<times> bool \<Rightarrow> bool" where
  "same_state s t \<longleftrightarrow>
     map_option erase_stamp (fst s) = map_option erase_stamp (fst t) \<and>
     (fst s = None \<longrightarrow> snd s = snd t)"

lemma reduceScalar_erase:
  "erase_stamp (reduceScalar z f e d) = reduceScalar z (erase_stamp f) e d"
  by (simp add: reduceScalar_def erase_stamp_def split: option.split merge_rule.split)

lemma reduceKeyed_erase:
  "erase_stamp (reduceKeyed z f e d) = reduceKeyed z (erase_stamp f) e d"
  by (simp add: reduceKeyed_def erase_stamp_def Let_def split: option.split merge_rule.split)

lemma reduceOrdered_erase:
  "erase_stamp (reduceOrdered f e d) = reduceOrdered (erase_stamp f) e d"
  by (simp add: reduceOrdered_def erase_stamp_def Let_def split: option.split placement.split)

lemma reduceAccumulate_erase:
  "erase_stamp (reduceAccumulate z f e d) = reduceAccumulate z (erase_stamp f) e d"
proof -
  have upd: "erase_stamp (f\<lparr>re_collection := c\<rparr>) = (erase_stamp f)\<lparr>re_collection := c\<rparr>"
    "erase_stamp (f\<lparr>re_net_adds := fmempty, re_net_removes := fmempty, re_ordered_elements := [],
        re_collection := c\<rparr>) =
     (erase_stamp f)\<lparr>re_net_adds := fmempty, re_net_removes := fmempty, re_ordered_elements := [],
        re_collection := c\<rparr>"
    "re_collection (erase_stamp f) = re_collection f" for c
    by (simp_all add: erase_stamp_def)
  show ?thesis
    by (simp add: reduceAccumulate_def Let_def upd reduceScalar_erase reduceKeyed_erase
        reduceOrdered_erase split: collection_kind.split)
qed

lemma reduce_meta_erase:
  "erase_stamp (reduce_meta (Some f) m) = reduce_meta (Some (erase_stamp f)) m"
  by (simp add: reduce_meta_def erase_stamp_def Let_def split: option.split)

lemma reduce_serialization_erase:
  "erase_stamp (reduce_serialization (Some f) se) = reduce_serialization (Some (erase_stamp f)) se"
  by (simp add: reduce_serialization_def erase_stamp_def)

lemmas erase_lemmas = reduceAccumulate_erase reduce_meta_erase reduce_serialization_erase

lemma same_state_SomeE:
  assumes "same_state s t" and "fst s = Some f"
  obtains g b c where "s = (Some f, b)" and "t = (Some g, c)" and "erase_stamp f = erase_stamp g"
  using assms by (cases s; cases t; cases "fst t") (auto simp: same_state_def)

lemma same_state_step:
  assumes "same_state s t"
  shows "same_state (reduce_step z s e) (reduce_step z t e)"
proof (cases "fst s")
  case None
  with assms have "s = t"
    by (cases s; cases t) (auto simp: same_state_def)
  then show ?thesis
    by (simp add: same_state_def)
next
  case (Some f)
  with assms(1) obtain g b c where st: "s = (Some f, b)" "t = (Some g, c)"
    and fg: "erase_stamp f = erase_stamp g"
    by (rule same_state_SomeE)
  show ?thesis
    unfolding st
    by (auto simp: reduce_step_def same_state_def erase_lemmas fg
        split: option.split effect_kind.split)
qed

lemma same_state_foldl:
  "same_state s t \<Longrightarrow> same_state (foldl (reduce_step z) s es) (foldl (reduce_step z) t es)"
  by (induction es arbitrary: s t) (auto simp: same_state_step)

text \<open>A state is not mistaken for a delete marker when its operation is not REMOVE.\<close>

definition unmarked :: "reduced_flat option \<times> bool \<Rightarrow> bool" where
  "unmarked s \<longleftrightarrow> (case fst s of None \<Rightarrow> True | Some f \<Rightarrow> re_op f \<noteq> REMOVE_OP)"

lemma reduce_start_append:
  "xs \<noteq> [] \<Longrightarrow> reduce_start r (xs @ ys) = reduce_start r xs"
  by (simp add: reduce_start_def split: option.split)

text \<open>Restarting from a finished state loses nothing but the stamp.\<close>

lemma same_state_restart:
  assumes "unmarked s" and "xs \<noteq> []" and "ys \<noteq> []"
  shows "same_state s (reduce_start (reduce_finish xs s) ys)"
  using assms
  by (cases s; cases "fst s"; cases "snd s")
    (auto simp: same_state_def unmarked_def reduce_start_def reduce_finish_def erase_stamp_def)

lemma reduce_finish_same_state:
  assumes "same_state s t" and "ys \<noteq> []" and "xs \<noteq> []"
  shows "map_option erase_hash (reduce_finish (xs @ ys) s) = map_option erase_hash (reduce_finish ys t)"
proof (cases "fst s")
  case None
  with assms(1) have "s = t"
    by (cases s; cases t) (auto simp: same_state_def)
  with None show ?thesis
    using assms(2) by (cases t; cases "snd t") (auto simp: reduce_finish_def)
next
  case (Some f)
  with assms(1) obtain g b c where st: "s = (Some f, b)" "t = (Some g, c)"
    and fg: "erase_stamp f = erase_stamp g"
    by (rule same_state_SomeE)
  have "f\<lparr>re_hlc := h, re_node_id := n, re_fork_choice_hash := []\<rparr> =
        g\<lparr>re_hlc := h, re_node_id := n, re_fork_choice_hash := []\<rparr>" for h n
    using fg by (cases f; cases g) (simp add: erase_stamp_def)
  then show ?thesis
    using assms(2) by (simp add: st reduce_finish_def erase_hash_def)
qed

lemma reduceFlatOwned_append:
  assumes "xs \<noteq> []" and "ys \<noteq> []" and "unmarked (reduce_loop z r xs)"
  shows "map_option erase_hash (reduceFlatOwned z r (xs @ ys)) =
         map_option erase_hash (reduceFlatOwned z (reduceFlatOwned z r xs) ys)"
proof -
  let ?s = "reduce_loop z r xs"
  have "same_state ?s (reduce_start (reduceFlatOwned z r xs) ys)"
    using same_state_restart [OF assms(3,1,2)] by (simp add: reduceFlatOwned_def)
  then have "same_state (foldl (reduce_step z) ?s ys) (reduce_loop z (reduceFlatOwned z r xs) ys)"
    unfolding reduce_loop_def [of _ "reduceFlatOwned z r xs"] by (rule same_state_foldl)
  moreover have "reduce_loop z r (xs @ ys) = foldl (reduce_step z) ?s ys"
    using assms(1) by (simp add: reduce_loop_def reduce_start_append)
  ultimately show ?thesis
    using reduce_finish_same_state assms(1,2) by (simp add: reduceFlatOwned_def)
qed

section \<open>The ownership-optimised reducer\<close>

definition no_subscribers :: "reduced_flat option \<Rightarrow> bool" where
  "no_subscribers r \<longleftrightarrow> (case r of None \<Rightarrow> True | Some f \<Rightarrow> re_subscribers f = fmempty)"

lemma no_subscribers_simps [simp]:
  "no_subscribers None" "no_subscribers (Some f) \<longleftrightarrow> re_subscribers f = fmempty"
  by (simp_all add: no_subscribers_def)

lemma re_subscribers_reduceAccumulate [simp]:
  "re_subscribers (reduceAccumulate z f e d) = re_subscribers f"
  by (simp add: reduceAccumulate_def reduceScalar_def reduceKeyed_def reduceOrdered_def Let_def
      split: collection_kind.split option.split merge_rule.split placement.split)

lemma re_subscribers_reduceFirst [simp]: "re_subscribers (reduceFirst e d) = fmempty"
  by (simp add: reduceFirst_def empty_flat_def Let_def split: collection_kind.split)

lemma re_subscribers_reduce_meta [simp]:
  "no_subscribers r \<Longrightarrow> re_subscribers (reduce_meta r m) = fmempty"
  by (cases r) (simp_all add: reduce_meta_def empty_flat_def Let_def split: option.split)

lemma re_subscribers_reduce_serialization [simp]:
  "no_subscribers r \<Longrightarrow> re_subscribers (reduce_serialization r se) = fmempty"
  by (cases r) (simp_all add: reduce_serialization_def empty_flat_def)

lemma no_subscribers_step:
  "no_subscribers (fst s) \<Longrightarrow> no_subscribers (fst (reduce_step z s e))"
  by (cases s) (auto simp: reduce_step_def split: option.split effect_kind.split)

lemma no_subscribers_reduceFlatOwned:
  assumes "no_subscribers r"
  shows "no_subscribers (reduceFlatOwned z r es)"
proof -
  have loop: "no_subscribers (fst (foldl (reduce_step z) s es))" if "no_subscribers (fst s)" for s
    using that by (induction es arbitrary: s) (simp_all add: no_subscribers_step)
  have "no_subscribers (fst (reduce_start r es))"
    using assms by (auto simp: reduce_start_def split: option.split)
  then have "no_subscribers (fst (reduce_loop z r es))"
    unfolding reduce_loop_def by (rule loop)
  then show ?thesis
    unfolding reduceFlatOwned_def reduce_finish_def empty_flat_def
    by (auto split: prod.split option.split bool.split)
qed

lemma cloneReducedFlat_flat_only:
  "no_subscribers r \<Longrightarrow> map_option cloneReducedFlat (map_option flat_only r) = r"
  by (cases r) (auto simp: cloneReducedFlat_def flat_only_def)

lemma map_flat_only:
  "map_option (f \<circ> re_flat) (map_option flat_only r) = map_option f r"
  by (cases r) (simp_all add: flat_only_def)

lemma no_subscribers_clone [simp]: "no_subscribers (map_option cloneReducedFlat seed)"
  by (cases seed) (auto simp: cloneReducedFlat_def)

lemma reduceChainOwned_eq:
  assumes "\<And>s. seed = Some s \<Longrightarrow> re_subscribers (re_flat s) = fmempty"
  shows "reduceChainOwned z seed es = ReduceChain z seed es"
proof (cases seed)
  case None
  then show ?thesis
    by (simp add: reduceChainOwned_def ReduceChain_def reduceFlat_def reduceFlatOwned_def
        reduce_loop_def reduce_start_def reduce_finish_def)
next
  case (Some s)
  then have "cloneReducedFlat s = re_flat s"
    using assms [OF Some] by (cases "re_flat s") (simp add: cloneReducedFlat_def)
  then show ?thesis
    by (simp add: Some reduceChainOwned_def ReduceChain_def reduceFlat_def)
qed

section \<open>Partitions\<close>

lemma from_last_del_append:
  "isRootKeyDel d \<Longrightarrow> from_last_del (xs @ d # ys) = from_last_del (d # ys)"
  by (induction xs) (auto split: option.split)

lemma from_last_del_None: "from_last_del es = None \<longleftrightarrow> (\<forall>e \<in> set es. \<not> isRootKeyDel e)"
  by (induction es) (auto split: option.split)

lemma fold_fmupd_lookup:
  "distinct vs \<Longrightarrow>
   fmlookup (fold (\<lambda>v m. case f v of Some rp \<Rightarrow> fmupd v rp m | None \<Rightarrow> m) vs m) k =
     (if k \<in> set vs \<and> f k \<noteq> None then f k else fmlookup m k)"
  by (induction vs arbitrary: m) (auto split: option.split)

lemma set_partition_keys:
  "set (partition_keys es) = {v. v \<noteq> [] \<and> (\<exists>e \<in> set es. eff_virtual e = v)}"
  by (auto simp: partition_keys_def)

lemma distinct_partition_keys: "distinct (partition_keys es)"
  by (simp add: partition_keys_def)

lemma seed_partition_reduceFlat [simp]: "seed_partition (reduceFlat z seed es) v = None"
  by (simp add: seed_partition_def reduceFlat_def flat_only_def split: option.split)

lemma fmlookup_reduced_partitions:
  "fmlookup (reduced_partitions z seed es) v =
     (if v \<in> set (partition_keys es)
      then reduceFlat z (seed_partition seed v) (filter (\<lambda>e. eff_virtual e = v) es) else None)"
  unfolding reduced_partitions_def by (subst fold_fmupd_lookup [OF distinct_partition_keys]) auto

lemma fmlookup_carried_partitions:
  "fmlookup (carried_partitions seed es) v =
     (if v \<in> set (partition_keys es) then None else seed_partition seed v)"
  by (simp add: carried_partitions_def seed_partition_def split: option.split)

lemma fmlookup_fmadd: "fmlookup (m ++\<^sub>f n) k = (case fmlookup n k of Some v \<Rightarrow> Some v | None \<Rightarrow> fmlookup m k)"
  by (auto split: option.split)

lemma seed_partition_ReducedEffect [simp]:
  "seed_partition (Some (ReducedEffect f ps)) v = fmlookup ps v"
  by (simp add: seed_partition_def)

lemma seed_partition_reducePartitioned:
  assumes "from_last_del es = None"
  shows "seed_partition (reducePartitioned z seed es) v =
    (if v \<in> set (partition_keys es)
     then reduceFlat z (seed_partition seed v) (filter (\<lambda>e. eff_virtual e = v) es)
     else seed_partition seed v)"
proof -
  define parts where "parts = reduced_partitions z seed es ++\<^sub>f carried_partitions seed es"
  have parts: "fmlookup parts v =
      (if v \<in> set (partition_keys es)
       then reduceFlat z (seed_partition seed v) (filter (\<lambda>e. eff_virtual e = v) es)
       else seed_partition seed v)"
    unfolding parts_def fmlookup_fmadd fmlookup_reduced_partitions fmlookup_carried_partitions
    by (simp split: option.split)
  define root where "root = reduceFlat z seed (filter (\<lambda>e. eff_virtual e = []) es)"
  have eq: "reducePartitioned z seed es =
      (if fm_is_empty parts then root
       else case root of None \<Rightarrow> Some (ReducedEffect empty_flat parts)
                       | Some r \<Rightarrow> Some (ReducedEffect (re_flat r) parts))"
    unfolding reducePartitioned_def parts_def root_def using assms by (simp add: Let_def)
  have root: "seed_partition root v = None"
    by (simp add: root_def)
  show ?thesis
    unfolding eq parts [symmetric] using root
    by (auto simp: fm_is_empty_iff split: option.split)
qed

lemma reducePartitioned_wipe:
  "isRootKeyDel d \<Longrightarrow> reducePartitioned z seed (xs @ d # ys) = reducePartitioned z None (d # ys)"
proof -
  assume d: "isRootKeyDel d"
  then obtain l where "from_last_del (d # ys) = Some l"
    by (cases "from_last_del ys") auto
  then show ?thesis
    by (simp add: reducePartitioned_def from_last_del_append [OF d] del: from_last_del.simps)
qed

section \<open>Counters\<close>

text \<open>A scalar write of rule \<open>m\<close> carrying the integer \<open>i\<close>.\<close>

definition int_write :: "merge_rule \<Rightarrow> int64 \<Rightarrow> effect \<Rightarrow> bool" where
  "int_write m i e \<longleftrightarrow>
     (\<exists>d. eff_kind e = Some (Data d) \<and> de_op d \<noteq> REMOVE_OP \<and> de_collection d = SCALAR \<and>
          de_merge d = m \<and> de_value d = Some (IntVal i))"

definition scalar_int :: "reduced_flat \<Rightarrow> int64 option" where
  "scalar_int f = (case re_scalar f of
       Some s \<Rightarrow> (case de_value s of Some (IntVal i) \<Rightarrow> Some i | _ \<Rightarrow> None)
     | None \<Rightarrow> None)"

lemma scalar_int_Some:
  "scalar_int f = Some i \<longleftrightarrow> (\<exists>s. re_scalar f = Some s \<and> de_value s = Some (IntVal i))"
  by (auto simp: scalar_int_def split: option.split data_value.split)

lemma reduceAccumulate_counter:
  assumes "int_write ADDITIVE_INT i e" and "eff_kind e = Some (Data d)"
    and "scalar_int f = Some c" and "re_merge f \<in> {ADDITIVE_INT, LAST_WRITE_WINS}"
  shows "scalar_int (reduceAccumulate z f e d) = Some (c + i) \<and>
         re_merge (reduceAccumulate z f e d) = re_merge f"
proof -
  obtain s where s: "re_scalar f = Some s" "de_value s = Some (IntVal c)"
    using assms(3) by (auto simp: scalar_int_Some)
  from assms show ?thesis
    by (auto simp: int_write_def reduceAccumulate_def reduceScalar_def Let_def s getters
        scalarIntBase_def scalar_int_def)
qed

lemma reduce_counter_loop:
  assumes "list_all2 (int_write ADDITIVE_INT) ds es"
    and "scalar_int f = Some c" and "re_merge f \<in> {ADDITIVE_INT, LAST_WRITE_WINS}"
  shows "\<exists>g. foldl (reduce_step z) (Some f, b) es = (Some g, b) \<and>
             scalar_int g = Some (c + sum_list ds) \<and> re_merge g = re_merge f"
  using assms
proof (induction ds es arbitrary: f c rule: list_all2_induct)
  case Nil
  then show ?case by simp
next
  case (Cons i ds e es)
  obtain d where d: "eff_kind e = Some (Data d)" "\<not> (de_op d = REMOVE_OP \<and> de_collection d = SCALAR)"
    using Cons.hyps(1) by (auto simp: int_write_def)
  let ?g = "reduceAccumulate z f e d"
  have step: "reduce_step z (Some f, b) e = (Some ?g, b)"
    using d by (simp add: reduce_step_def)
  have "scalar_int ?g = Some (c + i)" "re_merge ?g = re_merge f"
    using reduceAccumulate_counter [OF Cons.hyps(1) d(1) Cons.prems] by simp_all
  then show ?case
    using Cons.IH [of ?g "c + i"] Cons.prems(2) by (simp add: step add.assoc)
qed

lemma reduceFirst_counter:
  assumes "int_write ADDITIVE_INT i e" and "eff_kind e = Some (Data d)"
  shows "scalar_int (reduceFirst e d) = Some i \<and> re_merge (reduceFirst e d) = ADDITIVE_INT"
  using assms by (auto simp: int_write_def reduceFirst_def Let_def scalar_int_def)

lemma reduce_finish_Some:
  "es \<noteq> [] \<Longrightarrow> reduce_finish es (Some g, b) = Some h \<Longrightarrow> scalar_int h = scalar_int g"
  by (auto simp: reduce_finish_def scalar_int_def)

section \<open>Keyed collections\<close>

definition keyed_put :: "effect \<Rightarrow> bool" where
  "keyed_put e \<longleftrightarrow>
     (case GetData e of
        None \<Rightarrow> False
      | Some d \<Rightarrow> de_collection d = KEYED \<and> de_op d \<in> {INSERT_OP, REMOVE_OP} \<and>
                 de_merge d \<in> {LAST_WRITE_WINS, FIRST_WRITE_WINS, MAX_BYTES})"

text \<open>What a keyed write means for a map from element ids to elements.\<close>

definition keyed_apply ::
  "effect \<Rightarrow> (bytes \<Rightarrow> reduced_element option) \<Rightarrow> bytes \<Rightarrow> reduced_element option" where
  "keyed_apply e m =
     (case GetData e of
        None \<Rightarrow> m
      | Some d \<Rightarrow> m(de_id d := (if de_op d = REMOVE_OP then None else Some (elementFromData e d))))"

definition adds_of :: "reduced_flat option \<Rightarrow> bytes \<Rightarrow> reduced_element option" where
  "adds_of r = (case r of None \<Rightarrow> (\<lambda>_. None) | Some f \<Rightarrow> fmlookup (re_net_adds f))"

lemma keyed_put_step:
  assumes "keyed_put e"
  shows "\<exists>g. reduce_step z (r, b) e = (Some g, b) \<and> fmlookup (re_net_adds g) = keyed_apply e (adds_of r)"
proof -
  obtain d where d: "eff_kind e = Some (Data d)" "de_collection d = KEYED"
      "de_op d = INSERT_OP \<or> de_op d = REMOVE_OP"
      "de_merge d = LAST_WRITE_WINS \<or> de_merge d = FIRST_WRITE_WINS \<or> de_merge d = MAX_BYTES"
    using assms by (auto simp: keyed_put_def getters split: option.splits effect_kind.splits)
  show ?thesis
  proof (cases r)
    case None
    then show ?thesis
      using d by (auto simp: reduce_step_def reduceFirst_def Let_def keyed_apply_def getters
          adds_of_def empty_flat_def fun_eq_iff)
  next
    case (Some f)
    have "fmlookup (re_net_adds (reduceAccumulate z f e d)) = keyed_apply e (adds_of r)"
      using d by (auto simp: reduceAccumulate_def reduceKeyed_def Let_def keyed_apply_def getters
          adds_of_def Some fun_eq_iff split: option.split)
    then show ?thesis
      using d by (simp add: reduce_step_def Some)
  qed
qed

lemma keyed_put_loop:
  assumes "list_all keyed_put es"
  shows "adds_of (fst (foldl (reduce_step z) (r, b) es)) = fold keyed_apply es (adds_of r)"
  using assms
proof (induction es arbitrary: r b)
  case Nil
  then show ?case by simp
next
  case (Cons e es)
  obtain g where g: "reduce_step z (r, b) e = (Some g, b)"
      "fmlookup (re_net_adds g) = keyed_apply e (adds_of r)"
    using keyed_put_step [of e z r b] Cons.prems by auto
  then show ?case
    using Cons.IH [of "Some g" b] Cons.prems by (simp add: adds_of_def)
qed

text \<open>The fold of writes reads off the last write to each element.\<close>

definition writes_to :: "bytes \<Rightarrow> effect list \<Rightarrow> effect list" where
  "writes_to k es = filter (\<lambda>e. \<exists>d. GetData e = Some d \<and> de_id d = k) es"

definition written :: "effect \<Rightarrow> reduced_element option" where
  "written e = (case GetData e of
      None \<Rightarrow> None
    | Some d \<Rightarrow> if de_op d = REMOVE_OP then None else Some (elementFromData e d))"

lemma fold_keyed_apply:
  "fold keyed_apply es m k = (if writes_to k es = [] then m k else written (last (writes_to k es)))"
proof (induction es rule: rev_induct)
  case Nil
  then show ?case by (simp add: writes_to_def)
next
  case (snoc e es)
  then show ?case
    by (auto simp: writes_to_def keyed_apply_def written_def split: option.split)
qed

text \<open>Added and removed elements stay apart as long as no ordered write is mixed in.\<close>

definition adds_removes_disjoint :: "reduced_flat option \<Rightarrow> bool" where
  "adds_removes_disjoint r \<longleftrightarrow>
     (case r of None \<Rightarrow> True | Some f \<Rightarrow> fmdom (re_net_adds f) |\<inter>| fmdom (re_net_removes f) = {||})"

lemma adds_removes_disjoint_iff:
  "adds_removes_disjoint (Some f) \<longleftrightarrow>
     (\<forall>k el. fmlookup (re_net_adds f) k = Some el \<longrightarrow> fmlookup (re_net_removes f) k = None)"
  by (auto simp: adds_removes_disjoint_def fmlookup_dom_iff fset_eq_iff)
    (metis option.distinct(1))

definition not_ordered :: "effect \<Rightarrow> bool" where
  "not_ordered e \<longleftrightarrow> (case GetData e of None \<Rightarrow> True | Some d \<Rightarrow> de_collection d \<noteq> ORDERED)"

lemma reduceAccumulate_disjoint:
  assumes "adds_removes_disjoint (Some f)" and "de_collection d \<noteq> ORDERED"
  shows "adds_removes_disjoint (Some (reduceAccumulate z f e d))"
proof (cases "de_collection d")
  case SCALAR
  with assms show ?thesis
    by (auto simp: reduceAccumulate_def reduceScalar_def Let_def adds_removes_disjoint_iff
        split: option.split merge_rule.split)
next
  case KEYED
  with assms show ?thesis
    by (auto simp: reduceAccumulate_def reduceKeyed_def Let_def adds_removes_disjoint_iff
        split: option.split merge_rule.split)
qed (use assms in \<open>auto simp: reduceAccumulate_def Let_def adds_removes_disjoint_iff\<close>)

lemma reduceFirst_disjoint: "adds_removes_disjoint (Some (reduceFirst e d))"
  by (auto simp: reduceFirst_def Let_def adds_removes_disjoint_iff empty_flat_def
      split: collection_kind.split)

lemma reduce_meta_disjoint:
  "adds_removes_disjoint r \<Longrightarrow> adds_removes_disjoint (Some (reduce_meta r m))"
  by (cases r) (auto simp: reduce_meta_def Let_def adds_removes_disjoint_iff empty_flat_def
      split: option.split)

lemma reduce_serialization_disjoint:
  "adds_removes_disjoint r \<Longrightarrow> adds_removes_disjoint (Some (reduce_serialization r se))"
  by (cases r) (auto simp: reduce_serialization_def adds_removes_disjoint_iff empty_flat_def)

lemma reduce_step_disjoint:
  assumes "adds_removes_disjoint (fst s)" and "not_ordered e"
  shows "adds_removes_disjoint (fst (reduce_step z s e))"
proof -
  obtain r b where s: "s = (r, b)" by (cases s)
  have none: "adds_removes_disjoint None"
    by (simp add: adds_removes_disjoint_def)
  show ?thesis
    using assms unfolding s
    by (auto simp: reduce_step_def not_ordered_def getters none reduceFirst_disjoint
        reduceAccumulate_disjoint reduce_meta_disjoint reduce_serialization_disjoint
        split: option.splits effect_kind.splits)
qed

lemma reduce_foldl_disjoint:
  "adds_removes_disjoint (fst s) \<Longrightarrow> list_all not_ordered es \<Longrightarrow>
   adds_removes_disjoint (fst (foldl (reduce_step z) s es))"
  by (induction es arbitrary: s) (auto simp: reduce_step_disjoint)

section \<open>Ordered collections\<close>

definition tail_append :: "effect \<Rightarrow> bool" where
  "tail_append e \<longleftrightarrow>
     (case GetData e of
        None \<Rightarrow> False
      | Some d \<Rightarrow> de_collection d = ORDERED \<and> de_op d = INSERT_OP \<and>
                 de_placement d \<in> {PLACE_TAIL, PLACE_NONE})"

definition element_of :: "effect \<Rightarrow> reduced_element" where
  "element_of e = elementFromData e (the (GetData e))"

definition ordered_of :: "reduced_flat option \<Rightarrow> reduced_element list" where
  "ordered_of r = (case r of None \<Rightarrow> [] | Some f \<Rightarrow> re_ordered_elements f)"

lemma tail_append_step:
  assumes "tail_append e"
  shows "\<exists>g. reduce_step z (r, b) e = (Some g, b) \<and> re_ordered_elements g = ordered_of r @ [element_of e]"
proof -
  obtain d where d: "eff_kind e = Some (Data d)" "de_collection d = ORDERED" "de_op d = INSERT_OP"
      "de_placement d = PLACE_TAIL \<or> de_placement d = PLACE_NONE"
    using assms by (auto simp: tail_append_def getters split: option.splits effect_kind.splits)
  then show ?thesis
    by (cases r) (auto simp: reduce_step_def reduceFirst_def reduceAccumulate_def reduceOrdered_def
        Let_def element_of_def getters ordered_of_def empty_flat_def)
qed

lemma tail_append_loop:
  assumes "list_all tail_append es"
  shows "ordered_of (fst (foldl (reduce_step z) (r, b) es)) = ordered_of r @ map element_of es"
  using assms
proof (induction es arbitrary: r b)
  case Nil
  then show ?case by simp
next
  case (Cons e es)
  obtain g where g: "reduce_step z (r, b) e = (Some g, b)"
      "re_ordered_elements g = ordered_of r @ [element_of e]"
    using tail_append_step [of e z r b] Cons.prems by auto
  then show ?case
    using Cons.IH [of "Some g" b] Cons.prems by (simp add: ordered_of_def)
qed

section \<open>Reading a reduced chain\<close>

text \<open>The increment an additive write carries, and the integer a state holds: \<open>0\<close> for a key
  with no state.\<close>

definition incr_amount :: "effect \<Rightarrow> int64" where
  "incr_amount e = (case GetData e of None \<Rightarrow> 0 | Some d \<Rightarrow> GetIntVal d)"

definition counter_value :: "reduced_effect option \<Rightarrow> int64 option" where
  "counter_value r = (case r of None \<Rightarrow> Some 0 | Some s \<Rightarrow> scalar_int (re_flat s))"

text \<open>A state an increment can be applied to: no state, or an integer scalar under one of the two
  rules \<open>reduceScalar\<close> adds to.\<close>

definition is_counter :: "reduced_effect option \<Rightarrow> bool" where
  "is_counter r \<longleftrightarrow> (case r of
       None \<Rightarrow> True
     | Some s \<Rightarrow> scalar_int (re_flat s) \<noteq> None \<and> re_op (re_flat s) \<noteq> REMOVE_OP \<and>
               re_merge (re_flat s) \<in> {ADDITIVE_INT, LAST_WRITE_WINS} \<and> fm_is_empty (re_partitions s))"

definition elements :: "reduced_effect option \<Rightarrow> bytes \<Rightarrow> reduced_element option" where
  "elements r = adds_of (map_option re_flat r)"

definition list_of :: "reduced_effect option \<Rightarrow> reduced_element list" where
  "list_of r = ordered_of (map_option re_flat r)"

lemma flat_None: "\<forall>e \<in> set es. eff_virtual e = [] \<Longrightarrow> is_flat_chain None es"
  by (auto simp: is_flat_chain_def hasVirtualEffects_def list_ex_iff)

lemma ReduceChain_None:
  "is_flat_chain None es \<Longrightarrow> es \<noteq> [] \<Longrightarrow>
   ReduceChain z None es = map_option flat_only (reduceFlatOwned z None es)"
  by (simp add: ReduceChain_def reduceFlat_def)

lemma map_flat_id: "map_option (re_flat \<circ> flat_only) r = r"
  by (cases r) (simp_all add: flat_only_def)

lemma finish_reads [simp]:
  assumes "es \<noteq> []"
  shows "adds_of (reduce_finish es (r, b)) = adds_of r"
    and "ordered_of (reduce_finish es (r, b)) = ordered_of r"
    and "adds_removes_disjoint (reduce_finish es (r, b)) = adds_removes_disjoint r"
  using assms
  by (auto simp: reduce_finish_def adds_of_def ordered_of_def adds_removes_disjoint_def empty_flat_def
      split: option.split bool.split)

lemma finish_reads_fst [simp]:
  "es \<noteq> [] \<Longrightarrow> adds_of (reduce_finish es s) = adds_of (fst s)"
  "es \<noteq> [] \<Longrightarrow> ordered_of (reduce_finish es s) = ordered_of (fst s)"
  "es \<noteq> [] \<Longrightarrow> adds_removes_disjoint (reduce_finish es s) = adds_removes_disjoint (fst s)"
  by (cases s; simp)+

lemma counter_loop:
  assumes "list_all2 (int_write ADDITIVE_INT) ds es" and "es \<noteq> []" and "is_counter seed"
    and "counter_value seed = Some c"
  shows "\<exists>g. reduce_loop z (map_option cloneReducedFlat seed) es = (Some g, False) \<and>
             scalar_int g = Some (c + sum_list ds)"
proof (cases seed)
  case (Some s)
  then have f: "scalar_int (cloneReducedFlat s) = Some c"
      "re_merge (cloneReducedFlat s) \<in> {ADDITIVE_INT, LAST_WRITE_WINS}" "re_op (cloneReducedFlat s) \<noteq> REMOVE_OP"
    using assms(3,4)
    by (auto simp: is_counter_def counter_value_def cloneReducedFlat_def scalar_int_def)
  show ?thesis
    using reduce_counter_loop [OF assms(1) f(1,2), of z False] f(3) Some
    by (auto simp: reduce_loop_def reduce_start_def)
next
  case None
  obtain i ds' e es' where l: "ds = i # ds'" "es = e # es'" "int_write ADDITIVE_INT i e"
      "list_all2 (int_write ADDITIVE_INT) ds' es'"
    using assms(1,2) by (auto simp: list_all2_Cons2 neq_Nil_conv)
  obtain d where d: "eff_kind e = Some (Data d)" "de_op d \<noteq> REMOVE_OP"
    using l(3) by (auto simp: int_write_def)
  have f: "scalar_int (reduceFirst e d) = Some i" "re_merge (reduceFirst e d) \<in> {ADDITIVE_INT, LAST_WRITE_WINS}"
    using reduceFirst_counter [OF l(3) d(1)] by simp_all
  show ?thesis
    using reduce_counter_loop [OF l(4) f, of z False] None assms(4) d l(1,2)
    by (auto simp: reduce_loop_def reduce_start_def reduce_step_def counter_value_def)
qed

lemma counter_chain:
  assumes "list_all (\<lambda>e. int_write ADDITIVE_INT (incr_amount e) e) es"
    and "\<forall>e \<in> set es. eff_virtual e = []" and "is_counter seed" and "counter_value seed = Some c"
  shows "counter_value (ReduceChain z seed es) = Some (c + (\<Sum>e\<leftarrow>es. incr_amount e))"
proof (cases "es = []")
  case True
  have "is_flat_chain seed []"
    using assms(3) by (auto simp: is_flat_chain_def is_counter_def hasVirtualEffects_def split: option.splits)
  with assms(4) True show ?thesis
    by (cases seed) (auto simp: ReduceChain_def reduceFlat_def reduceFlatOwned_def reduce_loop_def
        reduce_start_def reduce_finish_def flat_only_def counter_value_def cloneReducedFlat_def scalar_int_def
        split: if_splits)
next
  case False
  have "list_all2 (int_write ADDITIVE_INT) (map incr_amount es) es"
    using assms(1) by (simp add: list_all2_map1 list.rel_refl_strong list_all_iff)
  from counter_loop [OF this False assms(3,4)] obtain g where
    g: "reduce_loop z (map_option cloneReducedFlat seed) es = (Some g, False)"
       "scalar_int g = Some (c + (\<Sum>e\<leftarrow>es. incr_amount e))" by auto
  have "is_flat_chain seed es"
    using assms(2,3) by (auto simp: is_flat_chain_def is_counter_def hasVirtualEffects_def list_ex_iff
        split: option.splits)
  with g False show ?thesis
    by (simp add: ReduceChain_def reduceFlat_def reduceFlatOwned_def counter_value_def reduce_finish_def
        flat_only_def scalar_int_def)
qed

lemma sum_list_mset_cong: "mset xs = mset ys \<Longrightarrow> (\<Sum>x\<leftarrow>xs. f x) = (\<Sum>x\<leftarrow>ys. (f x :: int64))"
  by (metis mset_map sum_mset_sum_list)

section \<open>Properties\<close>

text \<open>Example effects, used by the witnesses.\<close>

definition ex_data :: "data_effect" where
  "ex_data = \<lparr>de_op = INSERT_OP, de_merge = LAST_WRITE_WINS, de_collection = SCALAR,
     de_placement = PLACE_NONE, de_reference = [], de_id = [], de_value = None\<rparr>"

definition ex_effect :: "data_effect \<Rightarrow> effect" where
  "ex_effect d = \<lparr>eff_key = ''k'', eff_hlc = None, eff_node_id = 1, eff_deps = [], eff_txn_id = [],
     eff_fork_choice_hash = ''h'', eff_virtual = [], eff_kind = Some (Data d)\<rparr>"

definition ex_incr :: "int64 \<Rightarrow> effect" where
  "ex_incr i = ex_effect (ex_data\<lparr>de_merge := ADDITIVE_INT, de_value := Some (IntVal i)\<rparr>)"

definition ex_sadd :: "bytes \<Rightarrow> effect" where
  "ex_sadd x = ex_effect (ex_data\<lparr>de_collection := KEYED, de_id := x, de_value := Some (Raw x)\<rparr>)"

definition ex_srem :: "bytes \<Rightarrow> effect" where
  "ex_srem x = ex_effect (ex_data\<lparr>de_op := REMOVE_OP, de_collection := KEYED, de_id := x\<rparr>)"

definition ex_no_zstd :: "bytes \<Rightarrow> bytes option" where
  "ex_no_zstd b = None"

lemmas ex_defs = ex_data_def ex_effect_def ex_incr_def ex_sadd_def ex_srem_def

text \<open>C1: reducing a flat chain in one call gives the same state, up to the
  fork-choice hash, as reducing a prefix and then the rest on top of the result, provided the
  state after the prefix is not one that carries the operation REMOVE without being a delete
  marker. This is what lets a snapshot stand for the history it folds.\<close>

theorem reduce_incremental:
  assumes "is_flat_chain seed (xs @ ys)" and "xs \<noteq> []" and "ys \<noteq> []"
    and "unmarked (reduce_loop z (map_option cloneReducedFlat seed) xs)"
  shows "map_option (erase_hash \<circ> re_flat) (ReduceChain z seed (xs @ ys)) =
         map_option (erase_hash \<circ> re_flat) (ReduceChain z (ReduceChain z seed xs) ys)"
proof -
  let ?r = "map_option cloneReducedFlat seed"
  let ?m = "reduceFlatOwned z ?r xs"
  have flat: "is_flat_chain seed xs" "is_flat_chain (ReduceChain z seed xs) ys"
    using assms(1) by (auto simp: is_flat_chain_def hasVirtualEffects_def ReduceChain_def
        reduceFlat_def flat_only_def split: option.splits)
  have mid: "ReduceChain z seed xs = map_option flat_only ?m"
    using flat(1) assms(2) by (simp add: ReduceChain_def reduceFlat_def)
  have clone: "map_option cloneReducedFlat (map_option flat_only ?m) = ?m"
    by (simp add: cloneReducedFlat_flat_only no_subscribers_reduceFlatOwned)
  show ?thesis
    using assms(1-3) flat(2) reduceFlatOwned_append [OF assms(2-4)]
    by (simp add: ReduceChain_def [of _ seed "xs @ ys"] ReduceChain_def [of _ _ ys] reduceFlat_def
        mid clone map_flat_only)
qed

theorem reduce_incremental_witness:
  "map_option (erase_hash \<circ> re_flat) (ReduceChain ex_no_zstd None ([ex_sadd ''a''] @ [ex_srem ''b''])) =
   map_option (erase_hash \<circ> re_flat)
     (ReduceChain ex_no_zstd (ReduceChain ex_no_zstd None [ex_sadd ''a'']) [ex_srem ''b''])"
  by (rule reduce_incremental)
    (simp_all add: is_flat_chain_def hasVirtualEffects_def unmarked_def reduce_loop_def reduce_start_def
      reduce_step_def reduceFirst_def Let_def ex_defs)


text \<open>The reducer that updates an exclusively owned seed in place
  computes what the cloning reducer computes, on flat and on partitioned chains alike; the only
  thing the clone drops is the subscriber set, which a reconstruction never carries.\<close>

theorem reduce_owned_equals_cloning:
  assumes "no_subscribers (map_option re_flat seed)"
  shows "reduceChainOwned z seed es = ReduceChain z seed es"
  using assms by (intro reduceChainOwned_eq) auto

theorem reduce_owned_equals_cloning_witness:
  "no_subscribers (map_option re_flat (Some (flat_only empty_flat))) \<and>
   reduceChainOwned ex_no_zstd (Some (flat_only empty_flat)) [ex_incr 2] =
   ReduceChain ex_no_zstd (Some (flat_only empty_flat)) [ex_incr 2]"
  using reduce_owned_equals_cloning [of "Some (flat_only empty_flat)" ex_no_zstd "[ex_incr 2]"]
  by (simp add: flat_only_def empty_flat_def)


text \<open>A write into the partition \<open>/a\<close>.\<close>

definition ex_virtual :: effect where
  "ex_virtual = (ex_incr 7)\<lparr>eff_virtual := ''/a''\<rparr>"


text \<open>A root delete of a key with partitions makes everything before
  it irrelevant: the seed, all its partitions and the earlier effects.\<close>

theorem reduce_root_delete_wipes:
  assumes "isRootKeyDel d" and "\<not> is_flat_chain seed (xs @ d # ys)"
  shows "ReduceChain z seed (xs @ d # ys) = reducePartitioned z None (d # ys)"
  using assms by (simp add: ReduceChain_def reducePartitioned_wipe)

definition ex_del :: effect where
  "ex_del = ex_effect (ex_data\<lparr>de_op := REMOVE_OP\<rparr>)"

theorem reduce_root_delete_wipes_witness:
  "ReduceChain ex_no_zstd None ([ex_virtual] @ ex_del # [ex_incr 3]) =
   reducePartitioned ex_no_zstd None (ex_del # [ex_incr 3])"
  by (rule reduce_root_delete_wipes)
    (simp_all add: isRootKeyDel_def ex_del_def ex_virtual_def ex_defs getters is_flat_chain_def
      hasVirtualEffects_def)

text \<open>C2: a counter converges. Applying increments to a counter, or to a
  key with no state, adds exactly their sum to it, wrapping at 64 bits, and every order in which
  the same increments are delivered gives the same value.\<close>

theorem reduce_counter_converges:
  assumes "list_all (\<lambda>e. int_write ADDITIVE_INT (incr_amount e) e) es"
    and "\<forall>e \<in> set es. eff_virtual e = []" and "mset fs = mset es"
    and "is_counter seed" and "counter_value seed = Some c"
  shows "counter_value (ReduceChain z seed es) = Some (c + (\<Sum>e\<leftarrow>es. incr_amount e)) \<and>
         counter_value (ReduceChain z seed fs) = counter_value (ReduceChain z seed es)"
proof -
  have "set fs = set es" using assms(3) by (rule mset_eq_setD)
  then show ?thesis
    using counter_chain [OF assms(1,2,4,5)] counter_chain [of fs seed c z] assms
      sum_list_mset_cong [OF assms(3)]
    by (simp add: list_all_iff)
qed

theorem reduce_counter_converges_witness:
  "counter_value (ReduceChain ex_no_zstd None [ex_incr 5, ex_incr (- 7)]) = Some (- 2) \<and>
   counter_value (ReduceChain ex_no_zstd None [ex_incr (- 7), ex_incr 5]) =
   counter_value (ReduceChain ex_no_zstd None [ex_incr 5, ex_incr (- 7)])"
  using reduce_counter_converges [of "[ex_incr 5, ex_incr (- 7)]" "[ex_incr (- 7), ex_incr 5]" None 0 ex_no_zstd]
  by (simp add: int_write_def incr_amount_def is_counter_def counter_value_def ex_defs getters)



text \<open>Appends to the tail of a list come out in chain order, none lost and
  none duplicated.\<close>

theorem reduce_tail_appends:
  assumes "list_all tail_append es" and "es \<noteq> []" and "\<forall>e \<in> set es. eff_virtual e = []"
  shows "list_of (ReduceChain z None es) = map element_of es"
  using assms
  by (simp add: list_of_def ReduceChain_None flat_None reduceFlatOwned_def option.map_comp map_flat_id
      reduce_loop_def reduce_start_def tail_append_loop)
    (simp add: ordered_of_def)

definition ex_rpush :: "bytes \<Rightarrow> effect" where
  "ex_rpush x = ex_effect (ex_data\<lparr>de_collection := ORDERED, de_placement := PLACE_TAIL, de_id := x,
     de_value := Some (Raw x)\<rparr>)"

theorem reduce_tail_appends_witness:
  "list_of (ReduceChain ex_no_zstd None [ex_rpush ''1'', ex_rpush ''2'']) =
   map element_of [ex_rpush ''1'', ex_rpush ''2'']"
  by (rule reduce_tail_appends) (simp_all add: tail_append_def ex_rpush_def ex_defs getters)

text \<open>In a state reduced from effects that touch no list, no
  element is both added and removed.\<close>

theorem reduce_adds_removes_disjoint:
  assumes "list_all not_ordered es" and "es \<noteq> []" and "\<forall>e \<in> set es. eff_virtual e = []"
  shows "adds_removes_disjoint (map_option re_flat (ReduceChain z None es))"
  using assms reduce_foldl_disjoint [of "(None, False)" es z]
  by (simp add: ReduceChain_None flat_None reduceFlatOwned_def option.map_comp map_flat_id
      reduce_loop_def reduce_start_def adds_removes_disjoint_def [of None])

theorem reduce_adds_removes_disjoint_witness:
  "adds_removes_disjoint (map_option re_flat
     (ReduceChain ex_no_zstd None [ex_srem ''a'', ex_sadd ''a'', ex_srem ''b'']))"
  by (rule reduce_adds_removes_disjoint) (simp_all add: not_ordered_def ex_defs getters)

end
