(* ===== verification/Fork_Choice.thy ===== *)
theory Fork_Choice
  imports Proto
begin

text \<open>
  Fork choice (\<open>effects/fork_choice.go\<close>) and the frontier helpers (\<open>effects/slices.go\<close>): the hash
  that orders concurrent effects, the order itself, the conflict test between two transactional
  binds, and membership, conversion and normalisation of frontiers.

  SHA-256 is a parameter of the model. What the engine relies on is that it separates the 16-byte
  inputs it is given; that the inputs themselves separate (node, HLC) pairs is proved here.
\<close>

unbundle bit_operations_syntax

section \<open>The fork-choice hash\<close>

text \<open>\<open>binary.LittleEndian.PutUint64\<close>.\<close>

definition le64 :: "uint64 \<Rightarrow> bytes" where
  "le64 w = map (\<lambda>i. char_of (unat (take_bit 8 (drop_bit (8 * i) w)))) [0..<8]"

text \<open>\<open>hlc.AsTime().UnixNano()\<close>: a nil timestamp is the epoch, the arithmetic wraps.\<close>

definition unix_nano :: "timestamp option \<Rightarrow> uint64" where
  "unix_nano hlc = (case hlc of
      None \<Rightarrow> 0
    | Some ts \<Rightarrow> word_of_int (ts_seconds ts * 1000000000 + ts_nanos ts))"

definition fork_choice_input :: "uint64 \<Rightarrow> timestamp option \<Rightarrow> bytes" where
  "fork_choice_input nodeID hlc = le64 nodeID @ le64 (unix_nano hlc)"

definition ComputeForkChoiceHash :: "(bytes \<Rightarrow> bytes) \<Rightarrow> uint64 \<Rightarrow> timestamp option \<Rightarrow> bytes" where
  "ComputeForkChoiceHash sha256 nodeID hlc = sha256 (fork_choice_input nodeID hlc)"

definition ForkChoiceLess :: "bytes \<Rightarrow> bytes \<Rightarrow> bool" where
  "ForkChoiceLess a b \<longleftrightarrow> a < b"

section \<open>Frontiers\<close>

definition refsContain :: "tip list \<Rightarrow> tip \<Rightarrow> bool" where
  "refsContain refs t = list_ex (\<lambda>ref. ref = t) refs"

definition appendRefs :: "tip list \<Rightarrow> tip list \<Rightarrow> tip list" where
  "appendRefs tips refs = tips @ refs"

text \<open>\<open>slices.Compact\<close> keeps the first of each run of equal elements.\<close>

fun compact :: "'a list \<Rightarrow> 'a list" where
  "compact (x # y # xs) = (if x = y then compact (y # xs) else x # compact (y # xs))"
| "compact xs = xs"

definition compactTips :: "tip list \<Rightarrow> tip list" where
  "compactTips tips = compact (sort tips)"

section \<open>Conflicting binds\<close>

definition bindsShareBase :: "txn_bind \<Rightarrow> txn_bind \<Rightarrow> bool" where
  "bindsShareBase a b =
     list_ex (\<lambda>ak. list_ex (\<lambda>bk.
        kb_key ak = kb_key bk \<and>
        list_ex (\<lambda>ref. refsContain (kb_consumed_tips bk) ref) (kb_consumed_tips ak))
       (tb_keys b)) (tb_keys a)"

section \<open>Lemmas\<close>

lemma length_le64 [simp]: "length (le64 w) = 8"
  by (simp add: le64_def)

lemma le64_nth:
  "i < 8 \<Longrightarrow> of_char (le64 w ! i) = unat (take_bit 8 (drop_bit (8 * i) w))"
proof -
  assume "i < 8"
  moreover have "unat (take_bit 8 (drop_bit (8 * i) w)) < 256"
    unfolding unsigned_take_bit_eq using take_bit_nat_less_exp [of 8] by simp
  ultimately show ?thesis
    by (simp add: le64_def)
qed

lemma le64_inj: "le64 v = le64 w \<longleftrightarrow> v = w"
proof
  assume eq: "le64 v = le64 w"
  have byte: "take_bit 8 (drop_bit (8 * i) v) = take_bit 8 (drop_bit (8 * i) w)" if "i < 8" for i
    using le64_nth [OF that, of v] le64_nth [OF that, of w] eq by (simp add: word_eq_iff_unsigned [where ?'a = nat])
  show "v = w"
  proof (rule bit_word_eqI)
    fix n assume "n < LENGTH(64)"
    then have i: "n div 8 < 8" by simp
    have "bit u n = bit (take_bit 8 (drop_bit (8 * (n div 8)) u)) (n mod 8)" for u :: uint64
      by (simp add: bit_take_bit_iff bit_drop_bit_eq)
    then show "bit v n = bit w n"
      using byte [OF i] by simp
  qed
qed simp

text \<open>A timestamp the engine's clock produces: normalised nanoseconds, within the range of
  \<open>UnixNano\<close> (the years 1678 to 2262).\<close>

definition valid_timestamp :: "timestamp \<Rightarrow> bool" where
  "valid_timestamp ts \<longleftrightarrow>
     0 \<le> ts_nanos ts \<and> ts_nanos ts < 1000000000 \<and>
     in_int64 (ts_seconds ts * 1000000000 + ts_nanos ts)"

lemma unix_nano_inj:
  assumes "valid_timestamp a" and "valid_timestamp b" and "unix_nano (Some a) = unix_nano (Some b)"
  shows "a = b"
proof -
  let ?n = "\<lambda>ts :: timestamp. ts_seconds ts * 1000000000 + ts_nanos ts"
  have n_sint: "sint (word_of_int (?n ts) :: uint64) = ?n ts" if "valid_timestamp ts" for ts
    using that unfolding sint_word_of_int by (simp add: valid_timestamp_def)
  have "(word_of_int (?n a) :: uint64) = word_of_int (?n b)"
    using assms(3) by (simp only: unix_nano_def option.case)
  from arg_cong [OF this, of sint] have n: "?n a = ?n b"
    unfolding n_sint [OF assms(1)] n_sint [OF assms(2)] .
  have "?n ts div 1000000000 = ts_seconds ts" "?n ts mod 1000000000 = ts_nanos ts"
    if "valid_timestamp ts" for ts
    using that by (auto simp: valid_timestamp_def)
  from this [OF assms(1)] this [OF assms(2)] show ?thesis
    unfolding n by simp
qed

lemma fork_choice_input_inj:
  assumes "valid_timestamp a" and "valid_timestamp b"
  shows "fork_choice_input n (Some a) = fork_choice_input m (Some b) \<longleftrightarrow> n = m \<and> a = b"
  using assms unix_nano_inj by (auto simp: fork_choice_input_def le64_inj)

lemma refsContain_iff [simp]: "refsContain refs t \<longleftrightarrow> t \<in> set refs"
  by (auto simp: refsContain_def list_ex_iff)

lemma bindsShareBase_iff:
  "bindsShareBase a b \<longleftrightarrow>
     (\<exists>ak \<in> set (tb_keys a). \<exists>bk \<in> set (tb_keys b).
        kb_key ak = kb_key bk \<and> set (kb_consumed_tips ak) \<inter> set (kb_consumed_tips bk) \<noteq> {})"
  by (auto simp: bindsShareBase_def list_ex_iff)

lemma bindsShareBase_sym: "bindsShareBase a b = bindsShareBase b a"
  unfolding bindsShareBase_iff by (metis Int_commute)

lemma set_compact [simp]: "set (compact xs) = set xs"
  by (induction xs rule: compact.induct) auto

lemma sorted_compact: "sorted xs \<Longrightarrow> sorted_wrt (<) (compact (xs :: 'a :: linorder list))"
  by (induction xs rule: compact.induct) auto

lemma compactTips_sorted: "sorted_wrt (<) (compactTips tips)"
  by (simp add: compactTips_def sorted_compact)

lemma set_compactTips [simp]: "set (compactTips xs) = set xs"
  by (simp add: compactTips_def)

lemma compactTips_eq: "compactTips xs = compactTips ys \<longleftrightarrow> set xs = set ys"
proof
  assume "set xs = set ys"
  then show "compactTips xs = compactTips ys"
    by (intro strict_sorted_equal compactTips_sorted) simp
next
  assume "compactTips xs = compactTips ys"
  from arg_cong [OF this, of set] show "set xs = set ys" by simp
qed

section \<open>Properties\<close>

text \<open>Two effects with different origin or different time never tie in
  fork choice, so exactly one of them wins. It rests on the hash separating 16-byte inputs; the
  encoding of node and time into those 16 bytes loses nothing.\<close>

theorem fork_choice_separates:
  assumes "inj_on sha256 {b. length b = 16}" and "valid_timestamp a" and "valid_timestamp b"
    and "(n, a) \<noteq> (m, b)"
  shows "ForkChoiceLess (ComputeForkChoiceHash sha256 n (Some a)) (ComputeForkChoiceHash sha256 m (Some b)) \<noteq>
         ForkChoiceLess (ComputeForkChoiceHash sha256 m (Some b)) (ComputeForkChoiceHash sha256 n (Some a))"
proof -
  have "ComputeForkChoiceHash sha256 n (Some a) \<noteq> ComputeForkChoiceHash sha256 m (Some b)"
    using assms fork_choice_input_inj [OF assms(2,3), of n m]
    by (auto simp: ComputeForkChoiceHash_def fork_choice_input_def dest: inj_onD)
  then show ?thesis
    by (auto simp: ForkChoiceLess_def)
qed

theorem fork_choice_separates_witness:
  "ForkChoiceLess (ComputeForkChoiceHash id 1 (Some \<lparr>ts_seconds = 5, ts_nanos = 6\<rparr>))
       (ComputeForkChoiceHash id 2 (Some \<lparr>ts_seconds = 5, ts_nanos = 6\<rparr>)) \<noteq>
   ForkChoiceLess (ComputeForkChoiceHash id 2 (Some \<lparr>ts_seconds = 5, ts_nanos = 6\<rparr>))
       (ComputeForkChoiceHash id 1 (Some \<lparr>ts_seconds = 5, ts_nanos = 6\<rparr>))"
  by (rule fork_choice_separates) (simp_all add: valid_timestamp_def int64_defs)

end
