(* ===== verification/Dag.thy ===== *)
theory Dag
  imports Fork_Choice
begin

text \<open>
  The two-phase walk of the effect graph (\<open>effects/dag.go\<close>): breadth-first collection back to the
  last snapshot every path runs through, removal of what that snapshot already folds, and a
  depth-first post-order that visits concurrent branches in fork-choice order.

  The effect log is a finite map from addresses to effects; a missing address is the error
  \<open>getEffect\<close> returns. The visited maps and the frontier are sets of addresses. A stack is a list
  whose head is its top. \<open>slices.SortFunc\<close> is a stable sort by the fork-choice hash. The debug
  encoder \<open>encode\<close> is left out.
\<close>

type_synonym store = "(tip, effect) fmap"

section \<open>Dependencies\<close>

definition allDeps :: "effect \<Rightarrow> tip list" where
  "allDeps eff = eff_deps eff @ map (\<lambda>kb. EffectSeqFromRef (kb_new_tip kb)) (bind_keys (GetTxnBind eff))"

definition keyDeps :: "bytes \<Rightarrow> effect \<Rightarrow> tip list" where
  "keyDeps key eff =
     (case GetTxnBind eff of
        Some bind \<Rightarrow> (case find (\<lambda>kb. kb_key kb = key) (tb_keys bind) of
            Some kb \<Rightarrow> [EffectSeqFromRef (kb_new_tip kb)]
          | None \<Rightarrow> [])
      | None \<Rightarrow> eff_deps eff)"

text \<open>The getters of a nil effect return zero values.\<close>

definition nil_effect :: effect where
  "nil_effect = \<lparr>eff_key = [], eff_hlc = None, eff_node_id = 0, eff_deps = [], eff_txn_id = [],
     eff_fork_choice_hash = [], eff_virtual = [], eff_kind = None\<rparr>"

definition node_at :: "store \<Rightarrow> tip \<Rightarrow> effect" where
  "node_at nodes t = (case fmlookup nodes t of Some e \<Rightarrow> e | None \<Rightarrow> nil_effect)"

definition state_snapshot :: "effect \<Rightarrow> bool" where
  "state_snapshot eff = (case GetSnapshot eff of Some s \<Rightarrow> sn_state s \<noteq> None | None \<Rightarrow> False)"

definition standalone_subscription :: "effect \<Rightarrow> bool" where
  "standalone_subscription eff \<longleftrightarrow> GetSubscription eff \<noteq> None \<and> eff_deps eff = []"

record dag =
  dg_key :: bytes
  dg_activeTxnID :: string
  dg_nodes :: store
  dg_lcaTip :: tip
  dg_topoOrder :: "tip list"

definition newDag :: "bytes \<Rightarrow> string \<Rightarrow> dag" where
  "newDag key activeTxnID = \<lparr>dg_key = key, dg_activeTxnID = activeTxnID, dg_nodes = fmempty,
     dg_lcaTip = zero_tip, dg_topoOrder = []\<rparr>"

section \<open>Phase 1: breadth-first collection\<close>

record bfs_state =
  bs_nodes :: store
  bs_queue :: "tip list"
  bs_snapshots :: "tip list"
  bs_frontier :: "tip set"

definition bfs_enqueue :: "tip \<Rightarrow> effect \<Rightarrow> bfs_state \<Rightarrow> bfs_state" where
  "bfs_enqueue t eff s =
     (if state_snapshot eff then s\<lparr>bs_snapshots := bs_snapshots s @ [t]\<rparr>
      else s\<lparr>bs_queue := bs_queue s @ [t]\<rparr>)"

fun bfs_tips :: "store \<Rightarrow> tip list \<Rightarrow> bfs_state \<Rightarrow> tip + bfs_state" where
  "bfs_tips elog [] s = Inr s"
| "bfs_tips elog (t # ts) s =
     (if t |\<in>| fmdom (bs_nodes s) then bfs_tips elog ts s
      else case fmlookup elog t of
             None \<Rightarrow> Inl t
           | Some eff \<Rightarrow>
               bfs_tips elog ts (bfs_enqueue t eff (s\<lparr>bs_nodes := fmupd t eff (bs_nodes s),
                 bs_frontier := (if \<not> standalone_subscription eff then insert t (bs_frontier s)
                                 else bs_frontier s)\<rparr>)))"

fun bfs_deps :: "store \<Rightarrow> tip list \<Rightarrow> bfs_state \<Rightarrow> tip + bfs_state" where
  "bfs_deps elog [] s = Inr s"
| "bfs_deps elog (dt # dts) s =
     (case fmlookup (bs_nodes s) dt of
        Some dep \<Rightarrow>
          bfs_deps elog dts (if standalone_subscription dep
                            then s\<lparr>bs_frontier := insert dt (bs_frontier s)\<rparr> else s)
      | None \<Rightarrow> (case fmlookup elog dt of
            None \<Rightarrow> Inl dt
          | Some eff \<Rightarrow>
              bfs_deps elog dts (bfs_enqueue dt eff (s\<lparr>bs_nodes := fmupd dt eff (bs_nodes s),
                bs_frontier := insert dt (bs_frontier s)\<rparr>))))"

text \<open>The next address to expand: queued effects first, pending snapshots only when there are
  none.\<close>

definition bfs_pop :: "bfs_state \<Rightarrow> (tip \<times> bfs_state) option" where
  "bfs_pop s =
     (case bs_queue s of
        cur # q \<Rightarrow> Some (cur, s\<lparr>bs_queue := q\<rparr>)
      | [] \<Rightarrow> (case bs_snapshots s of
            cur # q \<Rightarrow> Some (cur, s\<lparr>bs_snapshots := q\<rparr>)
          | [] \<Rightarrow> None))"

text \<open>A root snapshot may have left the queue before a longer path reached it.\<close>

definition bfs_final :: "bfs_state \<Rightarrow> store \<times> tip" where
  "bfs_final s =
     (if card (bs_frontier s) = 1 \<and> state_snapshot (node_at (bs_nodes s) (the_elem (bs_frontier s)))
      then (bs_nodes s, the_elem (bs_frontier s)) else (bs_nodes s, zero_tip))"

definition bfs_measure :: "store \<Rightarrow> bfs_state \<Rightarrow> nat" where
  "bfs_measure elog s =
     2 * card (fset (fmdom elog) - fset (fmdom (bs_nodes s))) + length (bs_queue s) + length (bs_snapshots s)"

lemma bfs_enqueue_simps [simp]:
  "bs_nodes (bfs_enqueue t eff s) = bs_nodes s"
  "bs_frontier (bfs_enqueue t eff s) = bs_frontier s"
  "set (bs_queue (bfs_enqueue t eff s)) \<union> set (bs_snapshots (bfs_enqueue t eff s)) =
     insert t (set (bs_queue s) \<union> set (bs_snapshots s))"
  "length (bs_queue (bfs_enqueue t eff s)) + length (bs_snapshots (bfs_enqueue t eff s)) =
     Suc (length (bs_queue s) + length (bs_snapshots s))"
  by (auto simp: bfs_enqueue_def)

lemma bfs_measure_new:
  assumes "fmlookup elog t = Some eff" and "fmlookup (bs_nodes s) t = None"
  shows "bfs_measure elog (bfs_enqueue t eff (s\<lparr>bs_nodes := fmupd t eff (bs_nodes s), bs_frontier := F\<rparr>))
         < bfs_measure elog s"
proof -
  let ?rest = "fset (fmdom elog) - fset (fmdom (bs_nodes s))"
  have t: "t \<in> ?rest"
    using assms by (auto simp: fmlookup_dom_iff)
  have "fset (fmdom elog) - fset (fmdom (fmupd t eff (bs_nodes s))) = ?rest - {t}"
    by auto
  moreover have "card ?rest = Suc (card (?rest - {t}))"
    using t by (intro card.remove) auto
  ultimately show ?thesis
    unfolding bfs_measure_def by (simp add: add.assoc)
qed

lemma bfs_deps_measure:
  "bfs_deps elog dts s = Inr s' \<Longrightarrow> bfs_measure elog s' \<le> bfs_measure elog s"
proof (induction elog dts s rule: bfs_deps.induct)
  case (2 elog dt dts s)
  show ?case
  proof (cases "fmlookup (bs_nodes s) dt")
    case None
    then obtain eff where "fmlookup elog dt = Some eff"
      using "2.prems" by (auto split: option.splits)
    with None "2.IH"(1) [of eff] "2.prems" bfs_measure_new [OF this None, of "insert dt (bs_frontier s)"]
    show ?thesis by simp
  next
    case (Some dep)
    have "bfs_measure elog (s\<lparr>bs_frontier := F\<rparr>) = bfs_measure elog s" for F
      by (simp add: bfs_measure_def)
    with Some "2.IH"(2) [of dep] "2.prems" show ?thesis
      by (auto split: if_splits)
  qed
qed simp

function (sequential) bfs_loop :: "store \<Rightarrow> bytes \<Rightarrow> bfs_state \<Rightarrow> tip + (store \<times> tip)" where
  "bfs_loop elog key s =
     (case bfs_pop s of
        None \<Rightarrow> Inr (bfs_final s)
      | Some (cur, s1) \<Rightarrow>
          let eff = node_at (bs_nodes s1) cur in
          if state_snapshot eff \<and> card (bs_frontier s1) = 1 then Inr (bs_nodes s1, cur)
          else (case bfs_deps elog (keyDeps key eff)
                       (if keyDeps key eff = [] then s1
                        else s1\<lparr>bs_frontier := bs_frontier s1 - {cur}\<rparr>) of
                  Inl t \<Rightarrow> Inl t
                | Inr s2 \<Rightarrow> bfs_loop elog key s2))"
  by pat_completeness auto
termination
proof (relation "measure (\<lambda>(elog, key, s). bfs_measure elog s)", goal_cases)
  case (2 elog key s p cur s1 eff s2)
  have "bfs_measure elog s1 < bfs_measure elog s"
    using 2(1,2) by (auto simp: bfs_pop_def bfs_measure_def split: list.splits)
  moreover have "bfs_measure elog (s1\<lparr>bs_frontier := F\<rparr>) = bfs_measure elog s1" for F
    by (simp add: bfs_measure_def)
  ultimately show ?case
    using bfs_deps_measure [OF 2(5)] by (auto split: if_splits)
qed simp

definition bfs :: "store \<Rightarrow> bytes \<Rightarrow> tip list \<Rightarrow> tip + (store \<times> tip)" where
  "bfs elog key tips =
     (case bfs_tips elog tips \<lparr>bs_nodes = fmempty, bs_queue = [], bs_snapshots = [], bs_frontier = {}\<rparr> of
        Inl t \<Rightarrow> Inl t
      | Inr s \<Rightarrow> bfs_loop elog key s)"

section \<open>Phase 1.5: dropping what the snapshot folds\<close>

lemma card_fmdrop_less:
  assumes "fmlookup m k = Some v"
  shows "card (fset (fmdom (fmdrop k m))) < card (fset (fmdom m))"
proof -
  have "fset (fmdom (fmdrop k m)) = fset (fmdom m) - {k}" by auto
  moreover have "k \<in> fset (fmdom m)"
    using assms by (simp add: fmlookup_dom_iff)
  ultimately show ?thesis
    by (simp only: card_Diff1_less [OF finite_fset])
qed

function (sequential) trim_loop :: "bytes \<Rightarrow> store \<Rightarrow> tip list \<Rightarrow> store" where
  "trim_loop key nodes [] = nodes"
| "trim_loop key nodes (cur # stack) =
     (case fmlookup nodes cur of
        None \<Rightarrow> trim_loop key nodes stack
      | Some eff \<Rightarrow> trim_loop key (fmdrop cur nodes) (rev (keyDeps key eff) @ stack))"
  by pat_completeness auto
termination
proof (relation "measures [\<lambda>(key, nodes, stack). card (fset (fmdom nodes)), \<lambda>(key, nodes, stack). length stack]",
    goal_cases)
  case (3 key nodes cur stack eff)
  from card_fmdrop_less [OF this] show ?case
    by (simp only: in_measures) auto
qed auto

definition trimAncestorsOfLCA :: "dag \<Rightarrow> dag" where
  "trimAncestorsOfLCA d =
     (if dg_lcaTip d = zero_tip then d
      else case fmlookup (dg_nodes d) (dg_lcaTip d) of
             None \<Rightarrow> d
           | Some lcaEff \<Rightarrow>
               if GetSnapshot lcaEff = None then d
               else d\<lparr>dg_nodes := trim_loop (dg_key d) (dg_nodes d) (rev (eff_deps lcaEff))\<rparr>)"

section \<open>Phase 2: post-order\<close>

text \<open>\<open>topoCollect\<close> and the loops that call it on a sorted list; the state is the visited set and
  \<open>topoOrder\<close>.\<close>

definition by_fork_choice :: "store \<Rightarrow> tip list \<Rightarrow> tip list" where
  "by_fork_choice nodes ts =
     sort_key (\<lambda>t. eff_fork_choice_hash (node_at nodes t)) (filter (\<lambda>t. t |\<in>| fmdom nodes) ts)"

function (sequential, domintros) topoCollect :: "dag \<Rightarrow> tip \<Rightarrow> tip set \<times> tip list \<Rightarrow> tip set \<times> tip list"
  and topoCollects :: "dag \<Rightarrow> tip list \<Rightarrow> tip set \<times> tip list \<Rightarrow> tip set \<times> tip list" where
  "topoCollect d t (visited, topo) =
     (if t \<in> visited then (visited, topo)
      else case fmlookup (dg_nodes d) t of
             None \<Rightarrow> (insert t visited, topo)
           | Some eff \<Rightarrow>
               if GetSnapshot eff \<noteq> None \<and> t = dg_lcaTip d then (insert t visited, topo @ [t])
               else if GetTxnBind eff = None \<and> length (eff_deps eff) = 1 then
                 (case topoCollect d (hd (eff_deps eff)) (insert t visited, topo) of
                    (v, w) \<Rightarrow> (v, w @ [t]))
               else
                 (case topoCollects d (by_fork_choice (dg_nodes d) (keyDeps (dg_key d) eff))
                         (insert t visited, topo) of
                    (v, w) \<Rightarrow> (v, w @ [t])))"
| "topoCollects d [] st = st"
| "topoCollects d (t # ts) st = topoCollects d ts (topoCollect d t st)"
  by pat_completeness auto

lemma topoCollect_visited_mono:
  "topoCollect_topoCollects_dom (Inl (d, t, st)) \<Longrightarrow> fst st \<subseteq> fst (topoCollect d t st)"
  "topoCollect_topoCollects_dom (Inr (d, ts, st)) \<Longrightarrow> fst st \<subseteq> fst (topoCollects d ts st)"
proof (induction d t st and d ts st rule: topoCollect_topoCollects.pinduct)
  case (1 d t visited topo)
  then show ?case
    by (fastforce simp: topoCollect.psimps split: option.split prod.split)
next
  case (2 d st)
  then show ?case by (simp add: topoCollects.psimps)
next
  case (3 d t ts st)
  then show ?case by (force simp: topoCollects.psimps)
qed

termination topoCollect
proof -
  let ?R = "inv_image (less_than <*lex*> less_than)
    (\<lambda>x. case x of Inl (d, t, st) \<Rightarrow> (card (fset (fmdom (dg_nodes d)) - fst st), 0)
                 | Inr (d, ts, st) \<Rightarrow> (card (fset (fmdom (dg_nodes d)) - fst st), length ts))"
  have less: "card (fset (fmdom nodes) - insert t v) < card (fset (fmdom nodes) - v)"
    if "fmlookup nodes t = Some eff" "t \<notin> v" for nodes :: store and t v eff
  proof -
    have "t \<in> fset (fmdom nodes) - v"
      using that by (simp add: fmlookup_dom_iff)
    moreover have "fset (fmdom nodes) - insert t v = fset (fmdom nodes) - v - {t}" by blast
    ultimately show ?thesis
      by (simp only: card_Diff1_less finite_Diff finite_fset)
  qed
  have le: "card (fset (fmdom nodes) - v') \<le> card (fset (fmdom nodes) - v)" if "v \<subseteq> v'"
    for nodes :: store and v v'
    using that by (intro card_mono) auto
  show ?thesis
  proof (relation ?R, goal_cases)
    case 1
    show ?case by (intro wf_inv_image wf_lex_prod wf_less_than)
  next
    case (2 d t visited topo eff)
    then show ?case using less [of "dg_nodes d" t eff visited] by simp
  next
    case (3 d t visited topo eff)
    then show ?case using less [of "dg_nodes d" t eff visited] by simp
  next
    case (4 d t ts st)
    show ?case by simp
  next
    case (5 d t ts st)
    then show ?case
      using le [OF topoCollect_visited_mono(1) [OF 5], of "dg_nodes d"] by (simp add: le_eq_less_or_eq)
  qed
qed

section \<open>The walk\<close>

definition prepare :: "store \<Rightarrow> dag \<Rightarrow> tip list \<Rightarrow> tip + dag" where
  "prepare elog d tips =
     (case bfs elog (dg_key d) tips of
        Inl t \<Rightarrow> Inl t
      | Inr (nodes, lca) \<Rightarrow>
          let d1 = d\<lparr>dg_nodes := nodes, dg_lcaTip := lca, dg_topoOrder := []\<rparr> in
          if fm_is_empty nodes then Inr d1
          else let d2 = trimAncestorsOfLCA d1;
                   sortedTips = by_fork_choice (dg_nodes d2) tips
               in Inr (d2\<lparr>dg_topoOrder := snd (topoCollects d2 sortedTips ({}, []))\<rparr>))"

definition shouldEmit :: "dag \<Rightarrow> tip \<Rightarrow> effect \<Rightarrow> bool" where
  "shouldEmit d t eff =
     (if GetSnapshot eff \<noteq> None then t = dg_lcaTip d
      else if eff_txn_id eff \<noteq> [] \<and> GetTxnBind eff = None \<and> eff_txn_id eff \<noteq> dg_activeTxnID d then False
      else True)"

text \<open>The processor is a state transformer that may fail.\<close>

fun iterate_loop ::
  "dag \<Rightarrow> (tip \<Rightarrow> effect \<Rightarrow> 's \<Rightarrow> 'e + 's) \<Rightarrow> tip list \<Rightarrow> 's \<Rightarrow> 'e + 's" where
  "iterate_loop d processor [] s = Inr s"
| "iterate_loop d processor (t # ts) s =
     (let eff = node_at (dg_nodes d) t in
      if shouldEmit d t eff
      then (case processor t eff s of Inl err \<Rightarrow> Inl err | Inr s' \<Rightarrow> iterate_loop d processor ts s')
      else iterate_loop d processor ts s)"

definition iterate :: "dag \<Rightarrow> (tip \<Rightarrow> effect \<Rightarrow> 's \<Rightarrow> 'e + 's) \<Rightarrow> 's \<Rightarrow> 'e + 's" where
  "iterate d processor s = iterate_loop d processor (dg_topoOrder d) s"

datatype 'e walk_error = FetchFailed tip | ProcessorFailed 'e

definition walk ::
  "store \<Rightarrow> dag \<Rightarrow> tip list \<Rightarrow> (effect \<Rightarrow> 's \<Rightarrow> 'e + 's) \<Rightarrow> 's \<Rightarrow> 'e walk_error + 's" where
  "walk elog d tips processor s =
     (case prepare elog d tips of
        Inl t \<Rightarrow> Inl (FetchFailed t)
      | Inr d' \<Rightarrow> (case iterate d' (\<lambda>_ eff. processor eff) s of
            Inl err \<Rightarrow> Inl (ProcessorFailed err)
          | Inr s' \<Rightarrow> Inr s'))"

end
