(* ===== verification/Dag_Collect.thy ===== *)
theory Dag_Collect
  imports Dag
begin

text \<open>
  What the breadth-first phase collects. The dependency frontier of \<open>bfs\<close> is characterised by an
  invariant of its loop: an address is off the frontier only once it has been expanded into
  dependencies (or is a subscription nothing refers to). From it follows that a walk stopped at a
  snapshot has lost nothing and replays nothing twice.
\<close>

section \<open>The dependency graph of a key\<close>

definition edges :: "store \<Rightarrow> bytes \<Rightarrow> tip rel" where
  "edges elog key = {(t, u). \<exists>e. fmlookup elog t = Some e \<and> u \<in> set (keyDeps key e)}"

definition ancestry :: "store \<Rightarrow> bytes \<Rightarrow> tip list \<Rightarrow> tip set" where
  "ancestry elog key tips = (edges elog key)\<^sup>* `` set tips"

lemma edges_node_at:
  "fmlookup elog t \<noteq> None \<Longrightarrow> (t, u) \<in> edges elog key \<longleftrightarrow> u \<in> set (keyDeps key (node_at elog t))"
  by (auto simp: edges_def node_at_def split: option.split)

lemma edges_in_log: "(t, u) \<in> edges elog key \<Longrightarrow> fmlookup elog t \<noteq> None"
  by (auto simp: edges_def)

lemma ancestry_step:
  "t \<in> ancestry elog key tips \<Longrightarrow> (t, u) \<in> edges elog key \<Longrightarrow> u \<in> ancestry elog key tips"
  by (auto simp: ancestry_def intro: rtrancl_into_rtrancl)

section \<open>The loop over dependencies\<close>

abbreviation seen :: "bfs_state \<Rightarrow> tip set" where
  "seen s \<equiv> fset (fmdom (bs_nodes s))"

definition pending :: "bfs_state \<Rightarrow> tip list" where
  "pending s = bs_queue s @ bs_snapshots s"

definition from_log :: "store \<Rightarrow> store \<Rightarrow> bool" where
  "from_log elog nodes \<longleftrightarrow> (\<forall>t e. fmlookup nodes t = Some e \<longrightarrow> fmlookup elog t = Some e)"

lemma pending_enqueue [simp]:
  "set (pending (bfs_enqueue t eff s)) = insert t (set (pending s))"
  "distinct (pending (bfs_enqueue t eff s)) \<longleftrightarrow> t \<notin> set (pending s) \<and> distinct (pending s)"
  by (auto simp: bfs_enqueue_def pending_def)

lemma pending_update [simp]:
  "pending (s\<lparr>bs_nodes := n\<rparr>) = pending s" "pending (s\<lparr>bs_frontier := f\<rparr>) = pending s"
  by (simp_all add: pending_def)

lemma from_logD: "from_log elog nodes \<Longrightarrow> fmlookup nodes t = Some e \<Longrightarrow> fmlookup elog t = Some e"
  by (simp add: from_log_def)

lemma from_log_node_at: "from_log elog nodes \<Longrightarrow> t |\<in>| fmdom nodes \<Longrightarrow> node_at nodes t = node_at elog t"
  by (auto simp: node_at_def fmlookup_dom_iff dest: from_logD)

lemma from_log_fmupd: "from_log elog nodes \<Longrightarrow> fmlookup elog t = Some e \<Longrightarrow> from_log elog (fmupd t e nodes)"
  by (simp add: from_log_def)

lemma bfs_deps_spec:
  assumes "bfs_deps elog dts s = Inr s'" and "from_log elog (bs_nodes s)"
    and "set (pending s) \<subseteq> seen s" and "distinct (pending s)"
  shows "from_log elog (bs_nodes s') \<and> seen s' = seen s \<union> set dts \<and>
     set (pending s') = set (pending s) \<union> (set dts - seen s) \<and> distinct (pending s') \<and>
     bs_frontier s' = bs_frontier s \<union>
       {u \<in> set dts. u \<notin> seen s \<or> standalone_subscription (node_at elog u)}"
  using assms
proof (induction elog dts s rule: bfs_deps.induct)
  case (2 elog dt dts s)
  show ?case
  proof (cases "fmlookup (bs_nodes s) dt")
    case None
    then obtain eff where eff: "fmlookup elog dt = Some eff"
      using "2.prems"(1) by (auto split: option.splits)
    have new: "dt \<notin> seen s" "dt \<notin> set (pending s)" "set (pending s) \<subseteq> insert dt (seen s)"
      using None "2.prems"(3) by (auto simp: fmlookup_dom_iff)
    show ?thesis
      using "2.IH"(1) [OF None eff] "2.prems" None eff new
      by (auto simp: from_log_fmupd)
  next
    case (Some dep)
    have at: "dt \<in> seen s" "node_at elog dt = dep"
      using Some "2.prems"(2) by (auto simp: fmlookup_dom_iff from_log_def node_at_def)
    show ?thesis
      using "2.IH"(2) [OF Some] "2.prems" Some at by (auto split: if_splits)
  qed
qed simp

lemma bfs_tips_spec:
  assumes "bfs_tips elog ts s = Inr s'" and "from_log elog (bs_nodes s)"
    and "set (pending s) = seen s" and "distinct (pending s)"
    and "\<forall>t \<in> seen s. t \<in> bs_frontier s \<or> standalone_subscription (node_at elog t)"
    and "bs_frontier s \<subseteq> seen s"
  shows "from_log elog (bs_nodes s') \<and> seen s' = seen s \<union> set ts \<and>
     set (pending s') = seen s' \<and> distinct (pending s') \<and> bs_frontier s' \<subseteq> seen s' \<and>
     (\<forall>t \<in> seen s'. t \<in> bs_frontier s' \<or> standalone_subscription (node_at elog t))"
  using assms
proof (induction elog ts s rule: bfs_tips.induct)
  case (2 elog t ts s)
  show ?case
  proof (cases "t |\<in>| fmdom (bs_nodes s)")
    case False
    then obtain eff where eff: "fmlookup elog t = Some eff"
      using "2.prems"(1) by (auto split: option.splits)
    then have at: "node_at elog t = eff" by (simp add: node_at_def)
    show ?thesis
      using "2.IH"(2) [OF False eff] "2.prems" False eff at
      by (auto simp: from_log_fmupd split: if_splits)
  qed (use 2 in auto)
qed simp

lemma bfs_deps_error:
  "bfs_deps elog dts s = Inl t \<Longrightarrow> t \<in> set dts \<and> fmlookup elog t = None"
  by (induction elog dts s rule: bfs_deps.induct) (auto split: option.splits if_splits)

lemma bfs_tips_error:
  "bfs_tips elog ts s = Inl t \<Longrightarrow> t \<in> set ts \<and> fmlookup elog t = None"
  by (induction elog ts s rule: bfs_tips.induct) (auto split: option.splits if_splits)

section \<open>The loop invariant\<close>

text \<open>A subscription tip that no expanded effect refers to: it has no ancestry and stays off the
  frontier.\<close>

definition loose :: "store \<Rightarrow> bytes \<Rightarrow> tip list \<Rightarrow> tip set \<Rightarrow> tip \<Rightarrow> bool" where
  "loose elog key tips expanded t \<longleftrightarrow>
     standalone_subscription (node_at elog t) \<and> t \<in> set tips \<and>
     (\<forall>m \<in> expanded. t \<notin> set (keyDeps key (node_at elog m)))"

definition expanded :: "bfs_state \<Rightarrow> tip set" where
  "expanded s = seen s - set (pending s)"

definition bfs_inv :: "store \<Rightarrow> bytes \<Rightarrow> tip list \<Rightarrow> bfs_state \<Rightarrow> bool" where
  "bfs_inv elog key tips s \<longleftrightarrow>
     from_log elog (bs_nodes s) \<and> set tips \<subseteq> seen s \<and> seen s \<subseteq> ancestry elog key tips \<and>
     set (pending s) \<subseteq> seen s \<and> distinct (pending s) \<and> bs_frontier s \<subseteq> seen s \<and>
     (\<forall>t \<in> expanded s. set (keyDeps key (node_at elog t)) \<subseteq> seen s) \<and>
     (\<forall>t \<in> seen s. t \<in> bs_frontier s \<or> t \<in> expanded s \<and> keyDeps key (node_at elog t) \<noteq> [] \<or>
        loose elog key tips (expanded s) t)"

lemma bfs_pop_Some:
  assumes "bfs_pop s = Some (cur, s1)"
  shows "bs_nodes s1 = bs_nodes s \<and> bs_frontier s1 = bs_frontier s \<and>
    mset (pending s) = add_mset cur (mset (pending s1))"
  using assms by (auto simp: bfs_pop_def pending_def split: list.splits)

lemma bfs_pop_None: "bfs_pop s = None \<longleftrightarrow> pending s = []"
  by (auto simp: bfs_pop_def pending_def split: list.splits)

lemma distinct_pop:
  assumes "mset xs = add_mset x (mset ys)" and "distinct xs"
  shows "set xs = insert x (set ys)" "x \<notin> set ys" "distinct ys"
proof -
  have "mset xs = mset (x # ys)" using assms(1) by simp
  then show "set xs = insert x (set ys)" "x \<notin> set ys" "distinct ys"
    using assms(2) mset_eq_setD [of xs "x # ys"] mset_eq_imp_distinct_iff [of xs "x # ys"] by auto
qed

lemma bfs_inv_step:
  assumes inv: "bfs_inv elog key tips s" and pop: "bfs_pop s = Some (cur, s1)"
    and deps: "dts = keyDeps key (node_at elog cur)"
    and step: "bfs_deps elog dts
      (if dts = [] then s1 else s1\<lparr>bs_frontier := bs_frontier s1 - {cur}\<rparr>) = Inr s2"
  shows "bfs_inv elog key tips s2"
proof -
  define s1' where "s1' = (if dts = [] then s1 else s1\<lparr>bs_frontier := bs_frontier s1 - {cur}\<rparr>)"
  have s1': "bs_nodes s1' = bs_nodes s" "pending s1' = pending s1"
    "bs_frontier s1' = (if dts = [] then bs_frontier s else bs_frontier s - {cur})"
    using bfs_pop_Some [OF pop] by (simp_all add: s1'_def)
  have "mset (pending s) = add_mset cur (mset (pending s1))" "distinct (pending s)"
    using bfs_pop_Some [OF pop] inv by (simp_all add: bfs_inv_def)
  note pend = distinct_pop [OF this]
  have log: "from_log elog (bs_nodes s1')" "set (pending s1') \<subseteq> seen s1'" "distinct (pending s1')"
    using inv pend by (auto simp: bfs_inv_def s1')
  note spec = bfs_deps_spec [OF step [folded s1'_def] log]
  have cur: "cur \<in> seen s" and cur_in_log: "fmlookup elog cur \<noteq> None"
    using inv pend(1) by (auto simp: bfs_inv_def fmlookup_dom_iff from_log_def)
  have anc: "set dts \<subseteq> ancestry elog key tips"
    using inv cur deps edges_node_at [OF cur_in_log] ancestry_step
    by (auto simp: bfs_inv_def)
  have exp: "expanded s2 = insert cur (expanded s)"
    using spec pend cur inv by (auto simp: expanded_def s1' bfs_inv_def)
  have loose2: "loose elog key tips (expanded s2) t" if "loose elog key tips (expanded s) t" "t \<notin> set dts" for t
    using that by (auto simp: loose_def exp deps)
  have seen2: "seen s2 = seen s \<union> set dts"
    using spec by (simp add: s1')
  have front: "t \<in> bs_frontier s2 \<or> t \<in> expanded s2 \<and> keyDeps key (node_at elog t) \<noteq> [] \<or>
      loose elog key tips (expanded s2) t" if "t \<in> seen s2" for t
  proof (cases "t = cur \<and> dts \<noteq> []")
    case True
    then show ?thesis using exp deps by auto
  next
    case False
    show ?thesis
    proof (cases "t \<in> seen s")
      case True
      then have "t \<in> bs_frontier s \<or> t \<in> expanded s \<and> keyDeps key (node_at elog t) \<noteq> [] \<or>
          loose elog key tips (expanded s) t"
        using inv by (simp add: bfs_inv_def)
      then show ?thesis
        using False spec exp loose2 [of t] by (auto simp: s1' loose_def)
    qed (use that spec in \<open>auto simp: s1'\<close>)
  qed
  have "bs_frontier s2 \<subseteq> seen s2"
    using spec inv by (auto simp: s1' bfs_inv_def)
  moreover have "set (keyDeps key (node_at elog t)) \<subseteq> seen s2" if "t \<in> expanded s2" for t
    using that inv by (auto simp: exp deps seen2 bfs_inv_def)
  moreover have "set (pending s2) \<subseteq> seen s2" "distinct (pending s2)" "from_log elog (bs_nodes s2)"
    using spec inv pend by (auto simp: s1' bfs_inv_def)
  ultimately show ?thesis
    using front inv anc unfolding bfs_inv_def seen2 by blast
qed

section \<open>The result\<close>

text \<open>The walk stopped at the snapshot \<open>c\<close>: everything else it saw has been expanded.\<close>

definition stops_at :: "store \<Rightarrow> bytes \<Rightarrow> tip list \<Rightarrow> tip set \<Rightarrow> tip \<Rightarrow> bool" where
  "stops_at elog key tips ns c \<longleftrightarrow>
     c \<in> ns \<and> state_snapshot (node_at elog c) \<and>
     (\<forall>t \<in> ns - {c}. set (keyDeps key (node_at elog t)) \<subseteq> ns \<and>
        (keyDeps key (node_at elog t) \<noteq> [] \<or> loose elog key tips (ns - {c}) t))"

definition bfs_result :: "store \<Rightarrow> bytes \<Rightarrow> tip list \<Rightarrow> store \<Rightarrow> tip \<Rightarrow> bool" where
  "bfs_result elog key tips nodes c \<longleftrightarrow>
     from_log elog nodes \<and> set tips \<subseteq> fset (fmdom nodes) \<and> fset (fmdom nodes) \<subseteq> ancestry elog key tips \<and>
     (stops_at elog key tips (fset (fmdom nodes)) c \<or>
      c = zero_tip \<and> (\<forall>t \<in> fset (fmdom nodes). set (keyDeps key (node_at elog t)) \<subseteq> fset (fmdom nodes)))"

lemma standalone_no_deps: "standalone_subscription e \<Longrightarrow> keyDeps key e = []"
  by (auto simp: standalone_subscription_def keyDeps_def getters split: option.splits effect_kind.splits)

lemma snapshot_not_loose: "state_snapshot (node_at elog c) \<Longrightarrow> \<not> loose elog key tips E c"
  by (auto simp: loose_def state_snapshot_def standalone_subscription_def getters
      split: option.splits effect_kind.splits)

lemma bfs_inv_stops:
  assumes inv: "bfs_inv elog key tips s" and front: "bs_frontier s = {c}"
    and snap: "state_snapshot (node_at elog c)"
  shows "stops_at elog key tips (seen s) c"
proof -
  have at: "t \<in> expanded s \<and> keyDeps key (node_at elog t) \<noteq> [] \<or> loose elog key tips (expanded s) t"
    if "t \<in> seen s - {c}" for t
    using inv that front by (auto simp: bfs_inv_def)
  have "loose elog key tips (seen s - {c}) t" if "loose elog key tips (expanded s) t" for t
    using that at standalone_no_deps by (fastforce simp: loose_def)
  moreover have "set (keyDeps key (node_at elog t)) \<subseteq> seen s" if "t \<in> seen s - {c}" for t
    using at [OF that] inv standalone_no_deps [of "node_at elog t" key] by (auto simp: bfs_inv_def loose_def)
  moreover have "c \<in> seen s"
    using inv front by (auto simp: bfs_inv_def)
  ultimately show ?thesis
    using at snap unfolding stops_at_def by blast
qed

lemma bfs_inv_result:
  assumes "bfs_inv elog key tips s" and "bfs_loop elog key s = Inr (nodes, c)"
  shows "bfs_result elog key tips nodes c"
  using assms
proof (induction elog key s rule: bfs_loop.induct)
  case (1 elog key s)
  note inv = "1.prems"(1)
  have log: "from_log elog (bs_nodes s)" and sub: "set tips \<subseteq> seen s" "seen s \<subseteq> ancestry elog key tips"
    using inv by (auto simp: bfs_inv_def)
  have result: "bfs_result elog key tips (bs_nodes s) c" if "stops_at elog key tips (seen s) c"
    using that log sub by (simp add: bfs_result_def)
  show ?case
  proof (cases "bfs_pop s")
    case None
    then have closed: "\<forall>t \<in> seen s. set (keyDeps key (node_at elog t)) \<subseteq> seen s"
      using inv by (auto simp: bfs_inv_def bfs_pop_None expanded_def)
    have final: "bfs_final s = (nodes, c)"
      using "1.prems"(2) None by simp
    show ?thesis
    proof (cases "card (bs_frontier s) = 1 \<and> state_snapshot (node_at (bs_nodes s) (the_elem (bs_frontier s)))")
      case True
      then obtain x where "bs_frontier s = {x}"
        by (elim conjE card_1_singletonE)
      then have "bs_frontier s = {c}" "nodes = bs_nodes s" "state_snapshot (node_at (bs_nodes s) c)"
        using final True by (auto simp: bfs_final_def)
      moreover from this have "state_snapshot (node_at elog c)"
        using inv from_log_node_at [OF log] by (auto simp: bfs_inv_def)
      ultimately show ?thesis
        using result bfs_inv_stops [OF inv] by simp
    next
      case False
      then show ?thesis
        using final closed log sub unfolding bfs_final_def if_not_P [OF False]
        by (simp add: bfs_result_def)
    qed
  next
    case (Some p)
    obtain cur s1 where p: "p = (cur, s1)" by (cases p)
    note pop = bfs_pop_Some [OF Some [unfolded p]]
    have "cur \<in># mset (pending s)" using pop by simp
    then have cur: "cur \<in> seen s" "cur \<in> set (pending s)"
      using inv by (auto simp: bfs_inv_def)
    have eff: "node_at (bs_nodes s1) cur = node_at elog cur" "node_at (bs_nodes s) cur = node_at elog cur"
      using pop from_log_node_at [OF log, of cur] cur by simp_all
    show ?thesis
    proof (cases "state_snapshot (node_at elog cur) \<and> card (bs_frontier s1) = 1")
      case True
      then have "cur \<in> bs_frontier s"
        using inv cur snapshot_not_loose [of elog cur] by (auto simp: bfs_inv_def expanded_def)
      moreover have "card (bs_frontier s) = 1" using True pop by simp
      ultimately have "bs_frontier s = {cur}"
        by (elim card_1_singletonE) simp
      then show ?thesis
        using True result bfs_inv_stops [OF inv] "1.prems"(2) Some pop by (simp add: p eff Let_def)
    next
      case False
      then show ?thesis
        using "1.prems"(2) Some "1.IH" [OF Some p [symmetric] refl] bfs_inv_step [OF inv Some [unfolded p] refl]
        unfolding bfs_loop.simps [of elog key s]
        by (auto simp: p eff Let_def split: sum.splits)
    qed
  qed
qed

lemma bfs_inv_error:
  assumes "bfs_inv elog key tips s" and "bfs_loop elog key s = Inl t"
  shows "t \<in> ancestry elog key tips \<and> fmlookup elog t = None"
  using assms
proof (induction elog key s rule: bfs_loop.induct)
  case (1 elog key s)
  note inv = "1.prems"(1)
  obtain cur s1 where pop: "bfs_pop s = Some (cur, s1)"
    using "1.prems"(2) by (auto split: option.splits)
  have "cur \<in># mset (pending s)" using bfs_pop_Some [OF pop] by simp
  then have cur: "cur |\<in>| fmdom (bs_nodes s)" using inv by (auto simp: bfs_inv_def)
  have eff: "node_at (bs_nodes s1) cur = node_at elog cur"
    using bfs_pop_Some [OF pop] from_log_node_at [OF _ cur] inv by (simp add: bfs_inv_def)
  define s1' where "s1' = (if keyDeps key (node_at elog cur) = [] then s1
    else s1\<lparr>bs_frontier := bs_frontier s1 - {cur}\<rparr>)"
  have stop: "\<not> (state_snapshot (node_at elog cur) \<and> card (bs_frontier s1) = 1)"
    using "1.prems"(2) pop eff by (auto simp: Let_def)
  have loop: "bfs_loop elog key s = (case bfs_deps elog (keyDeps key (node_at elog cur)) s1' of
      Inl t \<Rightarrow> Inl t | Inr s2 \<Rightarrow> bfs_loop elog key s2)"
    unfolding bfs_loop.simps [of elog key s] pop option.case prod.case Let_def eff if_not_P [OF stop]
      s1'_def by (rule refl)
  show ?case
  proof (cases "bfs_deps elog (keyDeps key (node_at elog cur)) s1'")
    case (Inl u)
    have "fmlookup elog cur \<noteq> None"
      using cur inv by (auto simp: bfs_inv_def fmlookup_dom_iff from_log_def)
    moreover have "cur \<in> ancestry elog key tips"
      using cur inv by (auto simp: bfs_inv_def)
    moreover have "u = t"
      using "1.prems"(2) Inl by (simp add: loop del: bfs_loop.simps)
    ultimately show ?thesis
      using bfs_deps_error [OF Inl] ancestry_step edges_node_at by blast
  next
    case (Inr s2)
    then have "bfs_loop elog key s2 = Inl t"
      using "1.prems"(2) by (simp add: loop del: bfs_loop.simps)
    moreover have "bfs_inv elog key tips s2"
      using bfs_inv_step [OF inv pop refl] Inr by (simp add: s1'_def)
    ultimately show ?thesis
      using "1.IH" [OF pop refl refl] stop Inr by (simp add: eff s1'_def)
  qed
qed

lemma bfs_init:
  assumes "bfs_tips elog tips \<lparr>bs_nodes = fmempty, bs_queue = [], bs_snapshots = [], bs_frontier = {}\<rparr> = Inr s"
  shows "bfs_inv elog key tips s"
proof -
  have "from_log elog (bs_nodes s) \<and> seen s = set tips \<and> set (pending s) = seen s \<and>
      distinct (pending s) \<and> bs_frontier s \<subseteq> seen s \<and>
      (\<forall>t \<in> seen s. t \<in> bs_frontier s \<or> standalone_subscription (node_at elog t))"
    using bfs_tips_spec [OF assms] by (auto simp: pending_def from_log_def)
  then show ?thesis
    by (auto simp: bfs_inv_def expanded_def loose_def ancestry_def)
qed

lemma bfs_Inr: "bfs elog key tips = Inr (nodes, c) \<Longrightarrow> bfs_result elog key tips nodes c"
  by (auto simp: bfs_def simp del: bfs_loop.simps split: sum.splits intro: bfs_inv_result [OF bfs_init])

lemma bfs_Inl: "bfs elog key tips = Inl t \<Longrightarrow> t \<in> ancestry elog key tips \<and> fmlookup elog t = None"
  by (auto simp: bfs_def ancestry_def simp del: bfs_loop.simps split: sum.splits
      dest: bfs_inv_error [OF bfs_init] bfs_tips_error)

section \<open>A walk that stopped at a snapshot\<close>

lemma finite_edges: "finite (edges elog key)"
proof (rule finite_subset)
  show "edges elog key \<subseteq> (SIGMA t : fset (fmdom elog). set (keyDeps key (node_at elog t)))"
    by (auto simp: edges_def node_at_def fmlookup_dom_iff)
qed simp

lemma stops_reaches:
  assumes acyc: "acyclic (edges elog key)" and stops: "stops_at elog key tips ns c"
    and in_log: "\<forall>t \<in> ns. fmlookup elog t \<noteq> None"
  shows "t \<in> ns \<Longrightarrow> \<not> loose elog key tips (ns - {c}) t \<Longrightarrow> (t, c) \<in> (edges elog key)\<^sup>*"
proof (induction t rule: wf_induct_rule [OF finite_acyclic_wf_converse [OF finite_edges acyc]])
  case (1 t)
  show ?case
  proof (cases "t = c")
    case False
    then have "keyDeps key (node_at elog t) \<noteq> []" "set (keyDeps key (node_at elog t)) \<subseteq> ns"
      using stops "1.prems" by (auto simp: stops_at_def)
    then obtain u where u: "u \<in> set (keyDeps key (node_at elog t))" "u \<in> ns"
      by (meson hd_in_set subsetD)
    have "\<not> loose elog key tips (ns - {c}) u"
      using u(1) False "1.prems"(1) by (auto simp: loose_def)
    moreover have edge: "(t, u) \<in> edges elog key"
      using u(1) in_log "1.prems"(1) edges_node_at by blast
    ultimately show ?thesis
      using "1.IH" [of u] u(2) by (auto intro: converse_rtrancl_into_rtrancl)
  qed simp
qed

lemma stops_closed:
  assumes stops: "stops_at elog key tips ns c" and in_log: "\<forall>t \<in> ns. fmlookup elog t \<noteq> None"
    and "t \<in> ns" and "(t, u) \<in> (edges elog key)\<^sup>*"
  shows "u \<in> ns \<or> (c, u) \<in> (edges elog key)\<^sup>+"
  using assms(4)
proof (induction rule: rtrancl_induct)
  case (step y z)
  show ?case
  proof (cases "y \<in> ns")
    case True
    then have "z \<in> set (keyDeps key (node_at elog y))"
      using step.hyps(2) in_log edges_node_at by blast
    then show ?thesis
      using True stops step.hyps(2) by (cases "y = c") (auto simp: stops_at_def)
  next
    case False
    then show ?thesis
      using step by (auto intro: trancl_into_trancl)
  qed
qed (use assms in simp)

lemma stops_exact:
  assumes acyc: "acyclic (edges elog key)" and stops: "stops_at elog key tips ns c"
    and in_log: "\<forall>t \<in> ns. fmlookup elog t \<noteq> None"
    and "set tips \<subseteq> ns" and "ns \<subseteq> ancestry elog key tips"
    and "\<not> standalone_subscription (node_at elog t)"
  shows "t \<in> ns \<longleftrightarrow> t \<in> ancestry elog key tips \<and> (t, c) \<in> (edges elog key)\<^sup>*"
proof
  assume "t \<in> ns"
  then show "t \<in> ancestry elog key tips \<and> (t, c) \<in> (edges elog key)\<^sup>*"
    using assms(5,6) stops_reaches [OF acyc stops in_log] by (auto simp: loose_def)
next
  assume t: "t \<in> ancestry elog key tips \<and> (t, c) \<in> (edges elog key)\<^sup>*"
  have "\<not> (c, t) \<in> (edges elog key)\<^sup>+"
    using t acyc by (meson acyclic_def rtrancl_trancl_trancl)
  then show "t \<in> ns"
    using t assms(4) stops_closed [OF stops in_log] by (auto simp: ancestry_def)
qed

section \<open>The trimmed walk\<close>

lemma trim_loop_le: "fmlookup (trim_loop key nodes stack) t = Some e \<Longrightarrow> fmlookup nodes t = Some e"
  by (induction key nodes stack rule: trim_loop.induct) (auto split: option.splits if_splits)

lemma trim_loop_dropped:
  assumes "from_log elog nodes" and "fmlookup nodes t \<noteq> None" and "fmlookup (trim_loop key nodes stack) t = None"
  shows "\<exists>u \<in> set stack. (u, t) \<in> (edges elog key)\<^sup>*"
  using assms
proof (induction key nodes stack rule: trim_loop.induct)
  case (2 key nodes cur stack)
  show ?case
  proof (cases "fmlookup nodes cur")
    case (Some eff)
    have log: "from_log elog (fmdrop cur nodes)"
      using "2.prems"(1) by (auto simp: from_log_def)
    have edge: "(cur, u) \<in> edges elog key" if "u \<in> set (keyDeps key eff)" for u
      using that Some "2.prems"(1) by (auto simp: edges_def dest: from_logD)
    show ?thesis
    proof (cases "t = cur")
      case False
      then show ?thesis
        using "2.IH"(2) [OF Some log] "2.prems" Some edge
        by (auto intro: converse_rtrancl_into_rtrancl)
    qed auto
  qed (use 2 in auto)
qed simp

lemma snapshot_keyDeps: "GetSnapshot e \<noteq> None \<Longrightarrow> keyDeps key e = eff_deps e"
  by (auto simp: keyDeps_def getters split: option.splits effect_kind.splits)

lemma trim_stops:
  assumes acyc: "acyclic (edges elog (dg_key d))" and log: "from_log elog (dg_nodes d)"
    and stops: "stops_at elog (dg_key d) tips (fset (fmdom (dg_nodes d))) (dg_lcaTip d)"
    and t: "\<not> standalone_subscription (node_at elog t)"
  shows "fmlookup (dg_nodes (trimAncestorsOfLCA d)) t = fmlookup (dg_nodes d) t"
proof (rule ccontr)
  let ?E = "edges elog (dg_key d)"
  assume neq: "fmlookup (dg_nodes (trimAncestorsOfLCA d)) t \<noteq> fmlookup (dg_nodes d) t"
  then obtain lcaEff where lca: "fmlookup (dg_nodes d) (dg_lcaTip d) = Some lcaEff" "GetSnapshot lcaEff \<noteq> None"
    and nodes: "dg_nodes (trimAncestorsOfLCA d) = trim_loop (dg_key d) (dg_nodes d) (rev (eff_deps lcaEff))"
    by (auto simp: trimAncestorsOfLCA_def split: if_splits option.splits)
  have in_nodes: "fmlookup (dg_nodes d) t \<noteq> None" and dropped: "fmlookup (dg_nodes (trimAncestorsOfLCA d)) t = None"
    using neq trim_loop_le unfolding nodes by (metis option.exhaust)+
  then obtain u where u: "u \<in> set (eff_deps lcaEff)" "(u, t) \<in> ?E\<^sup>*"
    using trim_loop_dropped [OF log in_nodes dropped [unfolded nodes]] by auto
  have "(dg_lcaTip d, u) \<in> ?E"
    using u(1) lca from_logD [OF log lca(1)] snapshot_keyDeps by (auto simp: edges_def)
  then have below: "(dg_lcaTip d, t) \<in> ?E\<^sup>+"
    using u(2) by (rule rtrancl_into_trancl2)
  have "(t, dg_lcaTip d) \<in> ?E\<^sup>*"
  proof (rule stops_reaches [OF acyc stops])
    show "\<forall>t \<in> fset (fmdom (dg_nodes d)). fmlookup elog t \<noteq> None"
      using log by (auto simp: from_log_def fmlookup_dom_iff)
    show "t \<in> fset (fmdom (dg_nodes d))" using in_nodes by (simp add: fmlookup_dom_iff)
    show "\<not> loose elog (dg_key d) tips (fset (fmdom (dg_nodes d)) - {dg_lcaTip d}) t"
      using t by (simp add: loose_def)
  qed
  then show False
    using below acyc by (meson acyclic_def trancl_rtrancl_trancl)
qed

lemma prepare_Inr:
  assumes "prepare elog d tips = Inr d'"
  obtains nodes c where "bfs_result elog (dg_key d) tips nodes c" and "dg_lcaTip d' = c"
    and "dg_key d' = dg_key d"
    and "dg_nodes d' = dg_nodes (trimAncestorsOfLCA (d\<lparr>dg_nodes := nodes, dg_lcaTip := c, dg_topoOrder := []\<rparr>))"
proof -
  have trim: "dg_lcaTip (trimAncestorsOfLCA e) = dg_lcaTip e" "dg_key (trimAncestorsOfLCA e) = dg_key e" for e
    by (simp_all add: trimAncestorsOfLCA_def split: option.split)
  have "trimAncestorsOfLCA e = e" if "fm_is_empty (dg_nodes e)" for e
    using that by (auto simp: trimAncestorsOfLCA_def fm_is_empty_iff)
  then show thesis
    using assms that bfs_Inr
    by (fastforce simp: prepare_def Let_def trim split: sum.splits if_splits)
qed

end
