(* ===== verification/Dag_Order.thy ===== *)
theory Dag_Order
  imports Dag_Collect
begin

text \<open>
  The order in which the walk replays effects: every collected effect once, dependencies first,
  concurrent branches in fork-choice order whatever the order of the tips.
\<close>

section \<open>The post-condition of the depth-first search\<close>

definition succs :: "dag \<Rightarrow> tip \<Rightarrow> tip list" where
  "succs d t = (case fmlookup (dg_nodes d) t of
      None \<Rightarrow> []
    | Some eff \<Rightarrow> if GetSnapshot eff \<noteq> None \<and> t = dg_lcaTip d then [] else keyDeps (dg_key d) eff)"

definition succ_rel :: "dag \<Rightarrow> tip rel" where
  "succ_rel d = {(t, u). u \<in> set (succs d t)}"

abbreviation collected :: "dag \<Rightarrow> tip set" where
  "collected d \<equiv> fset (fmdom (dg_nodes d))"

definition topo_post ::
  "dag \<Rightarrow> tip set \<Rightarrow> tip set \<times> tip list \<Rightarrow> tip set \<times> tip list \<Rightarrow> tip list \<Rightarrow> bool" where
  "topo_post d S st st' new \<longleftrightarrow>
     fst st \<subseteq> fst st' \<and> S \<subseteq> fst st' \<and> snd st' = snd st @ new \<and> distinct new \<and>
     set new = (fst st' - fst st) \<inter> collected d \<and> set new \<subseteq> (succ_rel d)\<^sup>* `` S \<and>
     (\<forall>as x bs. new = as @ x # bs \<longrightarrow> set (succs d x) \<inter> collected d \<subseteq> fst st \<union> set as)"

lemma topo_post_seq:
  assumes "topo_post d S st st1 xs" and "topo_post d T st1 st2 ys"
  shows "topo_post d (S \<union> T) st st2 (xs @ ys)"
proof -
  have "set (succs d x) \<inter> collected d \<subseteq> fst st \<union> set as" if "xs @ ys = as @ x # bs" for as x bs
  proof -
    consider us where "xs = as @ x # us" | us where "as = xs @ us" "ys = us @ x # bs"
      using \<open>xs @ ys = as @ x # bs\<close> by (auto simp: append_eq_append_conv2 append_eq_Cons_conv)
    then show ?thesis
    proof cases
      case 1
      then show ?thesis using assms(1) by (auto simp: topo_post_def)
    next
      case 2
      then have "set (succs d x) \<inter> collected d \<subseteq> fst st1 \<union> set us"
        using assms(2) by (auto simp: topo_post_def)
      then show ?thesis using 2 assms(1) by (auto simp: topo_post_def)
    qed
  qed
  then show ?thesis
    using assms unfolding topo_post_def by (auto simp: Image_Un)
qed

lemma topo_post_node:
  assumes acyc: "acyclic (succ_rel d)" and t: "t \<notin> v" "t \<in> collected d"
    and S: "set (succs d t) \<inter> collected d \<subseteq> S" "S \<subseteq> set (succs d t)"
    and post: "topo_post d S (insert t v, w) (v1, w1) new"
  shows "topo_post d {t} (v, w) (v1, w1 @ [t]) (new @ [t])"
proof -
  have below: "set new \<subseteq> (succ_rel d)\<^sup>* `` S"
    using post unfolding topo_post_def by (elim conjE)
  have reach: "(t, x) \<in> (succ_rel d)\<^sup>+" if x: "x \<in> set new" for x
  proof -
    obtain y where y: "y \<in> S" "(y, x) \<in> (succ_rel d)\<^sup>*"
      using subsetD [OF below x] by blast
    then have "(t, y) \<in> succ_rel d"
      using S(2) by (auto simp: succ_rel_def)
    then show ?thesis
      using y(2) by (rule rtrancl_into_trancl2)
  qed
  have "set (succs d x) \<inter> collected d \<subseteq> v \<union> set as" if split: "new @ [t] = as @ x # bs" for as x bs
  proof (cases bs rule: rev_cases)
    case Nil
    then have x: "as = new" "x = t" using split by auto
    have "t \<notin> set (succs d t)"
      using acyc by (auto simp: acyclic_def succ_rel_def)
    then show ?thesis
      using S(1) post x by (auto simp: topo_post_def)
  next
    case (snoc us u)
    then have new: "new = as @ x # us" using split by auto
    then have "t \<notin> set (succs d x)"
      using reach [of x] acyc by (auto simp: acyclic_def succ_rel_def dest: trancl_into_trancl)
    moreover have "set (succs d x) \<inter> collected d \<subseteq> insert t v \<union> set as"
      using post new by (auto simp: topo_post_def)
    ultimately show ?thesis by auto
  qed
  moreover have "set (new @ [t]) \<subseteq> (succ_rel d)\<^sup>* `` {t}"
    using reach by (auto dest: trancl_into_rtrancl)
  ultimately show ?thesis
    using post t unfolding topo_post_def by auto
qed

lemma set_by_fork_choice [simp]: "set (by_fork_choice nodes ts) = set ts \<inter> fset (fmdom nodes)"
  by (auto simp: by_fork_choice_def)

lemma topoCollect_post:
  assumes "acyclic (succ_rel d)"
  shows "\<exists>new. topo_post d {t} st (topoCollect d t st) new"
    and "\<exists>new. topo_post d (set ts) st (topoCollects d ts st) new"
  using assms
proof (induction d t st and d ts st rule: topoCollect_topoCollects.induct)
  case (1 d t visited topo)
  show ?case
  proof (cases "t \<in> visited")
    case True
    then have "topo_post d {t} (visited, topo) (visited, topo) []"
      by (auto simp: topo_post_def)
    with True show ?thesis by auto
  next
    case unvisited: False
    show ?thesis
    proof (cases "fmlookup (dg_nodes d) t")
      case None
      then have "topo_post d {t} (visited, topo) (insert t visited, topo) []"
        by (auto simp: topo_post_def fmlookup_dom_iff)
      with None unvisited show ?thesis by auto
    next
      case (Some eff)
      then have t: "t \<in> collected d" by (simp add: fmlookup_dom_iff)
      consider (lca) "GetSnapshot eff \<noteq> None \<and> t = dg_lcaTip d"
        | (one) "\<not> (GetSnapshot eff \<noteq> None \<and> t = dg_lcaTip d)" "GetTxnBind eff = None \<and> length (eff_deps eff) = 1"
        | (fork) "\<not> (GetSnapshot eff \<noteq> None \<and> t = dg_lcaTip d)" "\<not> (GetTxnBind eff = None \<and> length (eff_deps eff) = 1)"
        by blast
      then show ?thesis
      proof cases
        case lca
        then have "topo_post d {t} (visited, topo) (insert t visited, topo @ [t]) [t]"
          using Some t unvisited by (auto simp: topo_post_def succs_def Cons_eq_append_conv)
        with lca Some unvisited show ?thesis by auto
      next
        case one
        obtain u where u: "eff_deps eff = [u]"
          using one(2) by (auto simp: length_Suc_conv)
        then have succ: "succs d t = [u]"
          using one Some by (simp add: succs_def keyDeps_def)
        obtain new where "topo_post d {u} (insert t visited, topo) (topoCollect d u (insert t visited, topo)) new"
          using "1.IH"(1) [OF unvisited Some one] "1.prems" u by auto
        then have "topo_post d {t} (visited, topo) (topoCollect d t (visited, topo)) (new @ [t])"
          using topo_post_node [OF "1.prems" unvisited t, of "{u}"] one Some unvisited u succ
          by (auto split: prod.splits)
        then show ?thesis by blast
      next
        case fork
        let ?ts = "by_fork_choice (dg_nodes d) (keyDeps (dg_key d) eff)"
        have succ: "succs d t = keyDeps (dg_key d) eff"
          using fork(1) Some by (auto simp: succs_def)
        obtain new where "topo_post d (set ?ts) (insert t visited, topo) (topoCollects d ?ts (insert t visited, topo)) new"
          using "1.IH"(2) [OF unvisited Some fork] "1.prems" by auto
        moreover have "topoCollect d t (visited, topo) = (case topoCollects d ?ts (insert t visited, topo) of
            (v, w) \<Rightarrow> (v, w @ [t]))"
          unfolding topoCollect.simps [of d t visited topo] if_not_P [OF unvisited] Some option.case if_not_P [OF fork(1)]
            if_not_P [OF fork(2)] by (rule refl)
        ultimately have "topo_post d {t} (visited, topo) (topoCollect d t (visited, topo)) (new @ [t])"
          using topo_post_node [OF "1.prems" unvisited t, of "set ?ts"] succ
          by (auto split: prod.splits)
        then show ?thesis by blast
      qed
    qed
  qed
next
  case (2 d st)
  have "topo_post d {} st st []" by (auto simp: topo_post_def)
  then show ?case by auto
next
  case (3 d t ts st)
  then show ?case
    using topo_post_seq [of d "{t}" st _ _ "set ts"] by fastforce
qed

section \<open>Everything collected is replayed\<close>

lemma closed_visits:
  assumes closed: "\<forall>x \<in> V \<inter> C. set (succs d x) \<inter> C \<subseteq> V" and tips: "set tips \<inter> C \<subseteq> V"
    and path: "\<And>y. y \<in> ancestry elog key tips \<Longrightarrow> (y, t) \<in> (edges elog key)\<^sup>+ \<Longrightarrow>
      y \<in> C \<and> set (keyDeps key (node_at elog y)) \<subseteq> set (succs d y)"
    and t: "t \<in> C" "t \<in> ancestry elog key tips"
  shows "t \<in> V"
proof -
  let ?E = "edges elog key"
  have in_C: "y \<in> C" if "y \<in> ancestry elog key tips" "(y, t) \<in> ?E\<^sup>*" for y
    using that path t(1) by (auto dest: rtranclD)
  obtain p where p: "p \<in> set tips" "(p, t) \<in> ?E\<^sup>*"
    using t(2) by (auto simp: ancestry_def)
  have "(y, t) \<in> ?E\<^sup>* \<Longrightarrow> y \<in> V" if "(p, y) \<in> ?E\<^sup>*" for y
    using that
  proof (induction rule: rtrancl_induct)
    case base
    then show ?case using in_C [of p] p tips by (auto simp: ancestry_def)
  next
    case (step y z)
    have y: "y \<in> ancestry elog key tips" "(y, t) \<in> ?E\<^sup>+"
      using step.hyps step.prems p(1) by (auto simp: ancestry_def intro: rtrancl_into_trancl2)
    then have z: "z \<in> ancestry elog key tips" using step.hyps(2) by (auto intro: ancestry_step)
    have "z \<in> set (succs d y)"
      using path [OF y] step.hyps(2) edges_in_log edges_node_at by blast
    moreover have "y \<in> V" using step.IH y(2) by (simp add: trancl_into_rtrancl)
    ultimately show ?case
      using closed path [OF y] in_C [OF z step.prems] by blast
  qed
  then show ?thesis using p by blast
qed

lemma succs_subset_edges: "from_log elog (dg_nodes d) \<Longrightarrow> succ_rel d \<subseteq> edges elog (dg_key d)"
  by (auto simp: succ_rel_def succs_def edges_def dest: from_logD [OF _ sym] split: option.splits if_splits)

lemma succs_node:
  assumes "from_log elog (dg_nodes d)" and "y \<in> collected d" and "y \<noteq> dg_lcaTip d"
  shows "succs d y = keyDeps (dg_key d) (node_at elog y)"
  using assms by (auto simp: succs_def node_at_def fmlookup_dom_iff dest: from_logD)

lemma from_log_trim: "from_log elog (dg_nodes d) \<Longrightarrow> from_log elog (dg_nodes (trimAncestorsOfLCA d))"
  by (auto simp: trimAncestorsOfLCA_def from_log_def dest: trim_loop_le split: option.splits)

lemma trim_le:
  "fmlookup (dg_nodes (trimAncestorsOfLCA d)) t = Some e \<Longrightarrow> fmlookup (dg_nodes d) t = Some e"
  by (auto simp: trimAncestorsOfLCA_def dest: trim_loop_le split: if_splits option.splits)

lemma collected_trim: "collected (trimAncestorsOfLCA d) \<subseteq> collected d"
proof
  fix t assume "t \<in> collected (trimAncestorsOfLCA d)"
  then obtain e where "fmlookup (dg_nodes (trimAncestorsOfLCA d)) t = Some e"
    by (auto simp: fmlookup_dom_iff)
  from trim_le [OF this] show "t \<in> collected d"
    by (simp add: fmlookup_dom_iff)
qed

text \<open>The address \<open>{0, 0}\<close> is never assigned to an effect.\<close>

definition valid_log :: "store \<Rightarrow> bytes \<Rightarrow> bool" where
  "valid_log elog key \<longleftrightarrow> acyclic (edges elog key) \<and> fmlookup elog zero_tip = None"

lemma stops_path:
  assumes acyc: "acyclic (edges elog key)" and stops: "stops_at elog key tips ns c"
    and log: "\<forall>t \<in> ns. fmlookup elog t \<noteq> None" and tips: "set tips \<subseteq> ns"
    and t: "t \<in> ns" "\<not> loose elog key tips (ns - {c}) t"
    and y: "y \<in> ancestry elog key tips" "(y, t) \<in> (edges elog key)\<^sup>+"
  shows "y \<in> ns \<and> y \<noteq> c \<and> \<not> standalone_subscription (node_at elog y)"
proof -
  have tc: "(t, c) \<in> (edges elog key)\<^sup>*"
    by (rule stops_reaches [OF acyc stops log t])
  have ct: "(c, t) \<notin> (edges elog key)\<^sup>+"
    using tc acyc by (meson acyclic_def trancl_rtrancl_trancl)
  obtain p where "p \<in> set tips" "(p, y) \<in> (edges elog key)\<^sup>*"
    using y(1) by (auto simp: ancestry_def)
  then have "y \<in> ns \<or> (c, y) \<in> (edges elog key)\<^sup>+"
    using stops_closed [OF stops log] tips by blast
  then have "y \<in> ns" using ct y(2) by (meson trancl_trans)
  moreover obtain u where "(y, u) \<in> edges elog key" using y(2) by (meson tranclD)
  then have "keyDeps key (node_at elog y) \<noteq> []"
    using edges_node_at [of elog y] edges_in_log by fastforce
  ultimately show ?thesis
    using ct y(2) standalone_no_deps by blast
qed

lemma prepare_visits:
  assumes valid: "valid_log elog (dg_key d)" and prep: "prepare elog d tips = Inr d'"
    and closed: "\<forall>x \<in> V \<inter> collected d'. set (succs d' x) \<inter> collected d' \<subseteq> V"
    and tips: "set tips \<inter> collected d' \<subseteq> V" and t: "t \<in> collected d'"
  shows "t \<in> V"
proof -
  obtain nodes c where res: "bfs_result elog (dg_key d) tips nodes c" and d': "dg_lcaTip d' = c" "dg_key d' = dg_key d"
    "dg_nodes d' = dg_nodes (trimAncestorsOfLCA (d\<lparr>dg_nodes := nodes, dg_lcaTip := c, dg_topoOrder := []\<rparr>))"
    by (rule prepare_Inr [OF prep])
  let ?d1 = "d\<lparr>dg_nodes := nodes, dg_lcaTip := c, dg_topoOrder := []\<rparr>"
  let ?ns = "fset (fmdom nodes)"
  have acyc: "acyclic (edges elog (dg_key d))" and zero: "fmlookup elog zero_tip = None"
    using valid by (auto simp: valid_log_def)
  have log: "from_log elog nodes" "set tips \<subseteq> ?ns" "?ns \<subseteq> ancestry elog (dg_key d) tips"
    using res by (auto simp: bfs_result_def)
  have log': "from_log elog (dg_nodes d')" using from_log_trim [of elog ?d1] log(1) d' by simp
  have in_log: "\<forall>t \<in> ?ns. fmlookup elog t \<noteq> None"
    using log(1) by (auto simp: from_log_def fmlookup_dom_iff)
  have t_ns: "t \<in> ?ns" using collected_trim [of ?d1] t d' by auto
  have "t \<in> V" if path: "\<And>y. y \<in> ancestry elog (dg_key d) tips \<Longrightarrow> (y, t) \<in> (edges elog (dg_key d))\<^sup>+ \<Longrightarrow>
      y \<in> collected d' \<and> y \<noteq> c"
  proof (rule closed_visits [OF closed tips _ t])
    show "y \<in> collected d' \<and> set (keyDeps (dg_key d) (node_at elog y)) \<subseteq> set (succs d' y)"
      if "y \<in> ancestry elog (dg_key d) tips" "(y, t) \<in> (edges elog (dg_key d))\<^sup>+" for y
      using path [OF that] succs_node [OF log', of y] d' by simp
    show "t \<in> ancestry elog (dg_key d) tips" using t_ns log(3) by blast
  qed
  moreover have "y \<in> collected d' \<and> y \<noteq> c \<or> t \<in> V"
    if y: "y \<in> ancestry elog (dg_key d) tips" "(y, t) \<in> (edges elog (dg_key d))\<^sup>+" for y
  proof (cases "stops_at elog (dg_key d) tips ?ns c")
    case True
    show ?thesis
    proof (cases "loose elog (dg_key d) tips (?ns - {c}) t")
      case False
      note y' = stops_path [OF acyc True in_log log(2) t_ns False y]
      then have "fmlookup (dg_nodes d') y = fmlookup nodes y"
        using trim_stops [of elog ?d1 tips y] acyc log(1) True d' by simp
      then show ?thesis using y' by (auto simp: fmlookup_dom_iff)
    qed (use tips t in \<open>auto simp: loose_def\<close>)
  next
    case False
    then have c: "c = zero_tip" and ns_closed: "\<forall>t \<in> ?ns. set (keyDeps (dg_key d) (node_at elog t)) \<subseteq> ?ns"
      using res by (auto simp: bfs_result_def)
    obtain p where p: "p \<in> set tips" "(p, y) \<in> (edges elog (dg_key d))\<^sup>*"
      using y(1) by (auto simp: ancestry_def)
    from p(2) have "y \<in> ?ns"
    proof (induction rule: rtrancl_induct)
      case (step u w)
      then show ?case using ns_closed in_log edges_node_at by blast
    qed (use p log in auto)
    moreover have "dg_nodes d' = nodes" by (simp add: d' c trimAncestorsOfLCA_def)
    ultimately show ?thesis using in_log zero c by auto
  qed
  ultimately show ?thesis by blast
qed

lemma prepare_post:
  assumes valid: "valid_log elog (dg_key d)" and prep: "prepare elog d tips = Inr d'"
  obtains v where "topo_post d' (set tips \<inter> collected d') ({}, []) (v, dg_topoOrder d') (dg_topoOrder d')"
    and "from_log elog (dg_nodes d')" and "dg_key d' = dg_key d"
proof -
  obtain nodes c where res: "bfs_result elog (dg_key d) tips nodes c" and key: "dg_key d' = dg_key d"
    and nodes: "dg_nodes d' = dg_nodes (trimAncestorsOfLCA (d\<lparr>dg_nodes := nodes, dg_lcaTip := c, dg_topoOrder := []\<rparr>))"
    by (rule prepare_Inr [OF prep])
  have log: "from_log elog (dg_nodes d')"
    using res nodes by (simp add: bfs_result_def from_log_trim)
  then have acyc: "acyclic (succ_rel d')"
    using valid succs_subset_edges [OF log] key by (auto simp: valid_log_def intro: acyclic_subset)
  show thesis
  proof (cases "\<exists>d2. d' = d2\<lparr>dg_topoOrder := snd (topoCollects d2 (by_fork_choice (dg_nodes d2) tips) ({}, []))\<rparr>")
    case True
    then obtain d2 where d2: "d' = d2\<lparr>dg_topoOrder := snd (topoCollects d2 (by_fork_choice (dg_nodes d2) tips) ({}, []))\<rparr>"
      by blast
    have same: "succ_rel d2 = succ_rel d'" "topo_post d2 = topo_post d'"
      by (auto simp: d2 succ_rel_def succs_def topo_post_def fun_eq_iff)
    obtain new where post: "topo_post d2 (set (by_fork_choice (dg_nodes d2) tips)) ({}, [])
        (topoCollects d2 (by_fork_choice (dg_nodes d2) tips) ({}, [])) new"
      using topoCollect_post(2) acyc same by metis
    moreover from post have "new = dg_topoOrder d'"
      unfolding topo_post_def d2 by simp
    ultimately show thesis
      using that [of "fst (topoCollects d2 (by_fork_choice (dg_nodes d2) tips) ({}, []))"] log key
      by (simp add: same d2)
  next
    case False
    then have "fm_is_empty (dg_nodes d')" "dg_topoOrder d' = []"
      using prep by (auto simp: prepare_def Let_def split: sum.splits if_splits)
    then show thesis
      using that [of "{}"] log key by (auto simp: topo_post_def fm_is_empty_iff)
  qed
qed

section \<open>Properties\<close>

text \<open>Two writes on top of a snapshot, and a log without it: used by the witnesses.\<close>

definition ex_eff :: "tip list \<Rightarrow> bytes \<Rightarrow> effect_kind \<Rightarrow> effect" where
  "ex_eff deps h k = \<lparr>eff_key = ''k'', eff_hlc = None, eff_node_id = 1, eff_deps = deps, eff_txn_id = [],
     eff_fork_choice_hash = h, eff_virtual = [], eff_kind = Some k\<rparr>"

definition ex_snapshot :: effect_kind where
  "ex_snapshot = Snapshot \<lparr>sn_collection = SCALAR, sn_state = Some (ReducedEffect empty_flat fmempty),
     sn_txn_verdicts = fmempty, sn_prev_snapshot = None\<rparr>"

definition ex_log :: store where
  "ex_log = fmap_of_list
     [(Tip 1 1, ex_eff [] ''a'' Noop),
      (Tip 1 2, ex_eff [Tip 1 1] ''b'' ex_snapshot),
      (Tip 1 3, ex_eff [Tip 1 2] ''d'' Noop),
      (Tip 2 1, ex_eff [Tip 1 2] ''c'' Noop)]"

definition ex_plain_log :: store where
  "ex_plain_log = fmap_of_list
     [(Tip 1 1, ex_eff [] ''a'' Noop),
      (Tip 1 2, ex_eff [Tip 1 1] ''d'' Noop),
      (Tip 2 1, ex_eff [Tip 1 1] ''c'' Noop)]"

lemma edges_acyclicI:
  assumes "\<And>t e u. fmlookup elog t = Some e \<Longrightarrow> u \<in> set (keyDeps key e) \<Longrightarrow> (f u :: nat) < f t"
  shows "acyclic (edges elog key)"
proof -
  have "edges elog key \<subseteq> (measure f)\<inverse>"
    using assms by (auto simp: edges_def)
  then show ?thesis
    by (rule acyclic_subset [rotated]) (simp add: wf_acyclic)
qed

lemma ex_log_valid: "valid_log ex_log ''k''" "valid_log ex_plain_log ''k''"
  unfolding valid_log_def
  by (auto intro!: edges_acyclicI [where f = "\<lambda>t. 10 * unat (tip_node t) + unat (tip_seq t)"]
      simp: ex_log_def ex_plain_log_def ex_eff_def ex_snapshot_def keyDeps_def getters zero_tip_def fmap_of_list.rep_eq
      split: if_splits)

definition ex_walk :: dag where
  "ex_walk = (case prepare ex_log (newDag ''k'' []) [Tip 1 3, Tip 2 1] of Inr d \<Rightarrow> d | Inl _ \<Rightarrow> newDag [] [])"

lemma ex_walk:
  "prepare ex_log (newDag ''k'' []) [Tip 1 3, Tip 2 1] = Inr ex_walk"
  "dg_lcaTip ex_walk = Tip 1 2" "dg_topoOrder ex_walk = [Tip 1 2, Tip 2 1, Tip 1 3]"
  "dg_key (newDag ''k'' []) = ''k''"
  by code_simp+

text \<open>C6: the replay order lists every collected effect exactly once, and no
  effect before the effects it depends on.\<close>

theorem prepare_causal_order:
  assumes "valid_log elog (dg_key d)" and "prepare elog d tips = Inr d'"
  shows "distinct (dg_topoOrder d') \<and> set (dg_topoOrder d') = fset (fmdom (dg_nodes d')) \<and>
    (\<forall>as x bs. dg_topoOrder d' = as @ x # bs \<longrightarrow> x \<noteq> dg_lcaTip d' \<longrightarrow>
       set (keyDeps (dg_key d) (node_at elog x)) \<inter> fset (fmdom (dg_nodes d')) \<subseteq> set as)"
proof -
  obtain v where post: "topo_post d' (set tips \<inter> collected d') ({}, []) (v, dg_topoOrder d') (dg_topoOrder d')"
    and log: "from_log elog (dg_nodes d')" and key: "dg_key d' = dg_key d"
    by (rule prepare_post [OF assms])
  have order: "set (succs d' x) \<inter> collected d' \<subseteq> set as" if "dg_topoOrder d' = as @ x # bs" for as x bs
    using post that by (simp add: topo_post_def)
  have topo: "distinct (dg_topoOrder d')" "set (dg_topoOrder d') = v \<inter> collected d'" "set tips \<inter> collected d' \<subseteq> v"
    using post by (auto simp: topo_post_def)
  have closed: "\<forall>x \<in> v \<inter> collected d'. set (succs d' x) \<inter> collected d' \<subseteq> v"
  proof
    fix x assume "x \<in> v \<inter> collected d'"
    then obtain as bs where "dg_topoOrder d' = as @ x # bs"
      using topo(2) by (metis split_list)
    then show "set (succs d' x) \<inter> collected d' \<subseteq> v"
      using order topo(2) by fastforce
  qed
  have "set (dg_topoOrder d') = collected d'"
    using prepare_visits [OF assms closed topo(3)] topo(2) by blast
  moreover have "set (keyDeps (dg_key d) (node_at elog x)) \<inter> collected d' \<subseteq> set as"
    if "dg_topoOrder d' = as @ x # bs" "x \<noteq> dg_lcaTip d'" for as x bs
  proof -
    have "x \<in> collected d'" using that(1) topo(2) by auto
    then show ?thesis
      using order [OF that(1)] succs_node [OF log _ that(2)] key by simp
  qed
  ultimately show ?thesis using topo(1) by blast
qed

theorem prepare_causal_order_witness:
  "set (dg_topoOrder ex_walk) = fset (fmdom (dg_nodes ex_walk)) \<and>
   dg_topoOrder ex_walk = [Tip 1 2, Tip 2 1, Tip 1 3]"
  using prepare_causal_order [of ex_log "newDag ''k'' []", OF _ ex_walk(1)] ex_log_valid(1)
  by (simp add: ex_walk)

text \<open>C7: a walk that stops at a snapshot neither loses nor repeats
  anything. The snapshot carries state; every effect in the ancestry of the tips is either
  replayed or an ancestor of the snapshot; and, bare subscriptions apart, the replayed effects
  are exactly those of the ancestry that build on the snapshot, none of which it folds.\<close>

theorem prepare_snapshot_exact:
  assumes "valid_log elog (dg_key d)" and "prepare elog d tips = Inr d'" and "dg_lcaTip d' \<noteq> zero_tip"
  shows "state_snapshot (node_at elog (dg_lcaTip d')) \<and>
    (\<forall>t \<in> ancestry elog (dg_key d) tips. \<not> standalone_subscription (node_at elog t) \<longrightarrow>
       t |\<in>| fmdom (dg_nodes d') \<or> (dg_lcaTip d', t) \<in> (edges elog (dg_key d))\<^sup>+) \<and>
    (\<forall>t. \<not> standalone_subscription (node_at elog t) \<longrightarrow>
       (t |\<in>| fmdom (dg_nodes d') \<longleftrightarrow>
        t \<in> ancestry elog (dg_key d) tips \<and> (t, dg_lcaTip d') \<in> (edges elog (dg_key d))\<^sup>*))"
proof -
  obtain nodes c where res: "bfs_result elog (dg_key d) tips nodes c" and d': "dg_lcaTip d' = c"
    "dg_nodes d' = dg_nodes (trimAncestorsOfLCA (d\<lparr>dg_nodes := nodes, dg_lcaTip := c, dg_topoOrder := []\<rparr>))"
    by (rule prepare_Inr [OF assms(2)])
  let ?ns = "fset (fmdom nodes)"
  have acyc: "acyclic (edges elog (dg_key d))" using assms(1) by (simp add: valid_log_def)
  have log: "from_log elog nodes" "set tips \<subseteq> ?ns" "?ns \<subseteq> ancestry elog (dg_key d) tips"
    and stops: "stops_at elog (dg_key d) tips ?ns c"
    using res assms(3) d' by (auto simp: bfs_result_def)
  have in_log: "\<forall>t \<in> ?ns. fmlookup elog t \<noteq> None"
    using log(1) by (auto simp: from_log_def fmlookup_dom_iff)
  have kept: "t |\<in>| fmdom (dg_nodes d') \<longleftrightarrow> t \<in> ?ns" if "\<not> standalone_subscription (node_at elog t)" for t
    using trim_stops [of elog "d\<lparr>dg_nodes := nodes, dg_lcaTip := c, dg_topoOrder := []\<rparr>" tips t]
      acyc log(1) stops that by (simp add: d' fmlookup_dom_iff)
  have "t \<in> ?ns \<or> (c, t) \<in> (edges elog (dg_key d))\<^sup>+" if "t \<in> ancestry elog (dg_key d) tips" for t
    using that stops_closed [OF stops in_log] log(2) by (auto simp: ancestry_def)
  then show ?thesis
    using stops_exact [OF acyc stops in_log log(2,3)] stops kept d' by (auto simp: stops_at_def)
qed

theorem prepare_snapshot_exact_witness:
  "state_snapshot (node_at ex_log (dg_lcaTip ex_walk)) \<and> dg_lcaTip ex_walk = Tip 1 2"
  using prepare_snapshot_exact [of ex_log "newDag ''k'' []", OF _ ex_walk(1)] ex_log_valid(1)
  by (simp add: ex_walk zero_tip_def)

text \<open>C8: the walk returns an error only for an address in the
  ancestry of the tips that the log does not hold; with a complete log it always returns.\<close>

theorem prepare_fails_only_on_missing:
  "case prepare elog d tips of
     Inl t \<Rightarrow> t \<in> ancestry elog (dg_key d) tips \<and> fmlookup elog t = None
   | Inr d' \<Rightarrow> set tips \<subseteq> fset (fmdom elog)"
proof (cases "bfs elog (dg_key d) tips")
  case (Inl t)
  then show ?thesis
    using bfs_Inl [OF Inl] by (simp add: prepare_def)
next
  case (Inr r)
  obtain nodes c where r: "r = (nodes, c)" by (cases r)
  then have "from_log elog nodes" "set tips \<subseteq> fset (fmdom nodes)"
    using bfs_Inr [of elog "dg_key d" tips nodes c] Inr by (auto simp: bfs_result_def)
  then have "set tips \<subseteq> fset (fmdom elog)"
    by (auto simp: from_log_def fmlookup_dom_iff) (metis fmdomE fmdomI subsetD)
  then show ?thesis
    using Inr by (auto simp: prepare_def r Let_def)
qed

end
