(* ===== verification/Dag_Fork.thy ===== *)
theory Dag_Fork
  imports Dag_Order
begin

text \<open>
  Convergence of the walk: replicas that hold the same effects replay them in the same order,
  however they list their tips, and the branches of a fork are replayed one after the other,
  lower fork-choice hash first.
\<close>

section \<open>Walks without a snapshot\<close>

definition no_snapshots :: "store \<Rightarrow> bytes \<Rightarrow> tip list \<Rightarrow> bool" where
  "no_snapshots elog key tips \<longleftrightarrow> (\<forall>t \<in> ancestry elog key tips. \<not> state_snapshot (node_at elog t))"

lemma ancestry_closed:
  assumes "set tips \<subseteq> ns" and "\<forall>t \<in> ns. fmlookup elog t \<noteq> None"
    and "\<forall>t \<in> ns. set (keyDeps key (node_at elog t)) \<subseteq> ns"
  shows "ancestry elog key tips \<subseteq> ns"
proof
  fix t assume "t \<in> ancestry elog key tips"
  then obtain p where p: "p \<in> set tips" "(p, t) \<in> (edges elog key)\<^sup>*"
    by (auto simp: ancestry_def)
  from p(2) show "t \<in> ns"
  proof (induction rule: rtrancl_induct)
    case (step y z)
    then show ?case using assms(2,3) edges_node_at by blast
  qed (use p assms in auto)
qed

lemma bfs_plain:
  assumes "no_snapshots elog key tips" and "bfs elog key tips = Inr (nodes, c)"
  shows "c = zero_tip \<and> nodes = fmfilter (\<lambda>t. t \<in> ancestry elog key tips) elog \<and>
    ancestry elog key tips \<subseteq> fset (fmdom elog)"
proof -
  note res = bfs_Inr [OF assms(2)]
  have log: "from_log elog nodes" "set tips \<subseteq> fset (fmdom nodes)" "fset (fmdom nodes) \<subseteq> ancestry elog key tips"
    using res by (auto simp: bfs_result_def)
  have "\<not> stops_at elog key tips (fset (fmdom nodes)) c"
    using assms(1) log(3) by (auto simp: stops_at_def no_snapshots_def)
  then have c: "c = zero_tip" "\<forall>t \<in> fset (fmdom nodes). set (keyDeps key (node_at elog t)) \<subseteq> fset (fmdom nodes)"
    using res by (auto simp: bfs_result_def)
  have in_log: "\<forall>t \<in> fset (fmdom nodes). fmlookup elog t \<noteq> None"
    using log(1) by (auto simp: from_log_def fmlookup_dom_iff)
  have dom: "fset (fmdom nodes) = ancestry elog key tips"
    using ancestry_closed [OF log(2) in_log c(2)] log(3) by blast
  have "fmlookup nodes t = fmlookup (fmfilter (\<lambda>t. t \<in> ancestry elog key tips) elog) t" for t
    using log(1) by (auto simp: dom [symmetric] from_log_def fmlookup_dom_iff)
  then show ?thesis
    using c in_log dom by (auto intro: fmap_ext simp: fmlookup_dom_iff)
qed

definition plain_dag :: "store \<Rightarrow> dag \<Rightarrow> tip list \<Rightarrow> dag" where
  "plain_dag elog d tips =
     d\<lparr>dg_nodes := fmfilter (\<lambda>t. t \<in> ancestry elog (dg_key d) tips) elog, dg_lcaTip := zero_tip, dg_topoOrder := []\<rparr>"

lemma prepare_plain:
  assumes "no_snapshots elog (dg_key d) tips" and "ancestry elog (dg_key d) tips \<subseteq> fset (fmdom elog)"
  shows "prepare elog d tips = Inr ((plain_dag elog d tips)\<lparr>dg_topoOrder :=
    snd (topoCollects (plain_dag elog d tips)
      (by_fork_choice (dg_nodes (plain_dag elog d tips)) tips) ({}, []))\<rparr>)"
proof (cases "bfs elog (dg_key d) tips")
  case (Inl t)
  then show ?thesis
    using bfs_Inl [OF Inl] assms(2) by (auto simp: fmlookup_dom_iff)
next
  case (Inr r)
  obtain nodes c where r: "r = (nodes, c)" by (cases r)
  note plain = bfs_plain [OF assms(1) Inr [unfolded r]]
  have "by_fork_choice nodes tips = []" if "fm_is_empty nodes"
    using that by (simp add: by_fork_choice_def fm_is_empty_def)
  then show ?thesis
    using Inr r plain by (auto simp: prepare_def Let_def plain_dag_def trimAncestorsOfLCA_def)
qed

section \<open>Linear histories\<close>

definition ordinary :: "store \<Rightarrow> tip option \<Rightarrow> tip \<Rightarrow> bool" where
  "ordinary nodes prev t \<longleftrightarrow> (\<exists>e. fmlookup nodes t = Some e \<and> GetTxnBind e = None \<and> GetSnapshot e = None \<and>
     eff_deps e = (case prev of None \<Rightarrow> [] | Some u \<Rightarrow> [u]))"

fun chain_from :: "store \<Rightarrow> tip option \<Rightarrow> tip list \<Rightarrow> bool" where
  "chain_from nodes prev [] = True"
| "chain_from nodes prev (t # ts) = (ordinary nodes prev t \<and> chain_from nodes (Some t) ts)"

definition tip_of :: "tip option \<Rightarrow> tip list \<Rightarrow> tip option" where
  "tip_of prev ts = (if ts = [] then prev else Some (last ts))"

lemma chain_append: "chain_from nodes p (xs @ ys) \<longleftrightarrow> chain_from nodes p xs \<and> chain_from nodes (tip_of p xs) ys"
  by (induction xs arbitrary: p) (auto simp: tip_of_def)

lemma topoCollect_chain:
  assumes "chain_from (dg_nodes d) p xs" and "xs \<noteq> []" and "distinct xs" and "set xs \<inter> v = {}"
    and "\<And>u. p = Some u \<Longrightarrow> u \<in> v"
  shows "topoCollect d (last xs) (v, w) = (v \<union> set xs, w @ xs)"
  using assms
proof (induction xs arbitrary: v rule: rev_induct)
  case (snoc t xs)
  obtain e where e: "fmlookup (dg_nodes d) t = Some e" "GetTxnBind e = None" "GetSnapshot e = None"
      "eff_deps e = (case tip_of p xs of None \<Rightarrow> [] | Some u \<Rightarrow> [u])"
    using snoc.prems(1) by (auto simp: chain_append ordinary_def)
  have t: "t \<notin> v" "t \<notin> set xs" using snoc.prems by auto
  consider (root) "xs = []" "p = None" | (base) u where "xs = []" "p = Some u" | (inner) "xs \<noteq> []"
    by (cases p) auto
  then show ?case
  proof cases
    case root
    then show ?thesis using e t by (simp add: tip_of_def keyDeps_def by_fork_choice_def)
  next
    case (base u)
    then show ?thesis using e t snoc.prems(5) by (simp add: tip_of_def)
  next
    case inner
    have "topoCollect d (last xs) (insert t v, w) = (insert t v \<union> set xs, w @ xs)"
      using snoc.IH [of "insert t v"] snoc.prems inner t by (auto simp: chain_append)
    then show ?thesis using e t inner by (simp add: tip_of_def)
  qed
qed simp

lemma chain_ancestry:
  assumes "chain_from elog p xs" and "xs \<noteq> []" and "last xs \<in> ancestry elog key tips"
  shows "set xs \<subseteq> ancestry elog key tips"
  using assms
proof (induction xs rule: rev_induct)
  case (snoc t xs)
  show ?case
  proof (cases "xs = []")
    case False
    then have "(t, last xs) \<in> edges elog key"
      using snoc.prems(1) by (auto simp: chain_append ordinary_def edges_def keyDeps_def tip_of_def)
    then show ?thesis
      using snoc False ancestry_step by (auto simp: chain_append)
  qed (use snoc in simp)
qed simp

lemma chain_cong:
  "chain_from elog p xs \<Longrightarrow> (\<And>t. t \<in> set xs \<Longrightarrow> fmlookup nodes t = fmlookup elog t) \<Longrightarrow> chain_from nodes p xs"
  by (induction xs arbitrary: p) (auto simp: ordinary_def)

lemma ordinary_node:
  "ordinary elog p t \<Longrightarrow> fmlookup elog t \<noteq> None \<and> \<not> state_snapshot (node_at elog t) \<and>
    set (keyDeps key (node_at elog t)) = set_option p"
  by (auto simp: ordinary_def node_at_def keyDeps_def state_snapshot_def split: option.splits)

lemma chain_edges:
  assumes "chain_from elog p xs" and "t \<in> set xs"
  shows "fmlookup elog t \<noteq> None \<and> \<not> state_snapshot (node_at elog t) \<and>
    set (keyDeps key (node_at elog t)) \<subseteq> set xs \<union> set_option p"
  using assms
proof (induction xs arbitrary: p)
  case (Cons a xs)
  then show ?case
    using ordinary_node [of elog p a key] Cons.IH [of "Some a"] by auto
qed simp

section \<open>Properties\<close>

text \<open>C9: replicas converge. For a history without a state snapshot and with
  distinct fork-choice hashes, the walk collects the same effects and replays them in the same
  order, in whatever order the tips are listed.\<close>

theorem prepare_converges:
  assumes "no_snapshots elog (dg_key d) tips" and "ancestry elog (dg_key d) tips \<subseteq> fset (fmdom elog)"
    and "inj_on (\<lambda>t. eff_fork_choice_hash (node_at elog t)) (set tips)" and "mset tips' = mset tips"
  shows "\<exists>d'. prepare elog d tips = Inr d' \<and> prepare elog d tips' = Inr d'"
proof -
  have same: "set tips' = set tips" "ancestry elog (dg_key d) tips' = ancestry elog (dg_key d) tips"
    using mset_eq_setD [OF assms(4)] by (auto simp: ancestry_def)
  let ?nodes = "dg_nodes (plain_dag elog d tips)"
  have dag: "plain_dag elog d tips' = plain_dag elog d tips"
    by (simp add: plain_dag_def same)
  have "node_at ?nodes t = node_at elog t" if "t |\<in>| fmdom ?nodes" for t
    using that by (auto simp: plain_dag_def node_at_def split: option.splits if_splits)
  then have "inj_on (\<lambda>t. eff_fork_choice_hash (node_at ?nodes t)) (set (filter (\<lambda>t. t |\<in>| fmdom ?nodes) tips'))"
    using assms(3) by (auto simp: inj_on_def same)
  then have "by_fork_choice ?nodes tips' = by_fork_choice ?nodes tips"
    unfolding by_fork_choice_def by (rule distinct_sort_key_inj_perm [rotated]) (simp add: assms(4) mset_filter)
  then show ?thesis
    using prepare_plain [OF assms(1,2)] prepare_plain [of elog d tips'] assms(1,2)
    by (simp add: same dag no_snapshots_def)
qed

lemma chain_fork:
  assumes lin: "chain_from elog None (rs @ as)" "chain_from elog (tip_of None rs) bs" "as \<noteq> []" "bs \<noteq> []"
    and tips: "set [last as, last bs] = set tips"
  shows "ancestry elog key tips = set (rs @ as @ bs) \<and> no_snapshots elog key tips"
proof -
  let ?ns = "set (rs @ as @ bs)"
  have t: "fmlookup elog t \<noteq> None \<and> \<not> state_snapshot (node_at elog t) \<and>
      set (keyDeps key (node_at elog t)) \<subseteq> ?ns" if "t \<in> ?ns" for t
    using chain_edges [OF lin(1), of t key] chain_edges [OF lin(2), of t key] that
    by (cases "t \<in> set bs") (auto simp: tip_of_def split: if_splits)
  have "ancestry elog key tips \<subseteq> ?ns"
  proof (rule ancestry_closed)
    show "set tips \<subseteq> ?ns" using tips lin(3,4) by (metis UnCI empty_subsetI insert_subset last_in_set list.set(1,2) set_append)
  qed (use t in auto)
  moreover have "last as \<in> ancestry elog key tips" "last bs \<in> ancestry elog key tips"
    using tips by (auto simp: ancestry_def)
  then have "?ns \<subseteq> ancestry elog key tips"
    using chain_ancestry [OF lin(1)] chain_ancestry [OF lin(2,4)] lin(3) by simp
  ultimately show ?thesis
    using t by (auto simp: no_snapshots_def)
qed

text \<open>The branches of a fork are never interleaved. When two
  nodes extend a common history each with a run of effects, every replica replays the common
  history, then the whole branch whose tip has the lower fork-choice hash, then the whole other
  branch, whichever tip it lists first.\<close>

theorem fork_branches_replayed_whole:
  assumes "chain_from elog None (rs @ as)" and "chain_from elog (tip_of None rs) bs" and "as \<noteq> []" and "bs \<noteq> []"
    and "distinct (rs @ as @ bs)" and "tips = [last as, last bs] \<or> tips = [last bs, last as]"
    and "ForkChoiceLess (eff_fork_choice_hash (node_at elog (last as))) (eff_fork_choice_hash (node_at elog (last bs)))"
  shows "\<exists>d'. prepare elog d tips = Inr d' \<and> dg_topoOrder d' = rs @ as @ bs"
proof -
  have "set [last as, last bs] = set tips" using assms(6) by auto
  note fork = chain_fork [OF assms(1-4) this, of "dg_key d"]
  have anc: "ancestry elog (dg_key d) tips = set (rs @ as @ bs)" and plain: "no_snapshots elog (dg_key d) tips"
    using fork by blast+
  have in_log: "ancestry elog (dg_key d) tips \<subseteq> fset (fmdom elog)"
    using chain_edges [OF assms(1)] chain_edges [OF assms(2)] unfolding anc
    by (auto simp: fmlookup_dom_iff)
  let ?D = "plain_dag elog d tips"
  have node: "fmlookup (dg_nodes ?D) t = fmlookup elog t" if "t \<in> set (rs @ as @ bs)" for t
    using that by (simp add: plain_dag_def anc)
  have la: "last as \<in> set as" "last bs \<in> set bs" using assms(3,4) by simp_all
  have mem: "last as |\<in>| fmdom (dg_nodes ?D)" "last bs |\<in>| fmdom (dg_nodes ?D)"
    "node_at (dg_nodes ?D) (last as) = node_at elog (last as)" "node_at (dg_nodes ?D) (last bs) = node_at elog (last bs)"
    using node [of "last as"] node [of "last bs"] la in_log anc
    by (auto simp: fmlookup_dom_iff node_at_def)
  have sorted: "by_fork_choice (dg_nodes ?D) tips = [last as, last bs]"
    using assms(6,7) mem by (auto simp: by_fork_choice_def ForkChoiceLess_def)
  have first: "topoCollect ?D (last (rs @ as)) ({}, []) = ({} \<union> set (rs @ as), [] @ rs @ as)"
    by (rule topoCollect_chain [OF chain_cong [OF assms(1)]]) (use node assms(3,5) in auto)
  have second: "topoCollect ?D (last bs) (set (rs @ as), rs @ as) = (set (rs @ as) \<union> set bs, (rs @ as) @ bs)"
    by (rule topoCollect_chain [OF chain_cong [OF assms(2)]])
      (use node assms(4,5) in \<open>auto simp: tip_of_def split: if_splits\<close>)
  show ?thesis
    using prepare_plain [OF plain in_log] first second assms(3)
    by (simp add: sorted del: topoCollect.simps)
qed

theorem prepare_converges_witness:
  "\<exists>d'. prepare ex_plain_log (newDag ''k'' []) [Tip 1 2, Tip 2 1] = Inr d' \<and>
        prepare ex_plain_log (newDag ''k'' []) [Tip 2 1, Tip 1 2] = Inr d'"
proof (rule prepare_converges)
  have anc: "ancestry ex_plain_log ''k'' [Tip 1 2, Tip 2 1] \<subseteq> {Tip 1 1, Tip 1 2, Tip 2 1}"
    by (rule ancestry_closed)
      (auto simp: ex_plain_log_def ex_eff_def node_at_def fmap_of_list.rep_eq keyDeps_def getters)
  then show "no_snapshots ex_plain_log (dg_key (newDag ''k'' [])) [Tip 1 2, Tip 2 1]"
    by (auto simp: no_snapshots_def newDag_def ex_plain_log_def ex_eff_def node_at_def fmap_of_list.rep_eq
        state_snapshot_def getters)
  show "ancestry ex_plain_log (dg_key (newDag ''k'' [])) [Tip 1 2, Tip 2 1] \<subseteq> fset (fmdom ex_plain_log)"
    using anc by (auto simp: newDag_def ex_plain_log_def fmlookup_dom_iff fmap_of_list.rep_eq)
  show "inj_on (\<lambda>t. eff_fork_choice_hash (node_at ex_plain_log t)) (set [Tip 1 2, Tip 2 1])"
    by (simp add: ex_plain_log_def ex_eff_def node_at_def fmap_of_list.rep_eq)
qed simp

theorem fork_branches_replayed_whole_witness:
  "\<exists>d'. prepare ex_plain_log (newDag ''k'' []) [Tip 1 2, Tip 2 1] = Inr d' \<and>
        dg_topoOrder d' = [Tip 1 1] @ [Tip 2 1] @ [Tip 1 2]"
  by (rule fork_branches_replayed_whole)
    (simp_all add: ex_plain_log_def ex_eff_def node_at_def fmap_of_list.rep_eq ordinary_def tip_of_def
      getters ForkChoiceLess_def)

end
