(* ===== verification/Causal_Index.thy ===== *)
theory Causal_Index
  imports Dag
begin

text \<open>
  The read-local reachability index (\<open>effects/causal_index.go\<close>): a depth-first search with an
  explicit stack of frames assigns every vertex to a chain of dependent vertices and a clock, the
  furthest ancestor on each chain; reachability is then one comparison. A cyclic history makes
  the index fall back to a plain search with a cached visited set.

  The log is constant over the life of an index. A stack is a list whose head is its top. A Go map
  read of an absent key gives the zero value (\<open>id_of\<close>).
\<close>

section \<open>The model\<close>

record causal_node =
  cn_clock :: "nat list option"
  cn_chain :: nat
  cn_seq :: nat

record causal_index =
  ci_ids :: "(tip, nat) fmap"
  ci_nodes :: "causal_node list"
  ci_heads :: "nat list"
  ci_cyclic :: bool
  ci_fallback :: "(tip, tip set) fmap"

record causal_frame =
  fr_id :: nat
  fr_deps :: "tip list"
  fr_next :: nat

definition newCausalIndex :: causal_index where
  "newCausalIndex = \<lparr>ci_ids = fmempty, ci_nodes = [], ci_heads = [], ci_cyclic = False, ci_fallback = fmempty\<rparr>"

text \<open>\<open>eff, _ := getEffect(tip); eff.GetDeps()\<close>.\<close>

definition log_deps :: "store \<Rightarrow> tip \<Rightarrow> tip list" where
  "log_deps elog t = (case fmlookup elog t of None \<Rightarrow> [] | Some e \<Rightarrow> eff_deps e)"

definition id_of :: "causal_index \<Rightarrow> tip \<Rightarrow> nat" where
  "id_of c t = (case fmlookup (ci_ids c) t of None \<Rightarrow> 0 | Some i \<Rightarrow> i)"

definition ci_push :: "tip \<Rightarrow> causal_index \<Rightarrow> causal_index" where
  "ci_push t c = c\<lparr>ci_ids := fmupd t (length (ci_nodes c)) (ci_ids c),
     ci_nodes := ci_nodes c @ [\<lparr>cn_clock = None, cn_chain = 0, cn_seq = 0\<rparr>]\<rparr>"

lemma ci_push_simps [simp]: "ci_fallback (ci_push t c) = ci_fallback c" "ci_cyclic (ci_push t c) = ci_cyclic c"
  by (simp_all add: ci_push_def)

definition ci_frame :: "store \<Rightarrow> tip \<Rightarrow> causal_index \<Rightarrow> causal_frame" where
  "ci_frame elog t c = \<lparr>fr_id = length (ci_nodes c), fr_deps = log_deps elog t, fr_next = 0\<rparr>"

text \<open>\<open>clock[chain] = max(clock[chain], seq)\<close> over the entries of one dependency's clock.\<close>

fun merge_clock :: "nat list \<Rightarrow> nat list \<Rightarrow> nat list" where
  "merge_clock (x # xs) (y # ys) = max x y # merge_clock xs ys"
| "merge_clock xs ys = xs"

definition clock_of :: "causal_index \<Rightarrow> tip \<Rightarrow> nat list" where
  "clock_of c t = (case cn_clock (ci_nodes c ! id_of c t) of None \<Rightarrow> [] | Some ck \<Rightarrow> ck)"

definition merged_clock :: "causal_index \<Rightarrow> tip list \<Rightarrow> nat list" where
  "merged_clock c deps =
     fold (\<lambda>dep clock. merge_clock clock (clock_of c dep)) deps (replicate (Suc (length (ci_heads c))) 0)"

text \<open>The first chain whose head the clock covers, or a new one.\<close>

definition pick_chain :: "nat list \<Rightarrow> nat list \<Rightarrow> nat" where
  "pick_chain clock heads =
     (case find (\<lambda>i. clock ! i = heads ! i) [0..<length heads] of Some i \<Rightarrow> i | None \<Rightarrow> length heads)"

definition ci_finish :: "causal_frame \<Rightarrow> causal_index \<Rightarrow> causal_index" where
  "ci_finish f c =
     (let clock = merged_clock c (fr_deps f);
          chain = pick_chain clock (ci_heads c);
          heads = (if chain = length (ci_heads c) then ci_heads c @ [1]
                   else (ci_heads c)[chain := Suc (ci_heads c ! chain)]);
          clock' = clock[chain := heads ! chain]
      in c\<lparr>ci_heads := heads,
           ci_nodes := (ci_nodes c)[fr_id f :=
             \<lparr>cn_clock = Some (take (length heads) clock'), cn_chain = chain, cn_seq = clock' ! chain\<rparr>]\<rparr>)"

definition dep_pool :: "store \<Rightarrow> tip set" where
  "dep_pool elog = (\<Union>t \<in> fset (fmdom elog). set (log_deps elog t))"

definition stack_pool :: "store \<Rightarrow> causal_index \<Rightarrow> causal_frame list \<Rightarrow> tip set" where
  "stack_pool elog c stack =
     (dep_pool elog \<union> (\<Union>f \<in> set stack. set (fr_deps f))) - fset (fmdom (ci_ids c))"

lemma finite_dep_pool [simp]: "finite (dep_pool elog)"
  by (simp add: dep_pool_def)

lemma finite_stack_pool [simp]: "finite (stack_pool elog c stack)"
  by (simp add: stack_pool_def)

lemma log_deps_pool: "set (log_deps elog t) \<subseteq> dep_pool elog"
proof (cases "t |\<in>| fmdom elog")
  case False
  then have "fmlookup elog t = None" by (simp add: fmdom_notD)
  then show ?thesis by (simp add: log_deps_def)
qed (auto simp: dep_pool_def)

lemma stack_pool_push:
  assumes "f \<in> set stack" and "dep \<in> set (fr_deps f)" and "fmlookup (ci_ids c) dep = None"
    and "(\<Union>g \<in> set stack'. set (fr_deps g)) \<subseteq> (\<Union>g \<in> set stack. set (fr_deps g))"
  shows "card (stack_pool elog (ci_push dep c) (ci_frame elog dep c # stack')) < card (stack_pool elog c stack)"
proof (rule psubset_card_mono)
  have "dep \<in> stack_pool elog c stack"
    using assms(1-3) by (auto simp: stack_pool_def fmlookup_dom_iff)
  moreover have "dep \<notin> stack_pool elog (ci_push dep c) (ci_frame elog dep c # stack')"
    by (simp add: stack_pool_def ci_push_def)
  moreover have "stack_pool elog (ci_push dep c) (ci_frame elog dep c # stack') \<subseteq> stack_pool elog c stack"
    using assms(4) log_deps_pool [of elog dep] by (auto simp: stack_pool_def ci_push_def ci_frame_def)
  ultimately show "stack_pool elog (ci_push dep c) (ci_frame elog dep c # stack') \<subset> stack_pool elog c stack"
    by blast
qed simp

function (sequential) add_loop ::
  "store \<Rightarrow> causal_index \<Rightarrow> causal_frame list \<Rightarrow> bool \<times> causal_index" where
  "add_loop elog c [] = (True, c)"
| "add_loop elog c (f # stack) =
     (if fr_next f < length (fr_deps f) then
        let dep = fr_deps f ! fr_next f; f' = f\<lparr>fr_next := Suc (fr_next f)\<rparr> in
        (case fmlookup (ci_ids c) dep of
           None \<Rightarrow> add_loop elog (ci_push dep c) (ci_frame elog dep c # f' # stack)
         | Some i \<Rightarrow>
             if cn_clock (ci_nodes c ! i) = None then (False, c\<lparr>ci_cyclic := True\<rparr>)
             else add_loop elog c (f' # stack))
      else add_loop elog (ci_finish f c) stack)"
  by pat_completeness auto
termination
proof (relation "measures [\<lambda>(elog, c, stack). card (stack_pool elog c stack),
    \<lambda>(elog, c, stack). sum_list (map (\<lambda>f. Suc (length (fr_deps f) - fr_next f)) stack)]", goal_cases)
  case (2 elog c f stack dep f')
  have "card (stack_pool elog (ci_push dep c) (ci_frame elog dep c # f' # stack)) < card (stack_pool elog c (f # stack))"
    by (rule stack_pool_push [of f]) (use 2 in auto)
  then show ?case by simp
next
  case (3 elog c f stack dep f' i)
  have "stack_pool elog c (f' # stack) = stack_pool elog c (f # stack)"
    using 3 by (simp add: stack_pool_def)
  then show ?case using 3 by simp
next
  case (4 elog c f stack)
  have "stack_pool elog (ci_finish f c) stack \<subseteq> stack_pool elog c (f # stack)"
    by (auto simp: stack_pool_def ci_finish_def Let_def)
  then have "card (stack_pool elog (ci_finish f c) stack) \<le> card (stack_pool elog c (f # stack))"
    by (simp add: card_mono)
  then show ?case by auto
qed simp

declare add_loop.simps(2) [simp del]

lemma add_loop_cases:
  "fr_next f < length (fr_deps f) \<Longrightarrow> fmlookup (ci_ids c) (fr_deps f ! fr_next f) = None \<Longrightarrow>
   add_loop elog c (f # stack) = add_loop elog (ci_push (fr_deps f ! fr_next f) c)
     (ci_frame elog (fr_deps f ! fr_next f) c # f\<lparr>fr_next := Suc (fr_next f)\<rparr> # stack)"
  "fr_next f < length (fr_deps f) \<Longrightarrow> fmlookup (ci_ids c) (fr_deps f ! fr_next f) = Some i \<Longrightarrow>
   add_loop elog c (f # stack) =
     (if cn_clock (ci_nodes c ! i) = None then (False, c\<lparr>ci_cyclic := True\<rparr>)
      else add_loop elog c (f\<lparr>fr_next := Suc (fr_next f)\<rparr> # stack))"
  "\<not> fr_next f < length (fr_deps f) \<Longrightarrow> add_loop elog c (f # stack) = add_loop elog (ci_finish f c) stack"
  by (subst add_loop.simps(2), simp add: Let_def)+

fun ci_adds :: "store \<Rightarrow> tip list \<Rightarrow> causal_index \<Rightarrow> bool \<times> causal_index" where
  "ci_adds elog [] c = (True, c)"
| "ci_adds elog (t # ts) c =
     (if t |\<in>| fmdom (ci_ids c) then ci_adds elog ts c
      else case add_loop elog (ci_push t c) [ci_frame elog t c] of
             (False, c') \<Rightarrow> (False, c')
           | (True, c') \<Rightarrow> ci_adds elog ts c')"

definition ci_add :: "store \<Rightarrow> tip list \<Rightarrow> causal_index \<Rightarrow> bool \<times> causal_index" where
  "ci_add elog tips c = (if ci_cyclic c then (False, c) else ci_adds elog tips c)"

section \<open>The fallback\<close>

fun push_new :: "tip list \<Rightarrow> tip list \<times> tip set \<Rightarrow> tip list \<times> tip set" where
  "push_new [] (stack, visited) = (stack, visited)"
| "push_new (t # ts) (stack, visited) =
     (if t \<in> visited then push_new ts (stack, visited) else push_new ts (t # stack, insert t visited))"

lemma push_new_spec:
  "push_new ts (stack, visited) = (stack', visited') \<Longrightarrow>
   visited' = visited \<union> set ts \<and> set stack' = set stack \<union> (set ts - visited)"
  by (induction ts arbitrary: stack visited) (auto split: if_splits)

lemma push_new_length:
  assumes "push_new ts (stack, visited) = (stack', visited')" and "finite (U - visited)" and "set ts \<subseteq> U"
  shows "card (U - visited') + length stack' = card (U - visited) + length stack"
  using assms
proof (induction ts arbitrary: stack visited)
  case (Cons t ts)
  show ?case
  proof (cases "t \<in> visited")
    case False
    then have "t \<in> U - visited" using Cons.prems(3) by simp
    moreover have "U - insert t visited = U - visited - {t}" by blast
    ultimately have "card (U - visited) = Suc (card (U - insert t visited))"
      using Cons.prems(2) by (simp only: card.remove)
    moreover have "finite (U - insert t visited)"
      using Cons.prems(2) by (rule finite_subset [rotated]) blast
    ultimately show ?thesis
      using Cons.IH [of "t # stack" "insert t visited"] Cons.prems False by simp
  qed (use Cons in simp)
qed simp

function (sequential) cyclic_loop :: "store \<Rightarrow> tip list \<Rightarrow> tip set \<Rightarrow> tip set" where
  "cyclic_loop elog [] visited = visited"
| "cyclic_loop elog (cur # stack) visited =
     (case push_new (log_deps elog cur) (stack, visited) of (stack', visited') \<Rightarrow>
        cyclic_loop elog stack' visited')"
  by pat_completeness auto
termination
proof (relation "measure (\<lambda>(elog, stack, visited). card (dep_pool elog - visited) + length stack)", goal_cases)
  case (2 elog cur stack visited stack' visited')
  have "card (dep_pool elog - visited') + length stack' = card (dep_pool elog - visited) + length stack"
    using 2 by (intro push_new_length [OF _ _ log_deps_pool]) simp_all
  then show ?case by simp
qed simp

definition reachesCyclic :: "store \<Rightarrow> tip \<Rightarrow> tip \<Rightarrow> causal_index \<Rightarrow> bool \<times> causal_index" where
  "reachesCyclic elog source target c =
     (case fmlookup (ci_fallback c) source of
        Some visited \<Rightarrow> (target \<in> visited, c)
      | None \<Rightarrow>
          let visited = cyclic_loop elog [source] {source}
          in (target \<in> visited, c\<lparr>ci_fallback := fmupd source visited (ci_fallback c)\<rparr>))"

definition ci_reaches :: "store \<Rightarrow> tip \<Rightarrow> tip \<Rightarrow> causal_index \<Rightarrow> bool \<times> causal_index" where
  "ci_reaches elog source target c =
     (if source = target then (True, c)
      else case ci_add elog [source] c of
             (False, c1) \<Rightarrow> reachesCyclic elog source target c1
           | (True, c1) \<Rightarrow>
               (case fmlookup (ci_ids c1) target of
                  None \<Rightarrow> (False, c1)
                | Some i \<Rightarrow>
                    let ancestor = ci_nodes c1 ! i; clock = clock_of c1 source
                    in (cn_chain ancestor < length clock \<and> clock ! cn_chain ancestor \<ge> cn_seq ancestor, c1)))"

section \<open>Candidate chains\<close>

text \<open>\<open>sort.Search\<close> with a predicate that may change the index.\<close>

function (sequential) search_loop ::
  "(nat \<Rightarrow> 's \<Rightarrow> bool \<times> 's) \<Rightarrow> nat \<Rightarrow> nat \<Rightarrow> 's \<Rightarrow> nat \<times> 's" where
  "search_loop f i j s =
     (if i < j then
        let h = (i + j) div 2 in
        (case f h s of (b, s') \<Rightarrow> if \<not> b then search_loop f (Suc h) j s' else search_loop f i h s')
      else (i, s))"
  by pat_completeness auto
termination
  by (relation "measure (\<lambda>(f, i, j, s). j - i)") auto

declare search_loop.simps [simp del]

definition sort_search :: "nat \<Rightarrow> (nat \<Rightarrow> 's \<Rightarrow> bool \<times> 's) \<Rightarrow> 's \<Rightarrow> nat \<times> 's" where
  "sort_search n f s = search_loop f 0 n s"

definition candidateChains :: "store \<Rightarrow> tip list \<Rightarrow> causal_index \<Rightarrow> nat list list \<times> causal_index" where
  "candidateChains elog tips c =
     (case ci_add elog tips c of
        (False, c1) \<Rightarrow> ([[0..<length tips]], c1)
      | (True, c1) \<Rightarrow>
          let node = (\<lambda>i. ci_nodes c1 ! id_of c1 (tips ! i))
          in (map (\<lambda>k. sort_key (\<lambda>i. cn_seq (node i)) (filter (\<lambda>i. cn_chain (node i) = k) [0..<length tips]))
                [0..<length (ci_heads c1)], c1))"

definition concurrentRange ::
  "store \<Rightarrow> tip \<Rightarrow> nat list \<Rightarrow> tip list \<Rightarrow> causal_index \<Rightarrow> (nat \<times> nat) \<times> causal_index" where
  "concurrentRange elog t chain tips c =
     (if ci_cyclic c then ((0, length chain), c)
      else case sort_search (length chain)
                  (\<lambda>i c. case ci_reaches elog t (tips ! (chain ! i)) c of (b, c') \<Rightarrow> (\<not> b, c')) c of
             (first, c1) \<Rightarrow>
               (case sort_search (length chain) (\<lambda>i. ci_reaches elog (tips ! (chain ! i)) t) c1 of
                  (lst, c2) \<Rightarrow> ((first, max first lst), c2)))"

end
