(* ===== verification/Causal_Reach.thy ===== *)
theory Causal_Reach
  imports Causal_Index
begin

text \<open>
  Correctness of the reachability index: its answers are those of a search of the dependency graph,
  in every state it can get into, cyclic histories included.
\<close>

section \<open>The dependency relation\<close>

definition dep_rel :: "store \<Rightarrow> tip rel" where
  "dep_rel elog = {(t, u). u \<in> set (log_deps elog t)}"

definition happens_before :: "store \<Rightarrow> tip \<Rightarrow> tip \<Rightarrow> bool" where
  "happens_before elog u t \<longleftrightarrow> (t, u) \<in> (dep_rel elog)\<^sup>*"

section \<open>The fallback search\<close>

lemma cyclic_loop_spec:
  assumes "set stack \<subseteq> visited" and "\<forall>t \<in> visited - set stack. set (log_deps elog t) \<subseteq> visited"
    and "visited \<subseteq> (dep_rel elog)\<^sup>* `` {s}"
  shows "visited \<subseteq> cyclic_loop elog stack visited \<and>
    (\<forall>t \<in> cyclic_loop elog stack visited. set (log_deps elog t) \<subseteq> cyclic_loop elog stack visited) \<and>
    cyclic_loop elog stack visited \<subseteq> (dep_rel elog)\<^sup>* `` {s}"
  using assms
proof (induction elog stack visited rule: cyclic_loop.induct)
  case (2 elog cur stack visited)
  obtain stack' visited' where p: "push_new (log_deps elog cur) (stack, visited) = (stack', visited')"
    by fastforce
  note new = push_new_spec [OF p]
  have "visited' \<subseteq> (dep_rel elog)\<^sup>* `` {s}"
    using 2(2,4) new by (auto simp: dep_rel_def intro: rtrancl_into_rtrancl)
  moreover have "set stack' \<subseteq> visited'" "\<forall>t \<in> visited' - set stack'. set (log_deps elog t) \<subseteq> visited'"
    using 2(2,3) new by auto
  ultimately show ?case
    using "2.IH" [OF p [symmetric]] new p by auto
qed simp

lemma cyclic_loop_reach: "t \<in> cyclic_loop elog [s] {s} \<longleftrightarrow> happens_before elog t s"
proof -
  define V where "V = cyclic_loop elog [s] {s}"
  have V: "s \<in> V" "\<forall>t \<in> V. set (log_deps elog t) \<subseteq> V" "V \<subseteq> (dep_rel elog)\<^sup>* `` {s}"
    using cyclic_loop_spec [of "[s]" "{s}" elog s] by (auto simp: V_def)
  have "t \<in> V" if "(s, t) \<in> (dep_rel elog)\<^sup>*"
    using that
  proof (induction rule: rtrancl_induct)
    case (step y z)
    then show ?case using V(2) unfolding dep_rel_def by blast
  qed (rule V(1))
  then show ?thesis
    using V(3) unfolding V_def [symmetric] by (auto simp: happens_before_def)
qed

section \<open>Merging clocks\<close>

lemma length_merge_clock [simp]: "length (merge_clock xs ys) = length xs"
  by (induction xs ys rule: merge_clock.induct) auto

lemma merge_clock_nth:
  "k < length xs \<Longrightarrow> merge_clock xs ys ! k = (if k < length ys then max (xs ! k) (ys ! k) else xs ! k)"
  by (induction xs ys arbitrary: k rule: merge_clock.induct) (auto simp: nth_Cons split: nat.splits)

lemma fold_merge_clock:
  "length (fold (\<lambda>dep ck. merge_clock ck (g dep)) deps ck) = length ck"
  "k < length ck \<Longrightarrow> q \<le> fold (\<lambda>dep ck. merge_clock ck (g dep)) deps ck ! k \<longleftrightarrow>
     q \<le> ck ! k \<or> (\<exists>dep \<in> set deps. k < length (g dep) \<and> q \<le> g dep ! k)"
  by (induction deps arbitrary: ck) (auto simp: merge_clock_nth)

lemma length_merged_clock [simp]: "length (merged_clock c deps) = Suc (length (ci_heads c))"
  by (simp add: merged_clock_def fold_merge_clock)

lemma merged_clock_nth:
  "k \<le> length (ci_heads c) \<Longrightarrow> 1 \<le> q \<Longrightarrow> q \<le> merged_clock c deps ! k \<longleftrightarrow>
     (\<exists>dep \<in> set deps. k < length (clock_of c dep) \<and> q \<le> clock_of c dep ! k)"
  by (simp add: merged_clock_def fold_merge_clock less_Suc_eq_le del: replicate_Suc)

lemma pick_chain_cases:
  obtains "pick_chain ck heads < length heads" "ck ! pick_chain ck heads = heads ! pick_chain ck heads"
  | "pick_chain ck heads = length heads"
  by (cases "find (\<lambda>i. ck ! i = heads ! i) [0..<length heads]")
    (auto simp: pick_chain_def find_Some_iff)

section \<open>The invariant\<close>

text \<open>\<open>ts\<close> lists the indexed addresses by their ids.\<close>

definition names :: "tip list \<Rightarrow> causal_index \<Rightarrow> bool" where
  "names ts c \<longleftrightarrow> distinct ts \<and> length ts = length (ci_nodes c) \<and>
     (\<forall>t i. fmlookup (ci_ids c) t = Some i \<longleftrightarrow> i < length ts \<and> ts ! i = t)"

definition fin :: "causal_index \<Rightarrow> nat set" where
  "fin c = {i. i < length (ci_nodes c) \<and> cn_clock (ci_nodes c ! i) \<noteq> None}"

abbreviation chain_at :: "causal_index \<Rightarrow> nat \<Rightarrow> nat" where
  "chain_at c i \<equiv> cn_chain (ci_nodes c ! i)"

abbreviation seq_at :: "causal_index \<Rightarrow> nat \<Rightarrow> nat" where
  "seq_at c i \<equiv> cn_seq (ci_nodes c ! i)"

definition clk :: "causal_index \<Rightarrow> nat \<Rightarrow> nat list" where
  "clk c i = (case cn_clock (ci_nodes c ! i) of None \<Rightarrow> [] | Some ck \<Rightarrow> ck)"

definition covers :: "causal_index \<Rightarrow> nat \<Rightarrow> nat \<Rightarrow> bool" where
  "covers c i j \<longleftrightarrow> chain_at c j < length (clk c i) \<and> seq_at c j \<le> clk c i ! chain_at c j"

definition chains_ok :: "store \<Rightarrow> tip list \<Rightarrow> causal_index \<Rightarrow> bool" where
  "chains_ok elog ts c \<longleftrightarrow>
     (\<forall>i \<in> fin c. set (log_deps elog (ts ! i)) \<subseteq> (!) ts ` fin c) \<and>
     (\<forall>i \<in> fin c. length (clk c i) \<le> length (ci_heads c) \<and>
        (\<forall>k < length (clk c i). clk c i ! k \<le> ci_heads c ! k)) \<and>
     (\<forall>i \<in> fin c. chain_at c i < length (ci_heads c) \<and> 1 \<le> seq_at c i \<and>
        seq_at c i \<le> ci_heads c ! chain_at c i) \<and>
     (\<forall>k < length (ci_heads c). \<exists>i \<in> fin c. chain_at c i = k \<and> seq_at c i = ci_heads c ! k) \<and>
     (\<forall>i \<in> fin c. \<forall>j \<in> fin c. chain_at c i = chain_at c j \<longrightarrow> seq_at c j \<le> seq_at c i \<longrightarrow>
        (ts ! i, ts ! j) \<in> (dep_rel elog)\<^sup>*) \<and>
     (\<forall>i \<in> fin c. \<forall>j \<in> fin c. (ts ! i, ts ! j) \<in> (dep_rel elog)\<^sup>* \<longleftrightarrow> covers c i j)"

lemma fin_closed:
  assumes "chains_ok elog ts c" and "i \<in> fin c" and "(ts ! i, t) \<in> (dep_rel elog)\<^sup>*"
  shows "\<exists>j \<in> fin c. t = ts ! j"
  using assms(3)
proof (induction rule: rtrancl_induct)
  case base
  show ?case using assms(2) by blast
next
  case (step y z)
  then show ?case using assms(1) by (auto simp: chains_ok_def dep_rel_def)
qed

lemma names_nth_inj: "names ts c \<Longrightarrow> i < length ts \<Longrightarrow> j < length ts \<Longrightarrow> ts ! i = ts ! j \<longleftrightarrow> i = j"
  by (simp add: names_def nth_eq_iff_index_eq)

lemma names_lookup: "names ts c \<Longrightarrow> i < length ts \<Longrightarrow> fmlookup (ci_ids c) (ts ! i) = Some i"
  by (simp add: names_def)

lemma names_id_of: "names ts c \<Longrightarrow> i < length ts \<Longrightarrow> id_of c (ts ! i) = i"
  by (simp add: names_lookup id_of_def)

lemma names_clock_of: "names ts c \<Longrightarrow> i < length ts \<Longrightarrow> clock_of c (ts ! i) = clk c i"
  by (simp add: clock_of_def clk_def names_id_of)

lemma fin_less: "names ts c \<Longrightarrow> i \<in> fin c \<Longrightarrow> i < length ts"
  by (simp add: names_def fin_def)

section \<open>Finishing a vertex\<close>

text \<open>The vertex \<open>n\<close> is placed on chain \<open>ch\<close> with clock \<open>ck\<close>; nothing else changes.\<close>

lemma chains_ok_extend:
  assumes ok: "chains_ok elog ts c" and nm: "names ts c" and n: "n < length ts" "n \<notin> fin c"
    and deps: "set (log_deps elog (ts ! n)) \<subseteq> (!) ts ` fin c"
    and c': "ci_nodes c' = (ci_nodes c)[n := \<lparr>cn_clock = Some ck, cn_chain = ch, cn_seq = sq\<rparr>]" "ci_heads c' = heads'"
    and ch: "ch < length heads'" "sq = heads' ! ch" "1 \<le> sq"
    and heads: "length (ci_heads c) \<le> length heads'" "\<forall>k < length (ci_heads c). ci_heads c ! k \<le> heads' ! k"
      "\<forall>k < length heads'. k \<noteq> ch \<longrightarrow> k < length (ci_heads c) \<and> heads' ! k = ci_heads c ! k"
      "ch < length (ci_heads c) \<longrightarrow> ci_heads c ! ch < sq"
    and ck: "length ck = length heads'" "ck ! ch = sq" "\<forall>k < length ck. ck ! k \<le> heads' ! k"
    and reach: "\<And>j. j \<in> fin c \<Longrightarrow> (ts ! n, ts ! j) \<in> (dep_rel elog)\<^sup>* \<longleftrightarrow> seq_at c j \<le> ck ! chain_at c j"
  shows "chains_ok elog ts c' \<and> fin c' = insert n (fin c)"
proof -
  have len: "n < length (ci_nodes c)" using nm n by (simp add: names_def)
  have fin': "fin c' = insert n (fin c)"
    using len n(2) by (auto simp: fin_def c' nth_list_update)
  have at_n: "chain_at c' n = ch" "seq_at c' n = sq" "clk c' n = ck"
    using len by (simp_all add: c' clk_def)
  have at: "chain_at c' i = chain_at c i" "seq_at c' i = seq_at c i" "clk c' i = clk c i" if "i \<in> fin c" for i
  proof -
    have "n \<noteq> i" using that n(2) by auto
    then show "chain_at c' i = chain_at c i" "seq_at c' i = seq_at c i" "clk c' i = clk c i"
      by (simp_all add: c' clk_def)
  qed
  have cov_n: "covers c' n j \<longleftrightarrow> (ts ! n, ts ! j) \<in> (dep_rel elog)\<^sup>*" if "j \<in> fin c" for j
    using that reach ok ck(1) heads(1) by (auto simp: covers_def at_n at chains_ok_def)
  have not_reach: "(ts ! i, ts ! n) \<notin> (dep_rel elog)\<^sup>*" if "i \<in> fin c" for i
    using fin_closed [OF ok that, of "ts ! n"] names_nth_inj [OF nm n(1)] fin_less [OF nm] n(2) by auto
  have not_cov: "\<not> covers c' i n" if "i \<in> fin c" for i
  proof (cases "ch < length (clk c i)")
    case True
    then have "ch < length (ci_heads c)" "clk c i ! ch \<le> ci_heads c ! ch"
      using ok that by (auto simp: chains_ok_def)
    then show ?thesis using that heads(4) by (simp add: covers_def at at_n)
  qed (use that in \<open>simp add: covers_def at at_n\<close>)
  have cov: "covers c' i j \<longleftrightarrow> covers c i j" if "i \<in> fin c" "j \<in> fin c" for i j
    using that by (simp add: covers_def at)
  have cov_nn: "covers c' n n" using ch(1) ck(1,2) by (simp add: covers_def at_n)
  have clocks: "length (clk c' i) \<le> length heads' \<and> (\<forall>k < length (clk c' i). clk c' i ! k \<le> heads' ! k)"
    if "i \<in> fin c'" for i
    using that ok heads(1,2) ck unfolding fin' chains_ok_def
    by (auto simp: at_n at) (meson le_trans less_le_trans)
  have places: "chain_at c' i < length heads' \<and> 1 \<le> seq_at c' i \<and> seq_at c' i \<le> heads' ! chain_at c' i"
    if "i \<in> fin c'" for i
    using that ok heads(1,2) ch unfolding fin' chains_ok_def
    by (auto simp: at_n at) (meson le_trans)
  have tops: "\<exists>i \<in> fin c'. chain_at c' i = k \<and> seq_at c' i = heads' ! k" if k: "k < length heads'" for k
  proof (cases "k = ch")
    case True
    then show ?thesis using ch(2) by (auto simp: fin' at_n)
  next
    case False
    then have "k < length (ci_heads c)" "heads' ! k = ci_heads c ! k" using heads(3) k by auto
    moreover obtain i where "i \<in> fin c" "chain_at c i = k" "seq_at c i = ci_heads c ! k"
      using ok \<open>k < length (ci_heads c)\<close> unfolding chains_ok_def by blast
    ultimately show ?thesis by (auto simp: fin' at)
  qed
  have along: "(ts ! i, ts ! j) \<in> (dep_rel elog)\<^sup>*"
    if i: "i \<in> fin c'" and j: "j \<in> fin c'" and ij: "chain_at c' i = chain_at c' j" "seq_at c' j \<le> seq_at c' i" for i j
  proof -
    consider "i = n" "j = n" | "i = n" "j \<in> fin c" | "i \<in> fin c" "j = n" | "i \<in> fin c" "j \<in> fin c"
      using i j fin' by auto
    then show ?thesis
    proof cases
      case 2
      then show ?thesis using reach [of j] ij ck(2) by (simp add: at at_n)
    next
      case 3
      then have "seq_at c i \<le> ci_heads c ! ch" "ch < length (ci_heads c)"
        using ij ok by (auto simp: at at_n chains_ok_def)
      then show ?thesis using 3 ij heads(4) by (simp add: at at_n)
    next
      case 4
      then show ?thesis using ij ok by (simp add: at chains_ok_def)
    qed simp
  qed
  have closed: "set (log_deps elog (ts ! i)) \<subseteq> (!) ts ` fin c'" if "i \<in> fin c'" for i
    using that ok deps unfolding fin' chains_ok_def by blast
  have reaches: "(ts ! i, ts ! j) \<in> (dep_rel elog)\<^sup>* \<longleftrightarrow> covers c' i j" if "i \<in> fin c'" "j \<in> fin c'" for i j
    using that ok cov cov_n cov_nn not_cov not_reach unfolding fin' chains_ok_def by blast
  show ?thesis
    using fin' clocks places tops along closed reaches unfolding chains_ok_def c'(2) by blast
qed

lemma dep_rel_star:
  "t \<noteq> u \<Longrightarrow> (t, u) \<in> (dep_rel elog)\<^sup>* \<longleftrightarrow> (\<exists>d \<in> set (log_deps elog t). (d, u) \<in> (dep_rel elog)\<^sup>*)"
  by (auto simp: dep_rel_def elim: converse_rtranclE intro: converse_rtrancl_into_rtrancl)

lemma merged_reach:
  assumes ok: "chains_ok elog ts c" and nm: "names ts c" and n: "n < length ts" "n \<notin> fin c"
    and deps: "set (log_deps elog (ts ! n)) \<subseteq> (!) ts ` fin c" and j: "j \<in> fin c"
  shows "(ts ! n, ts ! j) \<in> (dep_rel elog)\<^sup>* \<longleftrightarrow>
    seq_at c j \<le> merged_clock c (log_deps elog (ts ! n)) ! chain_at c j"
proof -
  have place: "chain_at c j < length (ci_heads c)" "1 \<le> seq_at c j"
    using ok j by (auto simp: chains_ok_def)
  have cov: "(d, ts ! j) \<in> (dep_rel elog)\<^sup>* \<longleftrightarrow>
      chain_at c j < length (clock_of c d) \<and> seq_at c j \<le> clock_of c d ! chain_at c j"
    if d: "d \<in> set (log_deps elog (ts ! n))" for d
  proof -
    obtain i where i: "i \<in> fin c" "d = ts ! i" using deps d by blast
    then show ?thesis
      using ok j names_clock_of [OF nm fin_less [OF nm i(1)]] by (simp add: chains_ok_def covers_def)
  qed
  have "ts ! n \<noteq> ts ! j"
    using names_nth_inj [OF nm n(1) fin_less [OF nm j]] n(2) j by auto
  then show ?thesis
    using cov place by (simp add: dep_rel_star merged_clock_nth)
qed

lemma merged_bound:
  assumes ok: "chains_ok elog ts c" and nm: "names ts c"
    and deps: "set ds \<subseteq> (!) ts ` fin c" and k: "k < length (ci_heads c)"
  shows "merged_clock c ds ! k \<le> ci_heads c ! k"
proof (rule ccontr)
  assume "\<not> merged_clock c ds ! k \<le> ci_heads c ! k"
  then obtain d where d: "d \<in> set ds" "k < length (clock_of c d)" "ci_heads c ! k < clock_of c d ! k"
    using merged_clock_nth [of k c "Suc (ci_heads c ! k)" ds] k by auto
  then obtain i where "i \<in> fin c" "d = ts ! i" using deps by auto
  then show False
    using d ok names_clock_of [OF nm fin_less [OF nm]] by (fastforce simp: chains_ok_def)
qed

lemma chains_ok_finish:
  assumes ok: "chains_ok elog ts c" and nm: "names ts c" and n: "fr_id f < length ts" "fr_id f \<notin> fin c"
    and f: "fr_deps f = log_deps elog (ts ! fr_id f)" and deps: "set (fr_deps f) \<subseteq> (!) ts ` fin c"
  shows "chains_ok elog ts (ci_finish f c) \<and> fin (ci_finish f c) = insert (fr_id f) (fin c)"
proof -
  define m where "m = merged_clock c (fr_deps f)"
  define h where "h = ci_heads c"
  have len: "length m = Suc (length h)" by (simp add: m_def h_def)
  have bound: "m ! k \<le> h ! k" if "k < length h" for k
    using merged_bound [OF ok nm deps] that by (simp add: m_def h_def)
  have reach: "(ts ! fr_id f, ts ! j) \<in> (dep_rel elog)\<^sup>* \<longleftrightarrow> seq_at c j \<le> m ! chain_at c j" if "j \<in> fin c" for j
    using merged_reach [OF ok nm n _ that] deps f by (simp add: m_def)
  have place: "chain_at c j < length h" "seq_at c j \<le> h ! chain_at c j" if "j \<in> fin c" for j
    using ok that by (auto simp: chains_ok_def h_def)
  let ?p = "pick_chain m h"
  define h' where "h' = (if ?p = length h then h @ [1] else h[?p := Suc (h ! ?p)])"
  have finish: "ci_nodes (ci_finish f c) = (ci_nodes c)[fr_id f :=
      \<lparr>cn_clock = Some (take (length h') (m[?p := h' ! ?p])), cn_chain = ?p, cn_seq = m[?p := h' ! ?p] ! ?p\<rparr>]"
    "ci_heads (ci_finish f c) = h'"
    by (simp_all add: ci_finish_def Let_def m_def h_def h'_def)
  note ext = chains_ok_extend [OF ok nm n]
  have d: "set (log_deps elog (ts ! fr_id f)) \<subseteq> (!) ts ` fin c" using deps f by simp
  show ?thesis
  proof (cases rule: pick_chain_cases [of m h])
    case 1
    obtain top where top: "top \<in> fin c" "chain_at c top = ?p" "seq_at c top = h ! ?p"
      using ok 1(1) unfolding chains_ok_def h_def by blast
    have "(ts ! fr_id f, ts ! j) \<in> (dep_rel elog)\<^sup>* \<longleftrightarrow> seq_at c j \<le> m[?p := Suc (h ! ?p)] ! chain_at c j"
      if j: "j \<in> fin c" for j
    proof (cases "chain_at c j = ?p")
      case True
      have "(ts ! fr_id f, ts ! top) \<in> (dep_rel elog)\<^sup>*"
        using reach [OF top(1)] top 1(2) by simp
      moreover have "(ts ! top, ts ! j) \<in> (dep_rel elog)\<^sup>*"
        using ok top j True place(2) [OF j] unfolding chains_ok_def by auto
      ultimately show ?thesis
        using True place(2) [OF j] 1(1) len by (auto intro: rtrancl_trans)
    qed (use reach [OF j] in simp)
    then show ?thesis
      using d 1(1) len bound place(1)
      by (intro ext [where ck = "take (length h) (m[?p := Suc (h ! ?p)])" and ch = ?p and sq = "Suc (h ! ?p)"
            and heads' = h'])
        (auto simp: finish h'_def h_def [symmetric] nth_list_update)
  next
    case 2
    have "(ts ! fr_id f, ts ! j) \<in> (dep_rel elog)\<^sup>* \<longleftrightarrow> seq_at c j \<le> m[length h := 1] ! chain_at c j"
      if "j \<in> fin c" for j
      using reach [OF that] place(1) [OF that] by simp
    with 2 show ?thesis
      using d len bound
      by (intro ext [where ck = "m[length h := 1]" and ch = "length h" and sq = 1 and heads' = h'])
        (auto simp: finish h'_def h_def [symmetric] nth_append nth_list_update less_Suc_eq)
  qed
qed

section \<open>The search\<close>

definition stack_ok :: "store \<Rightarrow> tip list \<Rightarrow> causal_index \<Rightarrow> causal_frame list \<Rightarrow> bool" where
  "stack_ok elog ts c stack \<longleftrightarrow>
     distinct (map fr_id stack) \<and> fr_id ` set stack = {..<length ts} - fin c \<and>
     (\<forall>f \<in> set stack. fr_deps f = log_deps elog (ts ! fr_id f)) \<and>
     (\<forall>as f bs. stack = as @ f # bs \<longrightarrow>
        set (take (fr_next f) (fr_deps f)) \<subseteq> (!) ts ` (fin c \<union> fr_id ` set as))"

definition search_ok :: "store \<Rightarrow> tip list \<Rightarrow> causal_index \<Rightarrow> causal_frame list \<Rightarrow> bool" where
  "search_ok elog ts c stack \<longleftrightarrow> names ts c \<and> chains_ok elog ts c \<and> stack_ok elog ts c stack"

lemma chains_ok_cong:
  assumes "chains_ok elog ts c" and "fin c' = fin c" and "ci_heads c' = ci_heads c"
    and "\<And>i. i \<in> fin c \<Longrightarrow> ci_nodes c' ! i = ci_nodes c ! i \<and> ts' ! i = ts ! i"
  shows "chains_ok elog ts' c'"
proof -
  have "(!) ts' ` fin c = (!) ts ` fin c" using assms(4) by (auto intro!: image_cong)
  moreover have "clk c' i = clk c i" if "i \<in> fin c" for i using assms(4) [OF that] by (simp add: clk_def)
  ultimately show ?thesis
    using assms unfolding chains_ok_def covers_def by simp
qed

lemma search_ok_push:
  assumes nm: "names ts c" and ok: "chains_ok elog ts c" and new: "fmlookup (ci_ids c) t = None"
  shows "names (ts @ [t]) (ci_push t c) \<and> chains_ok elog (ts @ [t]) (ci_push t c) \<and> fin (ci_push t c) = fin c"
proof -
  have len: "length ts = length (ci_nodes c)" using nm by (simp add: names_def)
  have t: "t \<notin> set ts"
    using names_lookup [OF nm] new by (auto simp: in_set_conv_nth)
  have "fmlookup (ci_ids (ci_push t c)) u = Some i \<longleftrightarrow> i < length (ts @ [t]) \<and> (ts @ [t]) ! i = u" for u i
    using nm t unfolding names_def ci_push_def by (auto simp: nth_append less_Suc_eq)
  then have names': "names (ts @ [t]) (ci_push t c)"
    using nm t by (auto simp: names_def ci_push_def)
  have fin': "fin (ci_push t c) = fin c"
    by (auto simp: fin_def ci_push_def nth_append)
  have "chains_ok elog (ts @ [t]) (ci_push t c)"
    by (rule chains_ok_cong [OF ok fin'])
      (auto simp: ci_push_def nth_append fin_def len)
  with names' fin' show ?thesis by blast
qed

lemma nth_image_append: "(\<And>i. i \<in> I \<Longrightarrow> i < length xs) \<Longrightarrow> (!) (xs @ ys) ` I = (!) xs ` I"
  by (auto intro!: image_cong simp: nth_append)

lemma stack_ok_push:
  assumes nm: "names ts c" and st: "stack_ok elog ts c (f # stack)" and more: "fr_next f < length (fr_deps f)"
    and new: "fmlookup (ci_ids c) (fr_deps f ! fr_next f) = None"
  shows "stack_ok elog (ts @ [fr_deps f ! fr_next f]) (ci_push (fr_deps f ! fr_next f) c)
    (ci_frame elog (fr_deps f ! fr_next f) c # f\<lparr>fr_next := Suc (fr_next f)\<rparr> # stack)"
proof -
  let ?t = "fr_deps f ! fr_next f"
  let ?f = "f\<lparr>fr_next := Suc (fr_next f)\<rparr>" and ?g = "ci_frame elog ?t c" and ?ts = "ts @ [?t]"
  have len: "length ts = length (ci_nodes c)" using nm by (simp add: names_def)
  have fin': "fin (ci_push ?t c) = fin c" by (auto simp: fin_def ci_push_def nth_append)
  have less: "i < length ts" if "i \<in> fin c \<or> i \<in> fr_id ` set (f # stack)" for i
    using that st len by (auto simp: stack_ok_def fin_def)
  have ids: "fr_id ` set (f # stack) = {..<length ts} - fin c" using st by (simp add: stack_ok_def)
  have order: "set (take (fr_next h) (fr_deps h)) \<subseteq> (!) ?ts ` (fin c \<union> fr_id ` set as)"
    if split: "?g # ?f # stack = as @ h # bs" for as h bs
  proof -
    consider "as = []" "h = ?g" | "as = [?g]" "h = ?f" | as' where "as = ?g # ?f # as'" "stack = as' @ h # bs"
      using split by (cases as; cases "tl as") auto
    then show ?thesis
    proof cases
      case 1
      then show ?thesis by (simp add: ci_frame_def)
    next
      case 2
      have "set (take (fr_next f) (fr_deps f)) \<subseteq> (!) ts ` fin c"
        using st unfolding stack_ok_def by (metis append_Nil image_empty list.set(1) sup_bot.right_neutral)
      then have "set (take (fr_next f) (fr_deps f)) \<subseteq> (!) ?ts ` fin c"
        using less by (simp add: nth_image_append)
      then show ?thesis
        using 2 more len by (auto simp: take_Suc_conv_app_nth ci_frame_def nth_append)
    next
      case 3
      then have "set (take (fr_next h) (fr_deps h)) \<subseteq> (!) ts ` (fin c \<union> fr_id ` set (f # as'))"
        using st unfolding stack_ok_def by (metis append_Cons)
      moreover have "i < length ts" if "i \<in> fin c \<union> fr_id ` set (f # as')" for i
        using that less [of i] 3(2) by auto
      ultimately have "set (take (fr_next h) (fr_deps h)) \<subseteq> (!) ?ts ` (fin c \<union> fr_id ` set (f # as'))"
        by (simp only: nth_image_append)
      then show ?thesis using 3(1) by auto
    qed
  qed
  have "fr_id ` set (?g # ?f # stack) = insert (length ts) ({..<length ts} - fin c)"
    using ids len by (simp add: ci_frame_def)
  also have "\<dots> = {..<length ?ts} - fin c" using less by auto
  finally have ids': "fr_id ` set (?g # ?f # stack) = {..<length ?ts} - fin c" .
  have "length ts \<notin> fr_id ` set (f # stack)" using ids by auto
  then have dist: "distinct (map fr_id (?g # ?f # stack))"
    using st len by (auto simp: stack_ok_def ci_frame_def)
  have deps': "fr_deps h = log_deps elog (?ts ! fr_id h)" if "h \<in> set (?g # ?f # stack)" for h
    using that st less len by (auto simp: stack_ok_def ci_frame_def nth_append)
  show ?thesis
    unfolding stack_ok_def fin'
    by (intro conjI ballI allI impI) (rule dist, rule ids', erule deps', erule order)
qed

lemma stack_ok_split:
  "stack_ok elog ts c (as @ f # bs) \<Longrightarrow>
   set (take (fr_next f) (fr_deps f)) \<subseteq> (!) ts ` (fin c \<union> fr_id ` set as)"
  unfolding stack_ok_def by (elim conjE) (erule allE, erule allE, erule allE, erule mp, rule refl)

lemma stack_ok_top:
  "stack_ok elog ts c (f # stack) \<Longrightarrow> set (take (fr_next f) (fr_deps f)) \<subseteq> (!) ts ` fin c"
  using stack_ok_split [of elog ts c "[]"] by simp

lemma stack_ok_step:
  assumes st: "stack_ok elog ts c (f # stack)" and more: "fr_next f < length (fr_deps f)"
    and seen: "fr_deps f ! fr_next f \<in> (!) ts ` fin c"
  shows "stack_ok elog ts c (f\<lparr>fr_next := Suc (fr_next f)\<rparr> # stack)"
proof -
  let ?f = "f\<lparr>fr_next := Suc (fr_next f)\<rparr>"
  note top = stack_ok_top [OF st]
  have "set (take (fr_next h) (fr_deps h)) \<subseteq> (!) ts ` (fin c \<union> fr_id ` set as)"
    if split: "?f # stack = as @ h # bs" for as h bs
  proof (cases as)
    case Nil
    then show ?thesis using split top more seen by (auto simp: take_Suc_conv_app_nth)
  next
    case (Cons a as')
    then have a: "a = ?f" and "f # stack = (f # as') @ h # bs" using split by simp_all
    then have "stack_ok elog ts c ((f # as') @ h # bs)" using st by simp
    from stack_ok_split [OF this] show ?thesis using Cons a by simp
  qed
  then show ?thesis
    using st unfolding stack_ok_def by simp
qed

lemma stack_ok_finish:
  assumes st: "stack_ok elog ts c (f # stack)" and fin': "fin c' = insert (fr_id f) (fin c)"
  shows "stack_ok elog ts c' stack"
proof -
  have ids: "fr_id ` set (f # stack) = {..<length ts} - fin c" and dist: "distinct (map fr_id (f # stack))"
    using st by (simp_all add: stack_ok_def)
  have "set (take (fr_next h) (fr_deps h)) \<subseteq> (!) ts ` (fin c' \<union> fr_id ` set as)"
    if "stack = as @ h # bs" for as h bs
  proof -
    have "stack_ok elog ts c ((f # as) @ h # bs)" using st that by simp
    from stack_ok_split [OF this] show ?thesis using fin' by auto
  qed
  moreover have "fr_id ` set stack = {..<length ts} - fin c'"
  proof -
    have "fr_id f \<notin> fr_id ` set stack" "insert (fr_id f) (fr_id ` set stack) = {..<length ts} - fin c"
      using ids dist by simp_all
    then show ?thesis unfolding fin' by blast
  qed
  ultimately show ?thesis
    using st unfolding stack_ok_def by auto
qed

lemma add_loop_spec:
  assumes "search_ok elog ts c stack" and "add_loop elog c stack = (b, c')"
  shows "ci_fallback c' = ci_fallback c \<and>
    (if b then ci_cyclic c' = ci_cyclic c \<and> (\<exists>ts'. set ts \<subseteq> set ts' \<and> search_ok elog ts' c' []) else ci_cyclic c')"
  using assms
proof (induction elog c stack arbitrary: ts rule: add_loop.induct)
  case (1 elog c)
  then show ?case by auto
next
  case (2 elog c f stack)
  let ?t = "fr_deps f ! fr_next f" and ?f = "f\<lparr>fr_next := Suc (fr_next f)\<rparr>"
  have nm: "names ts c" and ok: "chains_ok elog ts c" and st: "stack_ok elog ts c (f # stack)"
    using "2.prems"(1) by (auto simp: search_ok_def)
  show ?case
  proof (cases "fr_next f < length (fr_deps f)")
    case more: True
    show ?thesis
    proof (cases "fmlookup (ci_ids c) ?t")
      case None
      have "search_ok elog (ts @ [?t]) (ci_push ?t c) (ci_frame elog ?t c # ?f # stack)"
        using search_ok_push [OF nm ok None] stack_ok_push [OF nm st more None] by (simp add: search_ok_def)
      moreover have "add_loop elog (ci_push ?t c) (ci_frame elog ?t c # ?f # stack) = (b, c')"
        using "2.prems"(2) more None by (simp add: add_loop_cases)
      ultimately show ?thesis
        using "2.IH"(1) [OF more refl refl None, of "ts @ [?t]"] by (cases b) (simp_all, blast)
    next
      case (Some i)
      show ?thesis
      proof (cases "cn_clock (ci_nodes c ! i) = None")
        case True
        then show ?thesis using "2.prems"(2) more Some by (auto simp: add_loop_cases)
      next
        case False
        have "i < length ts" "ts ! i = ?t" using nm Some by (auto simp: names_def)
        moreover from this have "i \<in> fin c"
          using False nm by (simp add: fin_def names_def)
        ultimately have "?t \<in> (!) ts ` fin c" by (metis imageI)
        then have "search_ok elog ts c (?f # stack)"
          using nm ok stack_ok_step [OF st more] by (simp add: search_ok_def)
        moreover have "add_loop elog c (?f # stack) = (b, c')"
          using "2.prems"(2) more Some False by (simp add: add_loop_cases)
        ultimately show ?thesis
          using "2.IH"(2) [OF more refl refl Some False, of ts] by blast
      qed
    qed
  next
    case all: False
    have n: "fr_id f < length ts" "fr_id f \<notin> fin c" and d: "fr_deps f = log_deps elog (ts ! fr_id f)"
      using st by (auto simp: stack_ok_def)
    have deps: "set (fr_deps f) \<subseteq> (!) ts ` fin c" using stack_ok_top [OF st] all by simp
    note fin = chains_ok_finish [OF ok nm n d deps]
    have "names ts (ci_finish f c)"
      using nm by (simp add: names_def ci_finish_def Let_def)
    then have "search_ok elog ts (ci_finish f c) stack"
      using fin stack_ok_finish [OF st] by (simp add: search_ok_def)
    moreover have "add_loop elog (ci_finish f c) stack = (b, c')"
      using "2.prems"(2) all by (simp add: add_loop_cases)
    ultimately show ?thesis
      using "2.IH"(3) [OF all, of ts] by (simp add: ci_finish_def Let_def)
  qed
qed

section \<open>The states of an index\<close>

text \<open>What holds between calls: the cached searches are complete, and, unless a cycle was found,
  every indexed vertex is finished.\<close>

definition index_ok :: "store \<Rightarrow> causal_index \<Rightarrow> bool" where
  "index_ok elog c \<longleftrightarrow>
     (\<forall>t V. fmlookup (ci_fallback c) t = Some V \<longrightarrow> V = {u. happens_before elog u t}) \<and>
     (\<not> ci_cyclic c \<longrightarrow> (\<exists>ts. search_ok elog ts c []))"

lemma index_ok_new: "index_ok elog newCausalIndex"
  unfolding index_ok_def search_ok_def
  by (auto simp: newCausalIndex_def names_def chains_ok_def stack_ok_def fin_def intro!: exI [of _ "[]"])

lemma search_start:
  assumes "search_ok elog ts c []" and "fmlookup (ci_ids c) t = None"
  shows "search_ok elog (ts @ [t]) (ci_push t c) [ci_frame elog t c]"
proof -
  have len: "length ts = length (ci_nodes c)" and fin: "fin c = {..<length ts}"
    using assms(1) by (auto simp: search_ok_def names_def stack_ok_def fin_def)
  have push: "names (ts @ [t]) (ci_push t c)" "chains_ok elog (ts @ [t]) (ci_push t c)" "fin (ci_push t c) = {..<length ts}"
    using search_ok_push [of ts c elog t] assms fin by (simp_all add: search_ok_def)
  have "{length ts} = {..<length (ts @ [t])} - {..<length ts}" by auto
  then have "stack_ok elog (ts @ [t]) (ci_push t c) [ci_frame elog t c]"
    unfolding stack_ok_def push(3) by (simp add: ci_frame_def len [symmetric] Cons_eq_append_conv)
  then show ?thesis
    using push by (simp add: search_ok_def)
qed

lemma search_ok_ids: "search_ok elog ts c stack \<Longrightarrow> fset (fmdom (ci_ids c)) = set ts"
  by (auto simp: search_ok_def names_def fmlookup_dom_iff in_set_conv_nth)

lemma ci_adds_spec:
  assumes "search_ok elog ts c []" and "ci_adds elog tips c = (b, c')"
  shows "ci_fallback c' = ci_fallback c \<and>
    (if b then ci_cyclic c' = ci_cyclic c \<and> (\<exists>ts'. set ts \<union> set tips \<subseteq> set ts' \<and> search_ok elog ts' c' [])
     else ci_cyclic c')"
  using assms
proof (induction tips arbitrary: ts c)
  case Nil
  then show ?case by auto
next
  case (Cons t tips)
  show ?case
  proof (cases "t |\<in>| fmdom (ci_ids c)")
    case True
    then have "t \<in> set ts" using search_ok_ids [OF Cons.prems(1)] by auto
    then show ?thesis
      using True Cons.IH [OF Cons.prems(1)] Cons.prems(2) by (cases b) (simp_all, blast)
  next
    case False
    then have new: "fmlookup (ci_ids c) t = None" by (simp add: fmdom_notD)
    obtain b1 c1 where loop: "add_loop elog (ci_push t c) [ci_frame elog t c] = (b1, c1)" by fastforce
    note step = add_loop_spec [OF search_start [OF Cons.prems(1) new] loop]
    show ?thesis
    proof (cases b1)
      case True
      then obtain ts1 where ts1: "set (ts @ [t]) \<subseteq> set ts1" "search_ok elog ts1 c1 []"
        using step by auto
      have "ci_adds elog tips c1 = (b, c')" using Cons.prems(2) False loop True by simp
      from Cons.IH [OF ts1(2) this] show ?thesis
        using step True ts1(1) by (cases b) (simp_all, blast)
    next
      case b1: False
      then have "b = False" "c' = c1" using Cons.prems(2) False loop by auto
      then show ?thesis using step b1 by simp
    qed
  qed
qed

lemma index_ok_add:
  assumes "index_ok elog c" and "ci_add elog tips c = (b, c')"
  shows "index_ok elog c' \<and> (b \<longrightarrow> (\<exists>ts. set tips \<subseteq> set ts \<and> search_ok elog ts c' []))"
proof (cases "ci_cyclic c")
  case False
  then obtain ts where ts: "search_ok elog ts c []" using assms(1) by (auto simp: index_ok_def)
  have run: "ci_adds elog tips c = (b, c')" using assms(2) False by (simp add: ci_add_def)
  show ?thesis
    using ci_adds_spec [OF ts run] assms(1) by (cases b) (simp_all add: index_ok_def, blast)
qed (use assms in \<open>auto simp: ci_add_def\<close>)

lemma index_ok_fallback:
  assumes "index_ok elog c" and "reachesCyclic elog s t c = (b, c')"
  shows "index_ok elog c' \<and> (b \<longleftrightarrow> happens_before elog t s)"
proof (cases "fmlookup (ci_fallback c) s")
  case None
  have visited: "cyclic_loop elog [s] {s} = {u. happens_before elog u s}"
    using cyclic_loop_reach by blast
  have c': "c' = c\<lparr>ci_fallback := fmupd s {u. happens_before elog u s} (ci_fallback c)\<rparr>"
    and b: "b \<longleftrightarrow> happens_before elog t s"
    using assms(2) None unfolding reachesCyclic_def visited by (simp_all add: Let_def)
  have "search_ok elog ts (c\<lparr>ci_fallback := fb\<rparr>) [] = search_ok elog ts c []" for ts fb
    by (simp add: search_ok_def names_def chains_ok_def stack_ok_def fin_def covers_def clk_def)
  then show ?thesis
    using assms(1) b unfolding c' by (simp add: index_ok_def)
qed (use assms in \<open>auto simp: reachesCyclic_def index_ok_def\<close>)

lemma index_ok_reaches:
  assumes ok: "index_ok elog c" and run: "ci_reaches elog s t c = (b, c')"
  shows "index_ok elog c' \<and> (b \<longleftrightarrow> happens_before elog t s)"
proof (cases "s = t")
  case True
  then show ?thesis using assms by (simp add: ci_reaches_def happens_before_def)
next
  case False
  obtain b1 c1 where add: "ci_add elog [s] c = (b1, c1)" by fastforce
  note add_ok = index_ok_add [OF ok add]
  show ?thesis
  proof (cases b1)
    case b1: False
    then have "reachesCyclic elog s t c1 = (b, c')" using run add False by (simp add: ci_reaches_def)
    then show ?thesis using index_ok_fallback add_ok by blast
  next
    case b1: True
    then obtain ts where ts: "s \<in> set ts" "search_ok elog ts c1 []" using add_ok by auto
    then have nm: "names ts c1" and ch: "chains_ok elog ts c1" and fin: "fin c1 = {..<length ts}"
      by (auto simp: search_ok_def stack_ok_def names_def fin_def)
    obtain i where i: "i < length ts" "s = ts ! i" using ts(1) by (auto simp: in_set_conv_nth)
    have c': "c' = c1" using run add False b1 by (auto simp: ci_reaches_def Let_def split: option.splits)
    show ?thesis
    proof (cases "fmlookup (ci_ids c1) t")
      case None
      then have "t \<notin> set ts" using names_lookup [OF nm] by (auto simp: in_set_conv_nth)
      have "\<not> happens_before elog t s"
      proof
        assume "happens_before elog t s"
        then obtain j where "j \<in> fin c1" "t = ts ! j"
          using fin_closed [OF ch, of i t] i fin unfolding happens_before_def by blast
        then show False using \<open>t \<notin> set ts\<close> fin by simp
      qed
      then show ?thesis using run add False b1 None add_ok c' by (simp add: ci_reaches_def)
    next
      case (Some j)
      then have j: "j < length ts" "t = ts ! j" using nm by (auto simp: names_def)
      have "happens_before elog t s \<longleftrightarrow> covers c1 i j"
        using ch i j fin by (simp add: chains_ok_def happens_before_def)
      moreover have "b \<longleftrightarrow> covers c1 i j"
        using run add False b1 Some names_clock_of [OF nm i(1)] i(2)
        by (auto simp: ci_reaches_def Let_def covers_def)
      ultimately show ?thesis using add_ok c' by simp
    qed
  qed
qed

section \<open>Properties\<close>

text \<open>The states an index goes through: created empty, then any sequence of insertions and
  queries.\<close>

inductive index_run :: "store \<Rightarrow> causal_index \<Rightarrow> causal_index \<Rightarrow> bool" for elog c0 where
  start: "index_run elog c0 c0"
| added: "index_run elog c0 c \<Longrightarrow> index_run elog c0 (snd (ci_add elog tips c))"
| queried: "index_run elog c0 c \<Longrightarrow> index_run elog c0 (snd (ci_reaches elog s t c))"

definition index_state :: "store \<Rightarrow> causal_index \<Rightarrow> bool" where
  "index_state elog c \<longleftrightarrow> index_run elog newCausalIndex c"

lemma index_run_ok: "index_run elog c0 c \<Longrightarrow> index_ok elog c0 \<Longrightarrow> index_ok elog c"
proof (induction rule: index_run.induct)
  case (added c tips)
  then show ?case using index_ok_add [of elog c tips] by (metis prod.collapse)
next
  case (queried c s t)
  then show ?case using index_ok_reaches [of elog c s t] by (metis prod.collapse)
qed

lemma index_state_ok: "index_state elog c \<Longrightarrow> index_ok elog c"
  using index_run_ok index_ok_new by (auto simp: index_state_def)

text \<open>C10: the reachability index is exact. In every state it can be in, after
  any insertions and queries and on cyclic histories too, it answers yes exactly when the target
  is reached by following dependencies.\<close>

theorem index_reaches_correct:
  assumes "index_state elog c"
  shows "fst (ci_reaches elog s t c) \<longleftrightarrow> happens_before elog t s"
  using index_ok_reaches [OF index_state_ok [OF assms], of s t] by (metis prod.collapse)

definition ex_diamond :: store where
  "ex_diamond = fmap_of_list (map (\<lambda>(t, ds). (t, nil_effect\<lparr>eff_deps := ds\<rparr>))
     [(Tip 1 1, []), (Tip 1 2, [Tip 1 1]), (Tip 2 1, [Tip 1 1]), (Tip 3 1, [Tip 1 2, Tip 2 1])])"

theorem index_reaches_correct_witness:
  "happens_before ex_diamond (Tip 1 1) (Tip 3 1) \<and> \<not> happens_before ex_diamond (Tip 2 1) (Tip 1 2)"
proof -
  have "fst (ci_reaches ex_diamond (Tip 3 1) (Tip 1 1) newCausalIndex)"
    "\<not> fst (ci_reaches ex_diamond (Tip 1 2) (Tip 2 1) newCausalIndex)"
    by code_simp+
  then show ?thesis
    using index_reaches_correct [of ex_diamond newCausalIndex] index_run.start
    by (simp add: index_state_def)
qed

end
