(* ===== verification/Causal_Range.thy ===== *)
theory Causal_Range
  imports Causal_Reach
begin

text \<open>
  The conflict check looks only at the candidates between a transaction's ancestors and its
  descendants on each chain. Candidates are ordered along a chain by the dependency relation, so
  the two binary searches of \<open>concurrentRange\<close> delimit exactly the concurrent ones.
\<close>

section \<open>Binary search\<close>

lemma search_loop_spec:
  assumes "search_loop f i j s = (r, s')" and "i \<le> j" and "I s"
    and pure: "\<And>h s. I s \<Longrightarrow> h < n \<Longrightarrow> fst (f h s) = P h \<and> I (snd (f h s))"
    and mono: "\<And>a b. a \<le> b \<Longrightarrow> b < n \<Longrightarrow> P a \<Longrightarrow> P b"
    and "j \<le> n" and "\<forall>k < i. \<not> P k" and "\<forall>k. j \<le> k \<and> k < n \<longrightarrow> P k"
  shows "r \<le> n \<and> (\<forall>k < r. \<not> P k) \<and> (\<forall>k. r \<le> k \<and> k < n \<longrightarrow> P k) \<and> I s'"
  using assms(1-3,6-8)
proof (induction "j - i" arbitrary: i j s rule: less_induct)
  case less
  show ?case
  proof (cases "i < j")
    case False
    then have "r = i" "s' = s" using less.prems(1) by (simp_all add: search_loop.simps [of f i j s])
    then show ?thesis using False less.prems by auto
  next
    case True
    define h where "h = (i + j) div 2"
    have h: "i \<le> h" "h < j" "h < n" using True less.prems(4) by (auto simp: h_def)
    obtain b s1 where fh: "f h s = (b, s1)" by fastforce
    have b: "b = P h" and I1: "I s1" using pure [OF less.prems(3) h(3)] fh by auto
    show ?thesis
    proof (cases "P h")
      case True
      have run: "search_loop f i h s1 = (r, s')"
        using less.prems(1) \<open>i < j\<close> fh b True by (simp add: search_loop.simps [of f i j s] Let_def h_def)
      have above: "\<forall>k. h \<le> k \<and> k < n \<longrightarrow> P k" using mono True by blast
      show ?thesis
        by (rule less.hyps [OF _ run h(1) I1 _ less.prems(5) above]) (use h in linarith)+
    next
      case False
      have run: "search_loop f (Suc h) j s1 = (r, s')"
        using less.prems(1) \<open>i < j\<close> fh b False by (simp add: search_loop.simps [of f i j s] Let_def h_def)
      have below: "\<forall>k < Suc h. \<not> P k" using mono False h(3) by (metis less_Suc_eq_le)
      show ?thesis
        by (rule less.hyps [OF _ run _ I1 less.prems(4) below less.prems(6)]) (use h in linarith)+
    qed
  qed
qed

lemma sort_search_spec:
  assumes "sort_search n f s = (r, s')" and "I s"
    and "\<And>h s. I s \<Longrightarrow> h < n \<Longrightarrow> fst (f h s) = P h \<and> I (snd (f h s))"
    and "\<And>a b. a \<le> b \<Longrightarrow> b < n \<Longrightarrow> P a \<Longrightarrow> P b"
  shows "r \<le> n \<and> (\<forall>k < n. P k \<longleftrightarrow> r \<le> k) \<and> I s'"
  using search_loop_spec [of f 0 n s r s' I n P] assms by (auto simp: sort_search_def not_le [symmetric])

section \<open>Order along a chain\<close>

definition along :: "store \<Rightarrow> tip list \<Rightarrow> nat list \<Rightarrow> bool" where
  "along elog tips chain \<longleftrightarrow> (\<forall>a b. a \<le> b \<and> b < length chain \<longrightarrow>
     happens_before elog (tips ! (chain ! a)) (tips ! (chain ! b)))"

lemma happens_before_trans:
  "happens_before elog a b \<Longrightarrow> happens_before elog b c \<Longrightarrow> happens_before elog a c"
  by (auto simp: happens_before_def)

lemma ci_add_cyclic:
  assumes "index_ok elog c" and "ci_add elog tips c = (False, c')"
  shows "ci_cyclic c'"
proof (cases "ci_cyclic c")
  case False
  then obtain ts where ts: "search_ok elog ts c []" using assms(1) by (auto simp: index_ok_def)
  have run: "ci_adds elog tips c = (False, c')" using assms(2) False by (simp add: ci_add_def)
  show ?thesis using ci_adds_spec [OF ts run] by simp
qed (use assms in \<open>auto simp: ci_add_def\<close>)

lemma candidateChains_index: "snd (candidateChains elog tips c) = snd (ci_add elog tips c)"
  by (auto simp: candidateChains_def Let_def split: prod.splits bool.splits)

lemma index_ok_candidates:
  "index_ok elog c \<Longrightarrow> candidateChains elog tips c = (groups, c1) \<Longrightarrow> index_ok elog c1"
  using candidateChains_index [of elog tips c] index_ok_add [of elog c tips] by (metis prod.collapse snd_conv)

lemma chains_ok_along:
  "chains_ok elog ts c \<Longrightarrow> i \<in> fin c \<Longrightarrow> j \<in> fin c \<Longrightarrow> chain_at c i = chain_at c j \<Longrightarrow> seq_at c j \<le> seq_at c i \<Longrightarrow>
   (ts ! i, ts ! j) \<in> (dep_rel elog)\<^sup>*"
  by (simp add: chains_ok_def)

lemma candidateChains_along:
  assumes "index_ok elog c" and "candidateChains elog tips c = (groups, c1)" and "chain \<in> set groups"
  shows "along elog tips chain \<or> ci_cyclic c1"
proof -
  obtain b c2 where add: "ci_add elog tips c = (b, c2)" by fastforce
  then have c2: "c2 = c1" using assms(2) by (auto simp: candidateChains_def Let_def split: bool.splits)
  show ?thesis
  proof (cases b)
    case False
    then show ?thesis using add c2 ci_add_cyclic [OF assms(1), of tips c1] by simp
  next
    case True
    then obtain ts where ts: "set tips \<subseteq> set ts" "search_ok elog ts c1 []"
      using index_ok_add [OF assms(1) add] c2 by auto
    then have nm: "names ts c1" and ch: "chains_ok elog ts c1" and fin: "fin c1 = {..<length ts}"
      by (auto simp: search_ok_def stack_ok_def names_def fin_def)
    let ?node = "\<lambda>i. ci_nodes c1 ! id_of c1 (tips ! i)"
    obtain k where k: "chain = sort_key (\<lambda>i. cn_seq (?node i)) (filter (\<lambda>i. cn_chain (?node i) = k) [0..<length tips])"
      using assms(2,3) add True c2 by (auto simp: candidateChains_def Let_def)
    have node: "\<exists>i < length ts. tips ! m = ts ! i \<and> id_of c1 (tips ! m) = i" if "m \<in> set chain" for m
    proof -
      have "tips ! m \<in> set ts" using that ts(1) k by auto
      then obtain i where "i < length ts" "tips ! m = ts ! i" by (metis in_set_conv_nth)
      then show ?thesis using names_id_of [OF nm] by auto
    qed
    have "happens_before elog (tips ! (chain ! a)) (tips ! (chain ! b))" if ab: "a \<le> b" "b < length chain" for a b
    proof -
      have mem: "chain ! a \<in> set chain" "chain ! b \<in> set chain" using ab by simp_all
      have "sorted (map (\<lambda>i. cn_seq (?node i)) chain)" by (simp add: k)
      then have "cn_seq (?node (chain ! a)) \<le> cn_seq (?node (chain ! b))"
        using sorted_nth_mono [of _ a b] ab by fastforce
      moreover have "cn_chain (?node (chain ! a)) = cn_chain (?node (chain ! b))"
        using mem by (simp add: k)
      moreover obtain i j where "i \<in> fin c1" "tips ! (chain ! a) = ts ! i" "id_of c1 (tips ! (chain ! a)) = i"
        "j \<in> fin c1" "tips ! (chain ! b) = ts ! j" "id_of c1 (tips ! (chain ! b)) = j"
        using node [OF mem(1)] node [OF mem(2)] fin by auto
      ultimately show ?thesis
        using chains_ok_along [OF ch, of j i] by (simp add: happens_before_def)
    qed
    then show ?thesis by (auto simp: along_def)
  qed
qed

lemma index_run_cyclic: "index_run elog c0 c \<Longrightarrow> ci_cyclic c0 \<Longrightarrow> ci_cyclic c"
  by (induction rule: index_run.induct)
    (auto simp: ci_add_def ci_reaches_def reachesCyclic_def Let_def split: option.splits)

section \<open>Properties\<close>

definition concurrent :: "store \<Rightarrow> tip \<Rightarrow> tip \<Rightarrow> bool" where
  "concurrent elog a b \<longleftrightarrow> \<not> happens_before elog a b \<and> \<not> happens_before elog b a"

text \<open>C11: the two binary searches never skip a concurrent candidate, and,
  on an acyclic history, select nothing else. The chains come from one call, the searches may run
  at any later state of the same index.\<close>

theorem concurrent_range_exact:
  assumes "index_state elog c" and "candidateChains elog tips c = (groups, c1)" and "chain \<in> set groups"
    and "index_run elog c1 c2" and "concurrentRange elog t chain tips c2 = ((first, lst), c3)" and "k < length chain"
  shows "(concurrent elog t (tips ! (chain ! k)) \<longrightarrow> first \<le> k \<and> k < lst) \<and>
    (\<not> ci_cyclic c2 \<longrightarrow> first \<le> k \<and> k < lst \<longrightarrow> concurrent elog t (tips ! (chain ! k)))"
proof (cases "ci_cyclic c2")
  case True
  then show ?thesis using assms(5,6) by (simp add: concurrentRange_def)
next
  case False
  have ok: "index_ok elog c" by (rule index_state_ok [OF assms(1)])
  have "index_ok elog c1"
    using index_ok_candidates [OF ok assms(2)] .
  then have ok2: "index_ok elog c2" using index_run_ok [OF assms(4)] by blast
  have order: "along elog tips chain"
    using candidateChains_along [OF ok assms(2,3)] index_run_cyclic [OF assms(4)] False by blast
  let ?cand = "\<lambda>i. tips ! (chain ! i)"
  have reaches: "fst (ci_reaches elog s u c) = happens_before elog u s \<and> index_ok elog (snd (ci_reaches elog s u c))"
    if "index_ok elog c" for s u c
    using index_ok_reaches [OF that, of s u] by (metis prod.collapse)
  obtain c4 l where search1: "sort_search (length chain)
      (\<lambda>i c. case ci_reaches elog t (?cand i) c of (b, c') \<Rightarrow> (\<not> b, c')) c2 = (first, c4)"
    and search2: "sort_search (length chain) (\<lambda>i. ci_reaches elog (?cand i) t) c4 = (l, c3)" and l: "lst = max first l"
    using assms(5) False by (auto simp: concurrentRange_def split: prod.splits)
  have step: "happens_before elog (?cand a) (?cand b)" if "a \<le> b" "b < length chain" for a b
    using order that by (simp add: along_def)
  have first: "first \<le> length chain \<and> (\<forall>k < length chain. \<not> happens_before elog (?cand k) t \<longleftrightarrow> first \<le> k) \<and> index_ok elog c4"
  proof (rule sort_search_spec [OF search1, where I = "index_ok elog"])
    show "index_ok elog c2" by (rule ok2)
  next
    fix h s assume "index_ok elog s"
    from reaches [OF this, of t "?cand h"]
    show "fst (case ci_reaches elog t (?cand h) s of (b, c') \<Rightarrow> (\<not> b, c')) = (\<not> happens_before elog (?cand h) t) \<and>
        index_ok elog (snd (case ci_reaches elog t (?cand h) s of (b, c') \<Rightarrow> (\<not> b, c')))"
      by (auto split: prod.splits)
  next
    fix a b assume "a \<le> b" "b < length chain" "\<not> happens_before elog (?cand a) t"
    then show "\<not> happens_before elog (?cand b) t" using step happens_before_trans by blast
  qed
  then have ok4: "index_ok elog c4" by blast
  have "l \<le> length chain \<and> (\<forall>k < length chain. happens_before elog t (?cand k) \<longleftrightarrow> l \<le> k) \<and> index_ok elog c3"
  proof (rule sort_search_spec [OF search2, where I = "index_ok elog"])
    show "index_ok elog c4" by (rule ok4)
  next
    fix a b assume "a \<le> b" "b < length chain" "happens_before elog t (?cand a)"
    then show "happens_before elog t (?cand b)" using step happens_before_trans by blast
  qed (rule reaches)
  then show ?thesis
    using first assms(6) l by (auto simp: concurrent_def)
qed

theorem concurrent_range_exact_witness:
  "concurrent ex_diamond (Tip 1 2) (Tip 2 1)"
proof -
  let ?tips = "[Tip 1 1, Tip 2 1, Tip 3 1]"
  obtain groups c1 where cc: "candidateChains ex_diamond ?tips newCausalIndex = (groups, c1)" by fastforce
  have val: "fst (candidateChains ex_diamond ?tips newCausalIndex) = [[0, 1, 2], []]"
    "fst (concurrentRange ex_diamond (Tip 1 2) [0, 1, 2] ?tips (snd (candidateChains ex_diamond ?tips newCausalIndex))) = (1, 2)"
    "\<not> ci_cyclic (snd (candidateChains ex_diamond ?tips newCausalIndex))"
    by code_simp+
  obtain c3 where "concurrentRange ex_diamond (Tip 1 2) [0, 1, 2] ?tips c1 = ((1, 2), c3)"
    using val(2) cc by (metis prod.collapse snd_conv)
  from concurrent_range_exact [OF _ cc _ index_run.start this, of 1] show ?thesis
    using val cc by (simp add: index_state_def index_run.start)
qed

end
