(* ===== verification/Horizon.thy ===== *)
theory Horizon
  imports Fork_Choice
begin

text \<open>
  The horizon set (effects/horizon.go): transactional binds held invisible until their verdict or a
  fallback timer. Entries, groups and timers are Go pointers that alias each other (an entry points
  to its group, the group lists its entries and owns a timer, the timer points back to the group),
  so the model keeps an explicit heap per type, with addresses allocated by counters. Every
  operation runs under \<open>HorizonSet.mu\<close> and is one atomic step; a Go panic (closing a closed channel,
  \<open>slices.Delete\<close> at index -1) is \<open>None\<close>. The callbacks that \<open>makeGroupVisible\<close> runs after unlocking
  are recorded in call order in \<open>hs_added\<close>.
\<close>

section \<open>State\<close>

record horizon_entry =
  he_group :: nat
  he_txnID :: string
  he_bind :: txn_bind
  he_ready :: bool

record horizon_group =
  hg_entries :: "nat list"
  hg_bases :: "txn_bind list"
  hg_timer :: "nat option"

record horizon_timer =
  ht_group :: nat
  ht_stopped :: bool

record horizon_set =
  hs_entries :: "(string, nat) fmap"
  hs_groups :: "nat list"
  hs_eheap :: "nat \<Rightarrow> horizon_entry"
  hs_gheap :: "nat \<Rightarrow> horizon_group"
  hs_theap :: "nat \<Rightarrow> horizon_timer"
  hs_ecount :: nat
  hs_gcount :: nat
  hs_tcount :: nat
  hs_pending :: "(tip, tip list) fmap"
  hs_added :: "bytes list"

definition empty_group :: horizon_group where
  "empty_group = \<lparr>hg_entries = [], hg_bases = [], hg_timer = None\<rparr>"

definition newHorizonSet :: "(tip, tip list) fmap \<Rightarrow> horizon_set" where
  "newHorizonSet pending =
     \<lparr>hs_entries = fmempty, hs_groups = [],
      hs_eheap = (\<lambda>_. \<lparr>he_group = 0, he_txnID = [],
        he_bind = \<lparr>tb_keys = [], tb_txn_hlc = None, tb_originator_node_id = 0, tb_abort_deps = []\<rparr>,
        he_ready = False\<rparr>),
      hs_gheap = (\<lambda>_. empty_group),
      hs_theap = (\<lambda>_. \<lparr>ht_group = 0, ht_stopped = False\<rparr>),
      hs_ecount = 0, hs_gcount = 0, hs_tcount = 0, hs_pending = pending, hs_added = []\<rparr>"

section \<open>Operations\<close>

text \<open>\<open>pruneGroups\<close>: a completed group stops its timer and drops its bases. \<open>shrinkSlice\<close> changes
  only capacity.\<close>

definition release_group :: "nat \<Rightarrow> horizon_set \<Rightarrow> horizon_set" where
  "release_group g h =
     (let grp = hs_gheap h g in
      h\<lparr>hs_gheap := (hs_gheap h)(g := grp\<lparr>hg_timer := None, hg_bases := []\<rparr>),
        hs_theap := (case hg_timer grp of
                       None \<Rightarrow> hs_theap h
                     | Some t \<Rightarrow> (hs_theap h)(t := (hs_theap h t)\<lparr>ht_stopped := True\<rparr>))\<rparr>)"

definition pruneGroups :: "horizon_set \<Rightarrow> horizon_set" where
  "pruneGroups h =
     (let live = (\<lambda>g. length (hg_entries (hs_gheap h g)) \<noteq> 0) in
      (fold release_group (filter (\<lambda>g. \<not> live g) (hs_groups h)) h)
        \<lparr>hs_groups := filter live (hs_groups h)\<rparr>)"

text \<open>The body of \<open>Add\<close>'s loop for a second overlapping group, which joins the first.\<close>

definition merge_group :: "nat \<Rightarrow> nat \<Rightarrow> horizon_set \<Rightarrow> horizon_set" where
  "merge_group target g h =
     (let tg = hs_gheap h target; grp = hs_gheap h g;
          moved = (hg_timer tg = None \<and> hg_timer grp \<noteq> None)
      in h\<lparr>hs_eheap := fold (\<lambda>e eh. eh(e := (eh e)\<lparr>he_group := target\<rparr>)) (hg_entries grp) (hs_eheap h),
           hs_gheap := (hs_gheap h)
             (target := tg\<lparr>hg_entries := hg_entries tg @ hg_entries grp,
                           hg_bases := hg_bases tg @ hg_bases grp,
                           hg_timer := (if moved then hg_timer grp else hg_timer tg)\<rparr>,
              g := grp\<lparr>hg_entries := [], hg_timer := (if moved then None else hg_timer grp)\<rparr>),
           hs_theap := (if moved
                        then (hs_theap h)(the (hg_timer grp) :=
                               (hs_theap h (the (hg_timer grp)))\<lparr>ht_group := target\<rparr>)
                        else hs_theap h)\<rparr>)"

definition overlaps :: "txn_bind list \<Rightarrow> txn_bind \<Rightarrow> bool" where
  "overlaps bases bnd = list_ex (\<lambda>base. bindsShareBase base bnd) bases"

fun merge_loop ::
  "txn_bind \<Rightarrow> nat list \<Rightarrow> nat option \<Rightarrow> horizon_set \<Rightarrow> nat option \<times> horizon_set" where
  "merge_loop bnd [] target h = (target, h)"
| "merge_loop bnd (g # gs) target h =
     (if \<not> overlaps (hg_bases (hs_gheap h g)) bnd then merge_loop bnd gs target h
      else case target of
             None \<Rightarrow> merge_loop bnd gs (Some g) h
           | Some t \<Rightarrow> merge_loop bnd gs target (merge_group t g h))"

definition new_group :: "horizon_set \<Rightarrow> nat \<times> horizon_set" where
  "new_group h =
     (hs_gcount h,
      h\<lparr>hs_gcount := Suc (hs_gcount h),
        hs_gheap := (hs_gheap h)(hs_gcount h := empty_group),
        hs_groups := hs_groups h @ [hs_gcount h]\<rparr>)"

definition join_group :: "nat \<Rightarrow> string \<Rightarrow> txn_bind \<Rightarrow> horizon_set \<Rightarrow> horizon_set" where
  "join_group target txnID bnd h =
     (let e = hs_ecount h; tg = hs_gheap h target in
      h\<lparr>hs_ecount := Suc e,
        hs_eheap := (hs_eheap h)(e :=
          \<lparr>he_group = target, he_txnID = txnID, he_bind = bnd, he_ready = False\<rparr>),
        hs_gheap := (hs_gheap h)(target :=
          tg\<lparr>hg_entries := hg_entries tg @ [e], hg_bases := hg_bases tg @ [bnd]\<rparr>),
        hs_entries := fmupd txnID e (hs_entries h)\<rparr>)"

definition Add :: "string \<Rightarrow> txn_bind \<Rightarrow> horizon_set \<Rightarrow> horizon_set" where
  "Add txnID bnd h =
     (if fmlookup (hs_entries h) txnID \<noteq> None then h
      else case merge_loop bnd (hs_groups h) None h of
             (None, h1) \<Rightarrow> (case new_group h1 of (g, h2) \<Rightarrow> join_group g txnID bnd h2)
           | (Some g, h1) \<Rightarrow> join_group g txnID bnd (pruneGroups h1))"

text \<open>\<open>resolve\<close>: \<open>close(entry.ready)\<close> panics on a closed channel.\<close>

definition resolve :: "nat \<Rightarrow> horizon_set \<Rightarrow> horizon_set option" where
  "resolve e h =
     (let entry = hs_eheap h e in
      if he_ready entry then None
      else Some (h\<lparr>
        hs_pending := fold (\<lambda>kb. fmdrop (EffectSeqFromRef (kb_new_tip kb))) (tb_keys (he_bind entry))
                        (hs_pending h),
        hs_entries := fmdrop (he_txnID entry) (hs_entries h),
        hs_eheap := (hs_eheap h)(e := entry\<lparr>he_ready := True\<rparr>)\<rparr>))"

fun resolve_all :: "nat list \<Rightarrow> horizon_set \<Rightarrow> horizon_set option" where
  "resolve_all [] h = Some h"
| "resolve_all (e # es) h =
     (case resolve e h of None \<Rightarrow> None | Some h' \<Rightarrow> resolve_all es h')"

definition makeGroupVisible :: "nat \<Rightarrow> horizon_set \<Rightarrow> horizon_set option" where
  "makeGroupVisible g h =
     (let members = hg_entries (hs_gheap h g);
          keys = concat (map (\<lambda>e. map kb_key (tb_keys (he_bind (hs_eheap h e)))) members)
      in case resolve_all members h of
           None \<Rightarrow> None
         | Some h1 \<Rightarrow>
             let h2 = pruneGroups (h1\<lparr>hs_gheap := (hs_gheap h1)(g := (hs_gheap h1 g)\<lparr>hg_entries := []\<rparr>)\<rparr>)
             in Some (h2\<lparr>hs_added := hs_added h2 @ compact (sort keys)\<rparr>))"

definition MakeVisible :: "string \<Rightarrow> horizon_set \<Rightarrow> horizon_set option" where
  "MakeVisible txnID h =
     (case fmlookup (hs_entries h) txnID of
        None \<Rightarrow> Some h
      | Some e \<Rightarrow> makeGroupVisible (he_group (hs_eheap h e)) h)"

definition Abort :: "string \<Rightarrow> horizon_set \<Rightarrow> horizon_set option" where
  "Abort txnID h =
     (case fmlookup (hs_entries h) txnID of
        None \<Rightarrow> Some h
      | Some e \<Rightarrow>
          let g = he_group (hs_eheap h e); grp = hs_gheap h g in
          if e \<notin> set (hg_entries grp) then None
          else map_option pruneGroups
                 (resolve e (h\<lparr>hs_gheap := (hs_gheap h)(g := grp\<lparr>hg_entries := remove1 e (hg_entries grp)\<rparr>)\<rparr>)))"

definition ScheduleMakeVisible :: "string \<Rightarrow> horizon_set \<Rightarrow> horizon_set" where
  "ScheduleMakeVisible txnID h =
     (case fmlookup (hs_entries h) txnID of
        None \<Rightarrow> h
      | Some e \<Rightarrow>
          let g = he_group (hs_eheap h e); grp = hs_gheap h g; t = hs_tcount h;
              theap = (case hg_timer grp of
                         None \<Rightarrow> hs_theap h
                       | Some old \<Rightarrow> (hs_theap h)(old := (hs_theap h old)\<lparr>ht_stopped := True\<rparr>))
          in h\<lparr>hs_tcount := Suc t,
               hs_theap := theap(t := \<lparr>ht_group = g, ht_stopped = False\<rparr>),
               hs_gheap := (hs_gheap h)(g := grp\<lparr>hg_timer := Some t\<rparr>)\<rparr>)"

text \<open>The callback \<open>fn\<close> of \<open>ScheduleMakeVisible\<close>. A stopped timer may still run it, since \<open>Stop\<close> races
  with a callback that waits for the lock.\<close>

definition timer_fire :: "nat \<Rightarrow> horizon_set \<Rightarrow> horizon_set option" where
  "timer_fire t h =
     (let g = ht_group (hs_theap h t) in
      if hg_timer (hs_gheap h g) \<noteq> Some t then Some h else makeGroupVisible g h)"

definition IsInvisible :: "string \<Rightarrow> horizon_set \<Rightarrow> bool" where
  "IsInvisible txnID h \<longleftrightarrow> fmlookup (hs_entries h) txnID \<noteq> None"

definition horizon_Empty :: "horizon_set \<Rightarrow> bool" where
  "horizon_Empty h \<longleftrightarrow> fcard (fmdom (hs_entries h)) = 0"

text \<open>\<open>WaitForClear\<close> loads the entry in one step and blocks on its channel afterwards: \<open>WaitNil\<close> is the
  immediate return, \<open>WaitOn e\<close> the pending receive, which completes when \<open>he_ready\<close> holds.\<close>

datatype wait_result = WaitNil | WaitOn nat

definition WaitForClear :: "string \<Rightarrow> horizon_set \<Rightarrow> wait_result" where
  "WaitForClear txnID h =
     (case fmlookup (hs_entries h) txnID of None \<Rightarrow> WaitNil | Some e \<Rightarrow> WaitOn e)"

definition wait_done :: "wait_result \<Rightarrow> horizon_set \<Rightarrow> bool" where
  "wait_done w h = (case w of WaitNil \<Rightarrow> True | WaitOn e \<Rightarrow> he_ready (hs_eheap h e))"

section \<open>Interleavings\<close>

datatype horizon_op =
    OpAdd string txn_bind
  | OpMakeVisible string
  | OpAbort string
  | OpSchedule string
  | OpFire nat

fun horizon_exec :: "horizon_op \<Rightarrow> horizon_set \<Rightarrow> horizon_set option" where
  "horizon_exec (OpAdd t b) h = Some (Add t b h)"
| "horizon_exec (OpMakeVisible t) h = MakeVisible t h"
| "horizon_exec (OpAbort t) h = Abort t h"
| "horizon_exec (OpSchedule t) h = Some (ScheduleMakeVisible t h)"
| "horizon_exec (OpFire t) h = (if t < hs_tcount h then timer_fire t h else Some h)"

fun horizon_run :: "horizon_op list \<Rightarrow> horizon_set \<Rightarrow> horizon_set option" where
  "horizon_run [] h = Some h"
| "horizon_run (op # ops) h =
     (case horizon_exec op h of None \<Rightarrow> None | Some h' \<Rightarrow> horizon_run ops h')"

end
