(* ===== verification/Horizon_Inv.thy ===== *)
theory Horizon_Inv
  imports Horizon
begin

text \<open>
  The invariant of the horizon set: the entry map, the groups' member lists and the entries' group
  pointers agree, a pending bind's channel is open and a resolved one's closed, groups do not share
  a consumed tip, and a live group's timer is running and points back to it. Every operation keeps
  it, so no operation panics.
\<close>

section \<open>The invariant\<close>

abbreviation gent :: "horizon_set \<Rightarrow> nat \<Rightarrow> nat list" where
  "gent h g \<equiv> hg_entries (hs_gheap h g)"

abbreviation gbas :: "horizon_set \<Rightarrow> nat \<Rightarrow> txn_bind list" where
  "gbas h g \<equiv> hg_bases (hs_gheap h g)"

abbreviation gtim :: "horizon_set \<Rightarrow> nat \<Rightarrow> nat option" where
  "gtim h g \<equiv> hg_timer (hs_gheap h g)"

abbreviation egrp :: "horizon_set \<Rightarrow> nat \<Rightarrow> nat" where
  "egrp h e \<equiv> he_group (hs_eheap h e)"

abbreviation etxn :: "horizon_set \<Rightarrow> nat \<Rightarrow> string" where
  "etxn h e \<equiv> he_txnID (hs_eheap h e)"

definition groups_ok :: "horizon_set \<Rightarrow> bool" where
  "groups_ok h \<longleftrightarrow> distinct (hs_groups h) \<and> (\<forall>g \<in> set (hs_groups h). g < hs_gcount h) \<and>
     (\<forall>g. g \<notin> set (hs_groups h) \<longrightarrow> gtim h g = None)"

definition member_ok :: "horizon_set \<Rightarrow> nat \<Rightarrow> nat \<Rightarrow> bool" where
  "member_ok h g e \<longleftrightarrow> e < hs_ecount h \<and> egrp h e = g \<and> fmlookup (hs_entries h) (etxn h e) = Some e \<and>
     \<not> he_ready (hs_eheap h e) \<and> he_bind (hs_eheap h e) \<in> set (gbas h g)"

definition members_ok :: "horizon_set \<Rightarrow> bool" where
  "members_ok h \<longleftrightarrow> (\<forall>g \<in> set (hs_groups h). distinct (gent h g) \<and> (\<forall>e \<in> set (gent h g). member_ok h g e))"

definition entries_ok :: "horizon_set \<Rightarrow> bool" where
  "entries_ok h \<longleftrightarrow>
     (\<forall>t e. fmlookup (hs_entries h) t = Some e \<longrightarrow>
        etxn h e = t \<and> egrp h e \<in> set (hs_groups h) \<and> e \<in> set (gent h (egrp h e))) \<and>
     (\<forall>e < hs_ecount h. he_ready (hs_eheap h e) \<or> fmlookup (hs_entries h) (etxn h e) = Some e)"

definition bases_apart :: "txn_bind list \<Rightarrow> txn_bind list \<Rightarrow> bool" where
  "bases_apart xs ys \<longleftrightarrow> (\<forall>a \<in> set xs. \<forall>b \<in> set ys. \<not> bindsShareBase a b)"

definition apart :: "horizon_set \<Rightarrow> bool" where
  "apart h \<longleftrightarrow>
     (\<forall>g \<in> set (hs_groups h). \<forall>g' \<in> set (hs_groups h).
        g \<noteq> g' \<longrightarrow> gent h g \<noteq> [] \<longrightarrow> gent h g' \<noteq> [] \<longrightarrow> bases_apart (gbas h g) (gbas h g'))"

definition timers_ok :: "horizon_set \<Rightarrow> bool" where
  "timers_ok h \<longleftrightarrow>
     (\<forall>g \<in> set (hs_groups h). \<forall>t. gtim h g = Some t \<longrightarrow>
        t < hs_tcount h \<and> ht_group (hs_theap h t) = g \<and> \<not> ht_stopped (hs_theap h t))"

definition horizon_inv :: "horizon_set \<Rightarrow> bool" where
  "horizon_inv h \<longleftrightarrow> groups_ok h \<and> members_ok h \<and> entries_ok h \<and> apart h \<and> timers_ok h"

definition horizon_wf :: "horizon_set \<Rightarrow> bool" where
  "horizon_wf h \<longleftrightarrow> horizon_inv h \<and> (\<forall>g \<in> set (hs_groups h). gent h g \<noteq> [])"

lemma bases_apart_sym: "bases_apart xs ys = bases_apart ys xs"
  unfolding bases_apart_def using bindsShareBase_sym by blast

lemma bases_apart_append [simp]:
  "bases_apart (xs @ xs') ys \<longleftrightarrow> bases_apart xs ys \<and> bases_apart xs' ys"
  "bases_apart ys (xs @ xs') \<longleftrightarrow> bases_apart ys xs \<and> bases_apart ys xs'"
  by (auto simp: bases_apart_def)

lemma not_overlaps_iff: "\<not> overlaps bases bnd \<longleftrightarrow> bases_apart bases [bnd]"
  by (simp add: overlaps_def bases_apart_def list_ex_iff)

lemma newHorizonSet_wf: "horizon_wf (newHorizonSet p)"
  by (simp add: newHorizonSet_def horizon_wf_def horizon_inv_def groups_ok_def members_ok_def
      entries_ok_def apart_def timers_ok_def empty_group_def)

lemma member_pending:
  assumes "horizon_inv h" and "g \<in> set (hs_groups h)" and "e \<in> set (gent h g)"
  shows "e < hs_ecount h" "egrp h e = g" "fmlookup (hs_entries h) (etxn h e) = Some e"
    "\<not> he_ready (hs_eheap h e)" "he_bind (hs_eheap h e) \<in> set (gbas h g)"
  using assms unfolding horizon_inv_def members_ok_def member_ok_def by blast+

lemma pending_member:
  assumes "horizon_inv h" and "fmlookup (hs_entries h) t = Some e"
  shows "etxn h e = t" "egrp h e \<in> set (hs_groups h)" "e \<in> set (gent h (egrp h e))"
  using assms unfolding horizon_inv_def entries_ok_def by blast+

lemma member_groups_disjoint:
  assumes "horizon_inv h" and "g \<in> set (hs_groups h)" and "g' \<in> set (hs_groups h)" and "g \<noteq> g'"
  shows "set (gent h g) \<inter> set (gent h g') = {}"
  using member_pending(2) [OF assms(1,2)] member_pending(2) [OF assms(1,3)] assms(4) by blast

text \<open>Members of a group are determined by their transaction.\<close>

lemma member_txn_inj:
  assumes "horizon_inv h" "g \<in> set (hs_groups h)" "g' \<in> set (hs_groups h)"
    "e \<in> set (gent h g)" "e' \<in> set (gent h g')" "etxn h e = etxn h e'"
  shows "e = e'"
proof -
  have "Some e = Some e'"
    using member_pending(3) [OF assms(1,2,4), unfolded assms(6)] member_pending(3) [OF assms(1,3,5)]
    by (rule trans [OF sym])
  then show ?thesis by (rule option.inject [THEN iffD1])
qed

section \<open>Pruning\<close>

lemma fold_release_group:
  "hs_entries (fold release_group gs h) = hs_entries h"
  "hs_groups (fold release_group gs h) = hs_groups h"
  "hs_eheap (fold release_group gs h) = hs_eheap h"
  "hs_ecount (fold release_group gs h) = hs_ecount h"
  "hs_gcount (fold release_group gs h) = hs_gcount h"
  "hs_tcount (fold release_group gs h) = hs_tcount h"
  "hs_pending (fold release_group gs h) = hs_pending h"
  "hs_added (fold release_group gs h) = hs_added h"
  by (induction gs arbitrary: h) (simp_all add: release_group_def Let_def)

lemma fold_release_gheap:
  "hs_gheap (fold release_group gs h) g =
     (if g \<in> set gs then (hs_gheap h g)\<lparr>hg_timer := None, hg_bases := []\<rparr> else hs_gheap h g)"
  by (induction gs arbitrary: h) (auto simp: release_group_def Let_def)

lemma fold_release_theap_group:
  "ht_group (hs_theap (fold release_group gs h) t) = ht_group (hs_theap h t)"
  by (induction gs arbitrary: h) (auto simp: release_group_def Let_def split: option.split)

lemma fold_release_theap_stopped:
  "ht_stopped (hs_theap (fold release_group gs h) t) \<Longrightarrow>
     ht_stopped (hs_theap h t) \<or> (\<exists>g \<in> set gs. gtim h g = Some t)"
proof (induction gs arbitrary: h)
  case (Cons g gs)
  show ?case
    using Cons.IH [of "release_group g h"] Cons.prems
    by (auto simp: release_group_def Let_def split: option.splits if_splits)
qed simp

lemma pruneGroups_fields [simp]:
  "hs_entries (pruneGroups h) = hs_entries h"
  "hs_groups (pruneGroups h) = filter (\<lambda>g. gent h g \<noteq> []) (hs_groups h)"
  "hs_eheap (pruneGroups h) = hs_eheap h"
  "hs_ecount (pruneGroups h) = hs_ecount h"
  "hs_gcount (pruneGroups h) = hs_gcount h"
  "hs_tcount (pruneGroups h) = hs_tcount h"
  "hs_pending (pruneGroups h) = hs_pending h"
  "hs_added (pruneGroups h) = hs_added h"
  by (simp_all add: pruneGroups_def Let_def fold_release_group)

lemma pruneGroups_gheap:
  "hs_gheap (pruneGroups h) g =
     (if g \<in> set (hs_groups h) \<and> gent h g = [] then (hs_gheap h g)\<lparr>hg_timer := None, hg_bases := []\<rparr>
      else hs_gheap h g)"
  by (auto simp: pruneGroups_def Let_def fold_release_gheap)

lemma pruneGroups_gent [simp]: "gent (pruneGroups h) g = gent h g"
  by (simp add: pruneGroups_gheap)

lemma pruneGroups_theap_group [simp]: "ht_group (hs_theap (pruneGroups h) t) = ht_group (hs_theap h t)"
  by (simp add: pruneGroups_def Let_def fold_release_theap_group)

lemma pruneGroups_theap_stopped:
  assumes "ht_stopped (hs_theap (pruneGroups h) t)"
  shows "ht_stopped (hs_theap h t) \<or> (\<exists>g \<in> set (hs_groups h). gent h g = [] \<and> gtim h g = Some t)"
  using assms fold_release_theap_stopped [of "filter (\<lambda>g. \<not> length (gent h g) \<noteq> 0) (hs_groups h)" h t]
  by (auto simp: pruneGroups_def Let_def)

lemma pruneGroups_wf:
  assumes inv: "horizon_inv h"
  shows "horizon_wf (pruneGroups h)"
proof -
  have live: "hs_gheap (pruneGroups h) g = hs_gheap h g" if "gent h g \<noteq> []" for g
    using that by (simp add: pruneGroups_gheap)
  have "groups_ok (pruneGroups h)"
    using inv by (auto simp: horizon_inv_def groups_ok_def pruneGroups_gheap)
  moreover have "members_ok (pruneGroups h)"
    using inv by (auto simp: horizon_inv_def members_ok_def member_ok_def live)
  moreover have "entries_ok (pruneGroups h)"
    using inv pending_member(3) [OF inv] by (fastforce simp: horizon_inv_def entries_ok_def)
  moreover have "apart (pruneGroups h)"
    using inv by (auto simp: horizon_inv_def apart_def live)
  moreover have "timers_ok (pruneGroups h)"
  proof -
    have "\<not> ht_stopped (hs_theap (pruneGroups h) t)"
      if g: "g \<in> set (hs_groups h)" "gent h g \<noteq> []" "gtim h g = Some t" for g t
    proof
      assume "ht_stopped (hs_theap (pruneGroups h) t)"
      then obtain g' where "g' \<in> set (hs_groups h)" "gent h g' = []" "gtim h g' = Some t"
        using pruneGroups_theap_stopped [of h t] g inv by (auto simp: horizon_inv_def timers_ok_def)
      then have "ht_group (hs_theap h t) = g'" "ht_group (hs_theap h t) = g"
        using inv g by (auto simp: horizon_inv_def timers_ok_def)
      then show False using g \<open>gent h g' = []\<close> by simp
    qed
    then show ?thesis
      using inv by (auto simp: horizon_inv_def timers_ok_def live)
  qed
  ultimately show ?thesis
    by (simp add: horizon_wf_def horizon_inv_def)
qed

section \<open>Merging\<close>

lemma fold_set_group:
  "fold (\<lambda>e eh. eh(e := (eh e)\<lparr>he_group := t\<rparr>)) es eh e =
     (if e \<in> set es then (eh e)\<lparr>he_group := t\<rparr> else eh e)"
  by (induction es arbitrary: eh) auto

lemma merge_group_fields [simp]:
  "hs_entries (merge_group t g h) = hs_entries h"
  "hs_groups (merge_group t g h) = hs_groups h"
  "hs_ecount (merge_group t g h) = hs_ecount h"
  "hs_gcount (merge_group t g h) = hs_gcount h"
  "hs_tcount (merge_group t g h) = hs_tcount h"
  "hs_pending (merge_group t g h) = hs_pending h"
  "hs_added (merge_group t g h) = hs_added h"
  by (simp_all add: merge_group_def Let_def)

lemma merge_group_eheap:
  "hs_eheap (merge_group t g h) e =
     (if e \<in> set (gent h g) then (hs_eheap h e)\<lparr>he_group := t\<rparr> else hs_eheap h e)"
  by (simp add: merge_group_def Let_def fold_set_group)

lemma merge_group_eheap_fields [simp]:
  "etxn (merge_group t g h) e = etxn h e"
  "he_bind (hs_eheap (merge_group t g h) e) = he_bind (hs_eheap h e)"
  "he_ready (hs_eheap (merge_group t g h) e) = he_ready (hs_eheap h e)"
  by (simp_all add: merge_group_eheap)

lemma merge_group_other [simp]: "x \<noteq> t \<Longrightarrow> x \<noteq> g \<Longrightarrow> hs_gheap (merge_group t g h) x = hs_gheap h x"
  by (simp add: merge_group_def Let_def)

lemma merge_group_gone [simp]:
  "gent (merge_group t g h) g = []"
  "gtim (merge_group t g h) g = (if gtim h t = None then None else gtim h g)"
  by (auto simp: merge_group_def Let_def)

lemma merge_group_target [simp]:
  assumes "t \<noteq> g"
  shows "gent (merge_group t g h) t = gent h t @ gent h g"
    "gbas (merge_group t g h) t = gbas h t @ gbas h g"
    "gtim (merge_group t g h) t = (if gtim h t = None then gtim h g else gtim h t)"
  using assms by (auto simp: merge_group_def Let_def)

lemma merge_group_theap:
  "ht_stopped (hs_theap (merge_group t g h) x) = ht_stopped (hs_theap h x)"
  "ht_group (hs_theap (merge_group t g h) x) =
     (if gtim h t = None \<and> gtim h g = Some x then t else ht_group (hs_theap h x))"
  by (auto simp: merge_group_def Let_def)

text \<open>One merge keeps each part of the invariant.\<close>

lemma merge_group_members:
  assumes inv: "horizon_inv h" and t: "t \<in> set (hs_groups h)" and g: "g \<in> set (hs_groups h)"
    and "t \<noteq> g"
  shows "members_ok (merge_group t g h)"
  unfolding members_ok_def merge_group_fields
proof (intro ballI)
  fix x assume x: "x \<in> set (hs_groups h)"
  consider "x = t" | "x = g" | "x \<noteq> t" "x \<noteq> g" by blast
  then show "distinct (gent (merge_group t g h) x) \<and>
    (\<forall>e \<in> set (gent (merge_group t g h) x). member_ok (merge_group t g h) x e)"
  proof cases
    case 1
    then show ?thesis
      using inv t g \<open>t \<noteq> g\<close> member_groups_disjoint [OF inv t g \<open>t \<noteq> g\<close>]
      by (auto simp: horizon_inv_def members_ok_def member_ok_def merge_group_eheap)
  next
    case 2
    then show ?thesis by simp
  next
    case 3
    then show ?thesis
      using inv x member_groups_disjoint [OF inv x g \<open>x \<noteq> g\<close>]
      by (auto simp: horizon_inv_def members_ok_def member_ok_def merge_group_eheap)
  qed
qed

lemma merge_group_entries:
  assumes inv: "horizon_inv h" and t: "t \<in> set (hs_groups h)" and "t \<noteq> g"
  shows "entries_ok (merge_group t g h)"
  unfolding entries_ok_def merge_group_fields merge_group_eheap_fields
proof (intro conjI allI impI)
  fix x e assume e: "fmlookup (hs_entries h) x = Some e"
  note p = pending_member [OF inv e]
  show "etxn h e = x" by (rule p(1))
  show "egrp (merge_group t g h) e \<in> set (hs_groups h)"
    using p(2) t by (simp add: merge_group_eheap)
  show "e \<in> set (gent (merge_group t g h) (egrp (merge_group t g h) e))"
  proof (cases "e \<in> set (gent h g)")
    case True
    then show ?thesis using \<open>t \<noteq> g\<close> by (simp add: merge_group_eheap)
  next
    case False
    with p(3) have "egrp h e \<noteq> g" by auto
    then show ?thesis
      using False p(3) \<open>t \<noteq> g\<close> by (cases "egrp h e = t") (simp_all add: merge_group_eheap)
  qed
next
  fix e assume "e < hs_ecount h"
  then show "he_ready (hs_eheap h e) \<or> fmlookup (hs_entries h) (etxn h e) = Some e"
    using inv by (simp add: horizon_inv_def entries_ok_def)
qed

lemma merge_group_apart:
  assumes inv: "horizon_inv h" and t: "t \<in> set (hs_groups h)" and g: "g \<in> set (hs_groups h)"
    and "t \<noteq> g" and ne: "gent h t \<noteq> []" "gent h g \<noteq> []"
  shows "apart (merge_group t g h)"
  unfolding apart_def merge_group_fields
proof (intro ballI impI)
  fix x y assume x: "x \<in> set (hs_groups h)" and y: "y \<in> set (hs_groups h)" and "x \<noteq> y"
    and nex: "gent (merge_group t g h) x \<noteq> []" and ney: "gent (merge_group t g h) y \<noteq> []"
  have sep: "bases_apart (gbas h a) (gbas h b)"
    if "a \<in> set (hs_groups h)" "b \<in> set (hs_groups h)" "a \<noteq> b" "gent h a \<noteq> []" "gent h b \<noteq> []" for a b
    using inv that by (simp add: horizon_inv_def apart_def)
  have "x \<noteq> g" "y \<noteq> g" using nex ney by auto
  then consider "x = t" "y \<noteq> t" "y \<noteq> g" | "y = t" "x \<noteq> t" "x \<noteq> g" | "x \<noteq> t" "y \<noteq> t" "x \<noteq> g" "y \<noteq> g"
    using \<open>x \<noteq> y\<close> by blast
  then show "bases_apart (gbas (merge_group t g h) x) (gbas (merge_group t g h) y)"
    using sep x y t g ne nex ney \<open>t \<noteq> g\<close> \<open>x \<noteq> y\<close> by cases simp_all
qed

lemma merge_group_timers:
  assumes inv: "horizon_inv h" and t: "t \<in> set (hs_groups h)" and g: "g \<in> set (hs_groups h)"
    and "t \<noteq> g"
  shows "timers_ok (merge_group t g h)"
  unfolding timers_ok_def merge_group_fields merge_group_theap
proof (intro ballI allI impI)
  fix x tm assume x: "x \<in> set (hs_groups h)" and tm: "gtim (merge_group t g h) x = Some tm"
  have old: "a < hs_tcount h \<and> ht_group (hs_theap h a) = b \<and> \<not> ht_stopped (hs_theap h a)"
    if "b \<in> set (hs_groups h)" "gtim h b = Some a" for a b
    using inv that by (simp add: horizon_inv_def timers_ok_def)
  consider "x = t" | "x = g" | "x \<noteq> t" "x \<noteq> g" by blast
  then show "tm < hs_tcount h \<and>
      (if gtim h t = None \<and> gtim h g = Some tm then t else ht_group (hs_theap h tm)) = x \<and>
      \<not> ht_stopped (hs_theap h tm)"
  proof cases
    case 1
    then show ?thesis
      using tm old [OF t] old [OF g] \<open>t \<noteq> g\<close> by (auto split: if_splits)
  next
    case 2
    then show ?thesis
      using tm old [OF g] by (auto split: if_splits)
  next
    case 3
    then show ?thesis
      using tm old [OF x] old [OF g] by auto
  qed
qed

lemma merge_group_inv:
  assumes "horizon_inv h" and "t \<in> set (hs_groups h)" and "g \<in> set (hs_groups h)"
    and "t \<noteq> g" and "gent h t \<noteq> []" "gent h g \<noteq> []"
  shows "horizon_inv (merge_group t g h)"
proof -
  have "groups_ok (merge_group t g h)"
    using assms(1-3) unfolding horizon_inv_def groups_ok_def merge_group_fields
    by (metis merge_group_other)
  then show ?thesis
    using assms merge_group_members merge_group_entries merge_group_apart merge_group_timers
    unfolding horizon_inv_def [of "merge_group t g h"] by blast
qed

text \<open>A bind whose group holds a fallback timer keeps one until it is resolved, and a resolved bind
  stays resolved.\<close>

definition armed :: "horizon_set \<Rightarrow> nat \<Rightarrow> bool" where
  "armed h e \<longleftrightarrow> gtim h (egrp h e) \<noteq> None"

definition progress :: "horizon_set \<Rightarrow> horizon_set \<Rightarrow> bool" where
  "progress h h' \<longleftrightarrow> hs_ecount h \<le> hs_ecount h' \<and>
     (\<forall>e < hs_ecount h.
        he_bind (hs_eheap h' e) = he_bind (hs_eheap h e) \<and> etxn h' e = etxn h e \<and>
        (he_ready (hs_eheap h e) \<longrightarrow> he_ready (hs_eheap h' e)) \<and>
        (armed h e \<longrightarrow> \<not> he_ready (hs_eheap h' e) \<longrightarrow> armed h' e))"

lemma progress_refl [simp]: "progress h h"
  by (simp add: progress_def)

lemma progress_trans: "progress h h' \<Longrightarrow> progress h' h'' \<Longrightarrow> progress h h''"
  unfolding progress_def using less_le_trans [of _ "hs_ecount h" "hs_ecount h'"] by fastforce

text \<open>An unresolved entry is a member of a listed group.\<close>

lemma open_member:
  assumes "horizon_inv h" and "e < hs_ecount h" and "\<not> he_ready (hs_eheap h e)"
  shows "egrp h e \<in> set (hs_groups h)" "e \<in> set (gent h (egrp h e))"
  using assms pending_member(2,3) [OF assms(1)] unfolding horizon_inv_def entries_ok_def by blast+

lemma merge_group_progress:
  assumes inv: "horizon_inv h" and g: "g \<in> set (hs_groups h)" and "t \<noteq> g"
  shows "progress h (merge_group t g h)"
proof -
  have "armed (merge_group t g h) e"
    if e: "e < hs_ecount h" "\<not> he_ready (hs_eheap h e)" and "armed h e" for e
  proof (cases "e \<in> set (gent h g)")
    case True
    then show ?thesis
      using \<open>armed h e\<close> member_pending(2) [OF inv g True] \<open>t \<noteq> g\<close>
      by (simp add: armed_def merge_group_eheap)
  next
    case False
    then have "egrp h e \<noteq> g" using open_member [OF inv e] by auto
    then show ?thesis
      using False \<open>armed h e\<close> \<open>t \<noteq> g\<close>
      by (cases "egrp h e = t") (auto simp: armed_def merge_group_eheap)
  qed
  then show ?thesis by (simp add: progress_def)
qed

text \<open>The loop of \<open>Add\<close>: afterwards no live group but the target overlaps the new bind.\<close>

definition merge_done :: "txn_bind \<Rightarrow> nat list \<Rightarrow> nat option \<Rightarrow> horizon_set \<Rightarrow> bool" where
  "merge_done bnd rest target h \<longleftrightarrow> horizon_inv h \<and>
     (\<forall>g \<in> set (hs_groups h). gent h g \<noteq> [] \<longrightarrow> g \<notin> set rest \<longrightarrow> Some g \<noteq> target \<longrightarrow>
        bases_apart (gbas h g) [bnd]) \<and>
     (\<forall>t. target = Some t \<longrightarrow> t \<in> set (hs_groups h) \<and> t \<notin> set rest \<and> gent h t \<noteq> [])"

lemma merge_loop_done:
  assumes "merge_done bnd gs target h" and "distinct gs" and "set gs \<subseteq> set (hs_groups h)"
    and "\<forall>g \<in> set gs. gent h g \<noteq> []"
  shows "merge_done bnd [] (fst (merge_loop bnd gs target h)) (snd (merge_loop bnd gs target h)) \<and>
    progress h (snd (merge_loop bnd gs target h))"
  using assms
proof (induction gs arbitrary: target h)
  case Nil
  then show ?case by simp
next
  case (Cons g gs)
  show ?case
  proof (cases "overlaps (gbas h g) bnd")
    case False
    then have "merge_done bnd gs target h"
      using Cons.prems(1) not_overlaps_iff by (auto simp: merge_done_def)
    then show ?thesis using Cons.IH [of target h] Cons.prems False by simp
  next
    case True
    show ?thesis
    proof (cases target)
      case None
      then have "merge_done bnd gs (Some g) h"
        using Cons.prems by (auto simp: merge_done_def)
      then show ?thesis using Cons.IH [of "Some g" h] Cons.prems True None by simp
    next
      case (Some t)
      let ?h = "merge_group t g h"
      have inv: "horizon_inv h" and t: "t \<in> set (hs_groups h)" "t \<noteq> g" "t \<notin> set gs" "gent h t \<noteq> []"
        and g: "g \<in> set (hs_groups h)" "gent h g \<noteq> []" "g \<notin> set gs"
        using Cons.prems Some by (auto simp: merge_done_def)
      have same: "hs_gheap ?h x = hs_gheap h x" if "x \<in> set gs" for x
        using that t g by (intro merge_group_other) auto
      have "bases_apart (gbas ?h x) [bnd]"
        if "x \<in> set (hs_groups h)" "gent ?h x \<noteq> []" "x \<notin> set gs" "x \<noteq> t" for x
      proof -
        have "x \<noteq> g" using that by auto
        then show ?thesis using that Cons.prems(1) Some by (simp add: merge_done_def)
      qed
      then have "merge_done bnd gs (Some t) ?h"
        using merge_group_inv [OF inv t(1) g(1) t(2) t(4) g(2)] t by (auto simp: merge_done_def)
      then show ?thesis
        using Cons.IH [of "Some t" ?h] Cons.prems True Some same
          progress_trans [OF merge_group_progress [OF inv g(1) t(2)]] by simp
    qed
  qed
qed

lemma merge_loop_fields [simp]:
  "hs_entries (snd (merge_loop bnd gs target h)) = hs_entries h"
  "hs_ecount (snd (merge_loop bnd gs target h)) = hs_ecount h"
  "hs_gcount (snd (merge_loop bnd gs target h)) = hs_gcount h"
  by (induction gs arbitrary: target h) (simp_all split: option.split)

lemma merge_loop_Some [simp]: "fst (merge_loop bnd gs (Some t) h) = Some t"
  by (induction gs arbitrary: h) simp_all

lemma merge_loop_None:
  "fst (merge_loop bnd gs None h) = None \<Longrightarrow> snd (merge_loop bnd gs None h) = h"
  by (induction gs) (simp_all split: if_splits)

section \<open>Joining\<close>

lemma join_group_fields [simp]:
  "hs_groups (join_group t x b h) = hs_groups h"
  "hs_gcount (join_group t x b h) = hs_gcount h"
  "hs_tcount (join_group t x b h) = hs_tcount h"
  "hs_theap (join_group t x b h) = hs_theap h"
  "hs_ecount (join_group t x b h) = Suc (hs_ecount h)"
  "hs_entries (join_group t x b h) = fmupd x (hs_ecount h) (hs_entries h)"
  "hs_eheap (join_group t x b h) = (hs_eheap h)(hs_ecount h :=
     \<lparr>he_group = t, he_txnID = x, he_bind = b, he_ready = False\<rparr>)"
  "gtim (join_group t x b h) g = gtim h g"
  "gent (join_group t x b h) g = (if g = t then gent h t @ [hs_ecount h] else gent h g)"
  "gbas (join_group t x b h) g = (if g = t then gbas h t @ [b] else gbas h g)"
  by (simp_all add: join_group_def Let_def)

lemma join_group_inv:
  assumes inv: "horizon_inv h" and t: "t \<in> set (hs_groups h)" and x: "fmlookup (hs_entries h) x = None"
    and sep: "\<And>g. g \<in> set (hs_groups h) \<Longrightarrow> g \<noteq> t \<Longrightarrow> gent h g \<noteq> [] \<Longrightarrow>
      bases_apart (gbas h g) [b] \<and> bases_apart (gbas h g) (gbas h t)"
  shows "horizon_inv (join_group t x b h)"
proof -
  let ?h = "join_group t x b h"
  have "groups_ok ?h"
    using inv by (simp add: horizon_inv_def groups_ok_def)
  moreover have "members_ok ?h"
    unfolding members_ok_def
  proof (intro ballI conjI)
    fix g assume g: "g \<in> set (hs_groups ?h)"
    have old: "member_ok ?h g e" "e \<noteq> hs_ecount h" if e: "e \<in> set (gent h g)" for e
      using member_pending [OF inv _ e] g x by (auto simp: member_ok_def)
    have "distinct (gent h g)"
      using inv g by (simp add: horizon_inv_def members_ok_def)
    with old(2) show "distinct (gent ?h g)" by auto
    have new: "member_ok ?h t (hs_ecount h)" by (simp add: member_ok_def)
    show "member_ok ?h g e" if "e \<in> set (gent ?h g)" for e
    proof (cases "e \<in> set (gent h g)")
      case False
      then have "g = t" "e = hs_ecount h" using that by (auto split: if_splits)
      then show ?thesis using new by simp
    qed (rule old(1))
  qed
  moreover have "entries_ok ?h"
    unfolding entries_ok_def
  proof (intro conjI allI impI)
    fix u e assume u: "fmlookup (hs_entries ?h) u = Some e"
    have old: "e \<noteq> hs_ecount h" if "fmlookup (hs_entries h) u = Some e"
      using member_pending(1) [OF inv pending_member(2,3) [OF inv that]] by simp
    show "etxn ?h e = u" "egrp ?h e \<in> set (hs_groups ?h)" "e \<in> set (gent ?h (egrp ?h e))"
      using u old pending_member [OF inv, of u e] t by (auto split: if_splits)
  next
    fix e assume e: "e < hs_ecount ?h"
    show "he_ready (hs_eheap ?h e) \<or> fmlookup (hs_entries ?h) (etxn ?h e) = Some e"
    proof (cases "e = hs_ecount h")
      case False
      with e have "he_ready (hs_eheap h e) \<or> fmlookup (hs_entries h) (etxn h e) = Some e"
        using inv by (simp add: horizon_inv_def entries_ok_def)
      then show ?thesis using False x by auto
    qed simp
  qed
  moreover have "apart ?h"
    unfolding apart_def
  proof (intro ballI impI)
    fix g g' assume g: "g \<in> set (hs_groups ?h)" "g' \<in> set (hs_groups ?h)" "g \<noteq> g'"
      "gent ?h g \<noteq> []" "gent ?h g' \<noteq> []"
    consider "g = t" "g' \<noteq> t" | "g' = t" "g \<noteq> t" | "g \<noteq> t" "g' \<noteq> t" using g(3) by blast
    then show "bases_apart (gbas ?h g) (gbas ?h g')"
    proof cases
      case 1
      then show ?thesis using sep [of g'] g by (simp add: bases_apart_sym)
    next
      case 2
      then show ?thesis using sep [of g] g by simp
    next
      case 3
      then show ?thesis using inv g by (simp add: horizon_inv_def apart_def)
    qed
  qed
  moreover have "timers_ok ?h"
    using inv by (simp add: horizon_inv_def timers_ok_def)
  ultimately show ?thesis by (simp add: horizon_inv_def)
qed

lemma join_group_progress: "progress h (join_group t x b h)"
  by (simp add: progress_def armed_def)

lemma new_group_fields [simp]:
  "fst (new_group h) = hs_gcount h"
  "hs_groups (snd (new_group h)) = hs_groups h @ [hs_gcount h]"
  "hs_gheap (snd (new_group h)) = (hs_gheap h)(hs_gcount h := empty_group)"
  "hs_gcount (snd (new_group h)) = Suc (hs_gcount h)"
  "hs_ecount (snd (new_group h)) = hs_ecount h"
  "hs_tcount (snd (new_group h)) = hs_tcount h"
  "hs_eheap (snd (new_group h)) = hs_eheap h"
  "hs_theap (snd (new_group h)) = hs_theap h"
  "hs_entries (snd (new_group h)) = hs_entries h"
  by (simp_all add: new_group_def)

lemma new_group_inv:
  assumes inv: "horizon_inv h"
  shows "horizon_inv (snd (new_group h))"
proof -
  have fresh: "g \<noteq> hs_gcount h" if "g \<in> set (hs_groups h)" for g
    using inv that by (auto simp: horizon_inv_def groups_ok_def)
  have "groups_ok (snd (new_group h))" "members_ok (snd (new_group h))"
    "entries_ok (snd (new_group h))" "apart (snd (new_group h))" "timers_ok (snd (new_group h))"
    using inv fresh
    by (auto simp: horizon_inv_def groups_ok_def members_ok_def member_ok_def entries_ok_def apart_def
        timers_ok_def empty_group_def less_Suc_eq)
  then show ?thesis by (simp add: horizon_inv_def)
qed

lemma new_group_progress: "horizon_inv h \<Longrightarrow> progress h (snd (new_group h))"
  using open_member(1) [of h]
  by (fastforce simp: progress_def armed_def horizon_inv_def groups_ok_def)

lemma pruneGroups_progress:
  assumes "horizon_inv h"
  shows "progress h (pruneGroups h)"
proof -
  have "armed (pruneGroups h) e"
    if "e < hs_ecount h" "\<not> he_ready (hs_eheap h e)" "armed h e" for e
    using open_member [OF assms that(1,2)] that(3) by (auto simp: armed_def pruneGroups_gheap)
  then show ?thesis by (simp add: progress_def)
qed

lemma Add_wf:
  assumes wf: "horizon_wf h"
  shows "horizon_wf (Add x b h) \<and> progress h (Add x b h)"
proof (cases "fmlookup (hs_entries h) x = None")
  case False
  then show ?thesis using wf by (simp add: Add_def)
next
  case x: True
  let ?m = "merge_loop b (hs_groups h) None h"
  have inv: "horizon_inv h" and ne: "\<forall>g \<in> set (hs_groups h). gent h g \<noteq> []"
    using wf by (simp_all add: horizon_wf_def)
  have "distinct (hs_groups h)" using inv by (simp add: horizon_inv_def groups_ok_def)
  moreover have "merge_done b (hs_groups h) None h" using inv by (simp add: merge_done_def)
  ultimately have done1: "merge_done b [] (fst ?m) (snd ?m)" and prog: "progress h (snd ?m)"
    using merge_loop_done [of b "hs_groups h" None h] ne by simp_all
  show ?thesis
  proof (cases "fst ?m")
    case None
    have m: "?m = (None, h)" using None merge_loop_None by (metis prod.collapse)
    have sep: "bases_apart (gbas h g) [b]" if "g \<in> set (hs_groups h)" for g
      using done1 that ne by (simp add: m merge_done_def)
    let ?n = "snd (new_group h)"
    have eq: "Add x b h = join_group (hs_gcount h) x b ?n"
      using x by (simp add: Add_def m new_group_def)
    have fresh: "g \<noteq> hs_gcount h" if "g \<in> set (hs_groups h)" for g
      using inv that by (auto simp: horizon_inv_def groups_ok_def)
    have "horizon_inv (Add x b h)"
      unfolding eq using new_group_inv [OF inv] x sep
      by (intro join_group_inv) (auto simp: empty_group_def bases_apart_def)
    then show ?thesis
      using ne fresh progress_trans [OF new_group_progress [OF inv] join_group_progress]
      by (auto simp: horizon_wf_def eq)
  next
    case (Some t)
    let ?p = "pruneGroups (snd ?m)"
    have eq: "Add x b h = join_group t x b ?p"
      using x Some by (cases ?m) (simp add: Add_def)
    have inv1: "horizon_inv (snd ?m)" and t: "t \<in> set (hs_groups (snd ?m))" "gent (snd ?m) t \<noteq> []"
      and sep: "\<And>g. g \<in> set (hs_groups (snd ?m)) \<Longrightarrow> gent (snd ?m) g \<noteq> [] \<Longrightarrow> g \<noteq> t \<Longrightarrow>
        bases_apart (gbas (snd ?m) g) [b]"
      using done1 Some by (auto simp: merge_done_def)
    have wf2: "horizon_wf ?p" by (rule pruneGroups_wf [OF inv1])
    have "horizon_inv (Add x b h)"
      unfolding eq
    proof (rule join_group_inv)
      fix g assume g: "g \<in> set (hs_groups ?p)" "g \<noteq> t"
      then show "bases_apart (gbas ?p g) [b] \<and> bases_apart (gbas ?p g) (gbas ?p t)"
        using sep [of g] t wf2
        by (auto simp: pruneGroups_gheap horizon_wf_def horizon_inv_def apart_def)
    qed (use wf2 t x in \<open>simp_all add: horizon_wf_def\<close>)
    then show ?thesis
      using wf2 progress_trans [OF prog progress_trans [OF pruneGroups_progress [OF inv1] join_group_progress]]
      by (auto simp: horizon_wf_def eq)
  qed
qed

end
