(* ===== verification/Horizon_Safe.thy ===== *)
theory Horizon_Safe
  imports Horizon_Inv
begin

text \<open>
  Resolution in the horizon set: what \<open>MakeVisible\<close>, \<open>Abort\<close> and the fallback timer release, and the
  guarantees over every interleaving of the operations: no panic, competing binds become visible
  together, a scheduled bind never loses its fallback timer, and a blocked reader is woken exactly
  when its bind is resolved.
\<close>

section \<open>Resolving members\<close>

definition new_tips :: "txn_bind \<Rightarrow> tip set" where
  "new_tips b = (\<lambda>kb. EffectSeqFromRef (kb_new_tip kb)) ` set (tb_keys b)"

text \<open>\<open>h'\<close> is \<open>h\<close> with the entries \<open>es\<close> released, their group pointers and lists untouched.\<close>

definition released :: "nat set \<Rightarrow> horizon_set \<Rightarrow> horizon_set \<Rightarrow> bool" where
  "released es h h' \<longleftrightarrow>
     hs_groups h' = hs_groups h \<and> hs_gheap h' = hs_gheap h \<and> hs_theap h' = hs_theap h \<and>
     hs_ecount h' = hs_ecount h \<and> hs_gcount h' = hs_gcount h \<and> hs_tcount h' = hs_tcount h \<and>
     hs_added h' = hs_added h \<and>
     (\<forall>e. hs_eheap h' e = (if e \<in> es then (hs_eheap h e)\<lparr>he_ready := True\<rparr> else hs_eheap h e)) \<and>
     (\<forall>t. fmlookup (hs_entries h') t = (if t \<in> etxn h ` es then None else fmlookup (hs_entries h) t)) \<and>
     (\<forall>p. fmlookup (hs_pending h') p =
        (if p \<in> (\<Union>e \<in> es. new_tips (he_bind (hs_eheap h e))) then None else fmlookup (hs_pending h) p))"

lemma fold_fmdrop_lookup:
  "fmlookup (fold (\<lambda>x. fmdrop (f x)) xs m) k = (if k \<in> f ` set xs then None else fmlookup m k)"
  by (induction xs arbitrary: m) auto

lemma resolve_released:
  assumes "\<not> he_ready (hs_eheap h e)"
  shows "\<exists>h'. resolve e h = Some h' \<and> released {e} h h'"
  using assms by (simp add: resolve_def Let_def released_def fold_fmdrop_lookup new_tips_def)

lemma released_lookup:
  assumes "released es h h'"
  shows "fmlookup (hs_entries h') t = (if t \<in> etxn h ` es then None else fmlookup (hs_entries h) t)"
    "fmlookup (hs_pending h') p =
       (if p \<in> (\<Union>e \<in> es. new_tips (he_bind (hs_eheap h e))) then None else fmlookup (hs_pending h) p)"
    "hs_eheap h' e = (if e \<in> es then (hs_eheap h e)\<lparr>he_ready := True\<rparr> else hs_eheap h e)"
  using assms unfolding released_def by blast+

lemma released_entry_fields:
  assumes "released es h h'"
  shows "egrp h' e = egrp h e" "etxn h' e = etxn h e"
    "he_bind (hs_eheap h' e) = he_bind (hs_eheap h e)"
    "he_ready (hs_eheap h' e) = (e \<in> es \<or> he_ready (hs_eheap h e))"
  by (simp_all add: released_lookup(3) [OF assms])

lemma released_trans:
  assumes "released A h h1" and "released B h1 h2"
  shows "released (A \<union> B) h h2"
proof -
  have "hs_groups h2 = hs_groups h \<and> hs_gheap h2 = hs_gheap h \<and> hs_theap h2 = hs_theap h \<and>
     hs_ecount h2 = hs_ecount h \<and> hs_gcount h2 = hs_gcount h \<and> hs_tcount h2 = hs_tcount h \<and>
     hs_added h2 = hs_added h"
    using assms by (simp add: released_def)
  then show ?thesis
    by (simp add: released_def released_lookup [OF assms(2)] released_lookup(1,2) [OF assms(1)]
        released_entry_fields [OF assms(1)] image_Un)
qed

lemma released_none: "released {} h h"
  by (simp add: released_def)

lemma resolve_all_released:
  assumes "distinct es" and "\<forall>e \<in> set es. \<not> he_ready (hs_eheap h e)"
  shows "\<exists>h'. resolve_all es h = Some h' \<and> released (set es) h h'"
  using assms
proof (induction es arbitrary: h)
  case Nil
  then show ?case by (simp add: released_none)
next
  case (Cons e es)
  obtain h1 where h1: "resolve e h = Some h1" "released {e} h h1"
    using resolve_released [of h e] Cons.prems by auto
  have "\<forall>x \<in> set es. \<not> he_ready (hs_eheap h1 x)"
    using Cons.prems h1(2) by (auto simp: released_def)
  then obtain h2 where "resolve_all es h1 = Some h2" "released (set es) h1 h2"
    using Cons.IH [of h1] Cons.prems by auto
  then show ?case
    using h1 released_trans [OF h1(2)] by simp
qed

text \<open>Releasing members of a group and taking them off its list keeps the invariant.\<close>

definition drop_members :: "nat \<Rightarrow> nat list \<Rightarrow> horizon_set \<Rightarrow> horizon_set" where
  "drop_members g ms h = h\<lparr>hs_gheap := (hs_gheap h)(g := (hs_gheap h g)\<lparr>hg_entries := ms\<rparr>)\<rparr>"

lemma drop_members_fields [simp]:
  "hs_groups (drop_members g ms h) = hs_groups h" "hs_theap (drop_members g ms h) = hs_theap h"
  "hs_ecount (drop_members g ms h) = hs_ecount h" "hs_gcount (drop_members g ms h) = hs_gcount h"
  "hs_tcount (drop_members g ms h) = hs_tcount h" "hs_added (drop_members g ms h) = hs_added h"
  "hs_eheap (drop_members g ms h) = hs_eheap h" "hs_entries (drop_members g ms h) = hs_entries h"
  "hs_pending (drop_members g ms h) = hs_pending h"
  "gtim (drop_members g ms h) x = gtim h x" "gbas (drop_members g ms h) x = gbas h x"
  "gent (drop_members g ms h) x = (if x = g then ms else gent h x)"
  by (simp_all add: drop_members_def)

lemma released_inv:
  assumes inv: "horizon_inv h" and g: "g \<in> set (hs_groups h)" and es: "es \<subseteq> set (gent h g)"
    and rel: "released es h h1" and ms: "set ms = set (gent h g) - es" "distinct ms"
  shows "horizon_inv (drop_members g ms h1)"
proof -
  let ?h = "drop_members g ms h1"
  have same: "hs_groups h1 = hs_groups h" "hs_gheap h1 = hs_gheap h" "hs_theap h1 = hs_theap h"
    "hs_ecount h1 = hs_ecount h" "hs_gcount h1 = hs_gcount h" "hs_tcount h1 = hs_tcount h"
    using rel by (simp_all add: released_def)
  note ent = released_entry_fields [OF rel] and look = released_lookup(1) [OF rel]
  have untouched: "etxn h e \<notin> etxn h ` es" if "x \<in> set (hs_groups h)" "e \<in> set (gent h x)" "e \<notin> es" for x e
    using member_txn_inj [OF inv that(1) g that(2)] es that(3) by auto
  have "gent h g \<noteq> []" if "ms \<noteq> []" using ms(1) that by force
  then have "groups_ok ?h" "timers_ok ?h" "apart ?h"
    using inv by (auto simp: horizon_inv_def groups_ok_def timers_ok_def apart_def same split: if_splits)
  moreover have "members_ok ?h"
    unfolding members_ok_def drop_members_fields same
  proof (intro ballI conjI)
    fix x assume x: "x \<in> set (hs_groups h)"
    show "distinct (if x = g then ms else gent h x)"
      using inv x ms(2) by (simp add: horizon_inv_def members_ok_def)
    fix e assume "e \<in> set (if x = g then ms else gent h x)"
    then have e: "e \<in> set (gent h x)" "e \<notin> es"
      using ms(1) es member_groups_disjoint [OF inv x g] by (auto split: if_splits)
    show "member_ok ?h x e"
      using member_pending [OF inv x e(1)] untouched [OF x e] e(2)
      by (simp add: member_ok_def same ent look)
  qed
  moreover have "entries_ok ?h"
    unfolding entries_ok_def drop_members_fields same ent
  proof (intro conjI allI impI)
    fix t e assume "fmlookup (hs_entries h1) t = Some e"
    then have t: "fmlookup (hs_entries h) t = Some e" "t \<notin> etxn h ` es" by (simp_all add: look split: if_splits)
    note p = pending_member [OF inv t(1)]
    show "etxn h e = t" "egrp h e \<in> set (hs_groups h)" by (rule p)+
    have "e \<notin> es" using t(2) p(1) by auto
    then show "e \<in> set (if egrp h e = g then ms else gent h (egrp h e))"
      using p(3) ms(1) by auto
  next
    fix e assume "e < hs_ecount h"
    then have "he_ready (hs_eheap h e) \<or> fmlookup (hs_entries h) (etxn h e) = Some e"
      using inv by (simp add: horizon_inv_def entries_ok_def)
    then show "(e \<in> es \<or> he_ready (hs_eheap h e)) \<or> fmlookup (hs_entries h1) (etxn h e) = Some e"
      using untouched open_member [OF inv \<open>e < hs_ecount h\<close>] by (auto simp: look)
  qed
  ultimately show ?thesis by (simp add: horizon_inv_def)
qed

lemma released_progress:
  assumes "released es h h1"
  shows "progress h (drop_members g ms h1)"
  using assms by (auto simp: released_def progress_def armed_def)

section \<open>The operations\<close>

lemma makeGroupVisible_spec:
  assumes wf: "horizon_wf h" and g: "g \<in> set (hs_groups h)"
  shows "\<exists>h1 h2. makeGroupVisible g h = Some h2 \<and> released (set (gent h g)) h h1 \<and>
    horizon_wf h2 \<and> progress h h2 \<and> hs_entries h2 = hs_entries h1 \<and> hs_eheap h2 = hs_eheap h1 \<and>
    hs_pending h2 = hs_pending h1 \<and>
    hs_added h2 = hs_added h @
      compact (sort (concat (map (\<lambda>e. map kb_key (tb_keys (he_bind (hs_eheap h e)))) (gent h g))))"
proof -
  have inv: "horizon_inv h" using wf by (simp add: horizon_wf_def)
  have dist: "distinct (gent h g)"
    using inv g by (simp add: horizon_inv_def members_ok_def)
  obtain h1 where h1: "resolve_all (gent h g) h = Some h1" "released (set (gent h g)) h h1"
    using resolve_all_released [OF dist] member_pending(4) [OF inv g] by blast
  let ?h = "drop_members g [] h1"
  have inv1: "horizon_inv ?h"
    by (rule released_inv [OF inv g _ h1(2)]) simp_all
  let ?add = "\<lambda>h ks. h\<lparr>hs_added := hs_added h @ ks\<rparr>"
  let ?ks = "compact (sort (concat (map (\<lambda>e. map kb_key (tb_keys (he_bind (hs_eheap h e)))) (gent h g))))"
  have "makeGroupVisible g h = Some (?add (pruneGroups ?h) ?ks)"
    using h1 by (simp add: makeGroupVisible_def Let_def drop_members_def)
  moreover have "horizon_wf (?add (pruneGroups ?h) ?ks)"
    using pruneGroups_wf [OF inv1]
    by (simp add: horizon_wf_def horizon_inv_def groups_ok_def members_ok_def member_ok_def entries_ok_def
        apart_def timers_ok_def)
  moreover have "progress h (?add (pruneGroups ?h) ?ks)"
    using progress_trans [OF released_progress [OF h1(2)] pruneGroups_progress [OF inv1]]
    by (simp add: progress_def armed_def)
  ultimately show ?thesis
    using h1(2) by (intro exI conjI) (assumption | simp add: released_def)+
qed

lemma MakeVisible_wf:
  assumes "horizon_wf h"
  shows "\<exists>h'. MakeVisible t h = Some h' \<and> horizon_wf h' \<and> progress h h'"
proof (cases "fmlookup (hs_entries h) t")
  case None
  then show ?thesis using assms by (simp add: MakeVisible_def)
next
  case (Some e)
  then have "egrp h e \<in> set (hs_groups h)"
    using pending_member(2) assms by (auto simp: horizon_wf_def)
  then show ?thesis
    using makeGroupVisible_spec [OF assms] Some by (fastforce simp: MakeVisible_def)
qed

lemma Abort_wf:
  assumes "horizon_wf h"
  shows "\<exists>h'. Abort t h = Some h' \<and> horizon_wf h' \<and> progress h h'"
proof (cases "fmlookup (hs_entries h) t")
  case None
  then show ?thesis using assms by (simp add: Abort_def)
next
  case (Some e)
  have inv: "horizon_inv h" using assms by (simp add: horizon_wf_def)
  let ?g = "egrp h e" and ?ms = "remove1 e (gent h (egrp h e))"
  note p = pending_member [OF inv Some]
  have dist: "distinct (gent h ?g)" using inv p(2) by (simp add: horizon_inv_def members_ok_def)
  have open1: "\<not> he_ready (hs_eheap h e)" by (rule member_pending(4) [OF inv p(2,3)])
  obtain h1 where h1: "resolve e h = Some h1" "released {e} h h1"
    using resolve_released [OF open1] by blast
  have "resolve e (drop_members ?g ?ms h) = Some (drop_members ?g ?ms h1)"
    using h1(1) by (auto simp: resolve_def Let_def drop_members_def)
  then have "Abort t h = Some (pruneGroups (drop_members ?g ?ms h1))"
    using Some p(3) by (simp add: Abort_def Let_def drop_members_def)
  moreover have "horizon_inv (drop_members ?g ?ms h1)"
    using p dist by (intro released_inv [OF inv p(2) _ h1(2)]) auto
  ultimately show ?thesis
    using pruneGroups_wf pruneGroups_progress progress_trans [OF released_progress [OF h1(2)]] by blast
qed

lemma ScheduleMakeVisible_wf:
  assumes wf: "horizon_wf h"
  shows "horizon_wf (ScheduleMakeVisible t h) \<and> progress h (ScheduleMakeVisible t h)"
proof (cases "fmlookup (hs_entries h) t")
  case None
  then show ?thesis using wf by (simp add: ScheduleMakeVisible_def)
next
  case (Some e)
  have inv: "horizon_inv h" using wf by (simp add: horizon_wf_def)
  let ?h = "ScheduleMakeVisible t h" and ?g = "egrp h e"
  have f: "hs_entries ?h = hs_entries h" "hs_groups ?h = hs_groups h" "hs_eheap ?h = hs_eheap h"
    "hs_ecount ?h = hs_ecount h" "hs_gcount ?h = hs_gcount h" "hs_tcount ?h = Suc (hs_tcount h)"
    "gent ?h x = gent h x" "gbas ?h x = gbas h x"
    "gtim ?h x = (if x = ?g then Some (hs_tcount h) else gtim h x)" for x
    using Some by (simp_all add: ScheduleMakeVisible_def Let_def)
  have th: "ht_group (hs_theap ?h x) = (if x = hs_tcount h then ?g else ht_group (hs_theap h x))"
    "ht_stopped (hs_theap ?h x) \<Longrightarrow> x \<noteq> hs_tcount h \<and> (gtim h ?g = Some x \<or> ht_stopped (hs_theap h x))" for x
    using Some by (auto simp: ScheduleMakeVisible_def Let_def split: option.splits if_splits)
  note g = pending_member(2) [OF inv Some]
  have old: "a < hs_tcount h" "ht_group (hs_theap h a) = b" "\<not> ht_stopped (hs_theap h a)"
    if "b \<in> set (hs_groups h)" "gtim h b = Some a" for a b
    using inv that by (simp_all add: horizon_inv_def timers_ok_def)
  have "timers_ok ?h"
    unfolding timers_ok_def f th(1)
  proof (intro ballI allI impI)
    fix x tm assume x: "x \<in> set (hs_groups h)"
      and tm: "(if x = ?g then Some (hs_tcount h) else gtim h x) = Some tm"
    then show "tm < Suc (hs_tcount h) \<and> (if tm = hs_tcount h then ?g else ht_group (hs_theap h tm)) = x \<and>
        \<not> ht_stopped (hs_theap ?h tm)"
      using th(2) [of tm] old [OF x] old(2) [OF g] by (cases "x = ?g") auto
  qed
  moreover have "groups_ok ?h" "members_ok ?h" "entries_ok ?h" "apart ?h"
    using inv g
    by (auto simp: horizon_inv_def groups_ok_def members_ok_def member_ok_def entries_ok_def apart_def f)
  ultimately show ?thesis
    using wf by (simp add: horizon_wf_def horizon_inv_def f progress_def armed_def)
qed

lemma timer_fire_wf:
  assumes "horizon_wf h"
  shows "\<exists>h'. timer_fire t h = Some h' \<and> horizon_wf h' \<and> progress h h'"
proof (cases "gtim h (ht_group (hs_theap h t)) = Some t")
  case False
  then show ?thesis using assms by (simp add: timer_fire_def Let_def)
next
  case True
  then have "ht_group (hs_theap h t) \<in> set (hs_groups h)"
    using assms by (fastforce simp: horizon_wf_def horizon_inv_def groups_ok_def)
  then show ?thesis
    using makeGroupVisible_spec [OF assms] True by (fastforce simp: timer_fire_def Let_def)
qed

section \<open>Every interleaving\<close>

lemma horizon_exec_wf:
  assumes "horizon_wf h"
  shows "\<exists>h'. horizon_exec op h = Some h' \<and> horizon_wf h' \<and> progress h h'"
  using assms
  by (cases op) (simp_all add: Add_wf MakeVisible_wf Abort_wf ScheduleMakeVisible_wf timer_fire_wf)

lemma horizon_run_wf:
  assumes "horizon_wf h"
  shows "\<exists>h'. horizon_run ops h = Some h' \<and> horizon_wf h' \<and> progress h h'"
  using assms
proof (induction ops arbitrary: h)
  case (Cons op ops)
  obtain h1 where h1: "horizon_exec op h = Some h1" "horizon_wf h1" "progress h h1"
    using horizon_exec_wf [OF Cons.prems] by blast
  then show ?case using Cons.IH [OF h1(2)] progress_trans [OF h1(3)] by auto
qed simp

lemma horizon_run_Some:
  assumes "horizon_run ops h = Some h'" and "horizon_wf h"
  shows "horizon_wf h'" "progress h h'"
  using horizon_run_wf [OF assms(2), of ops] assms(1) by simp_all

lemmas horizon_started = horizon_run_Some [OF _ newHorizonSet_wf]

subsection \<open>An example\<close>

text \<open>Binds \<open>a\<close> and \<open>c\<close> touch different keys and start in groups of their own; \<open>b\<close> overlaps both and
  merges them while \<open>c\<close>'s timer runs.\<close>

definition ex_kb :: "string \<Rightarrow> uint64 \<Rightarrow> uint64 \<Rightarrow> key_bind" where
  "ex_kb k base new = \<lparr>kb_key = k, kb_heads = [], kb_consumed_tips = [Tip 1 base], kb_new_tip = Some (Tip 2 new)\<rparr>"

definition ex_bind :: "key_bind list \<Rightarrow> txn_bind" where
  "ex_bind ks = \<lparr>tb_keys = ks, tb_txn_hlc = None, tb_originator_node_id = 1, tb_abort_deps = []\<rparr>"

definition ex_ops :: "horizon_op list" where
  "ex_ops =
     [OpAdd ''a'' (ex_bind [ex_kb ''k'' 1 1]), OpAdd ''c'' (ex_bind [ex_kb ''m'' 2 2]), OpSchedule ''c'',
      OpAdd ''b'' (ex_bind [ex_kb ''k'' 1 3, ex_kb ''m'' 2 4])]"

definition ex_horizon :: horizon_set where
  "ex_horizon = the (horizon_run ex_ops (newHorizonSet (fmap_of_list [(Tip 2 2, [Tip 1 2])])))"

lemma ex_run: "horizon_run ex_ops (newHorizonSet (fmap_of_list [(Tip 2 2, [Tip 1 2])])) = Some ex_horizon"
  unfolding ex_horizon_def using horizon_run_wf [OF newHorizonSet_wf] by (metis option.sel)

lemmas horizon_eval = Add_def new_group_def join_group_def merge_group_def pruneGroups_def release_group_def
  overlaps_def empty_group_def newHorizonSet_def ScheduleMakeVisible_def bindsShareBase_def refsContain_def
  ex_bind_def ex_kb_def

lemma ex_lookup:
  "fmlookup (hs_entries ex_horizon) ''a'' = Some 0"
  "fmlookup (hs_entries ex_horizon) ''b'' = Some 2"
  "fmlookup (hs_entries ex_horizon) ''c'' = Some 1"
  "he_bind (hs_eheap ex_horizon 0) = ex_bind [ex_kb ''k'' 1 1]"
  "he_bind (hs_eheap ex_horizon 2) = ex_bind [ex_kb ''k'' 1 3, ex_kb ''m'' 2 4]"
  "he_bind (hs_eheap ex_horizon 1) = ex_bind [ex_kb ''m'' 2 2]"
  by (simp_all add: ex_horizon_def ex_ops_def horizon_eval)

text \<open>C12: Whatever sequence of operations and timer callbacks runs, no operation of the horizon set
  closes a channel twice or deletes at a missing index.\<close>

theorem horizon_never_panics: "\<exists>h. horizon_run ops (newHorizonSet pending) = Some h"
  using horizon_run_wf [OF newHorizonSet_wf] by blast

text \<open>Two pending binds that consumed a common tip of a key compete.\<close>

definition compete :: "horizon_set \<Rightarrow> string \<Rightarrow> string \<Rightarrow> bool" where
  "compete h t u \<longleftrightarrow>
     (case (fmlookup (hs_entries h) t, fmlookup (hs_entries h) u) of
        (Some e, Some f) \<Rightarrow> bindsShareBase (he_bind (hs_eheap h e)) (he_bind (hs_eheap h f))
      | _ \<Rightarrow> False)"

lemma compete_same_group:
  assumes inv: "horizon_wf h" and "compete h t u" and t: "fmlookup (hs_entries h) t = Some e"
  shows "\<exists>f. fmlookup (hs_entries h) u = Some f \<and> egrp h f = egrp h e"
proof -
  obtain f where u: "fmlookup (hs_entries h) u = Some f"
    and share: "bindsShareBase (he_bind (hs_eheap h e)) (he_bind (hs_eheap h f))"
    using assms(2) t by (auto simp: compete_def split: option.splits)
  have inv0: "horizon_inv h" using inv by (simp add: horizon_wf_def)
  note pe = pending_member(2,3) [OF inv0 t] and pf = pending_member(2,3) [OF inv0 u]
  have "egrp h f = egrp h e"
  proof (rule ccontr)
    assume "egrp h f \<noteq> egrp h e"
    then have "bases_apart (gbas h (egrp h e)) (gbas h (egrp h f))"
      using inv pe(1) pf(1) by (auto simp: horizon_wf_def horizon_inv_def apart_def)
    then show False
      using share member_pending(5) [OF inv0 pe] member_pending(5) [OF inv0 pf]
      by (auto simp: bases_apart_def)
  qed
  with u show ?thesis by blast
qed

lemma competitors_same_group:
  assumes "horizon_wf h" and "(compete h)\<^sup>*\<^sup>* t u" and "fmlookup (hs_entries h) t = Some e"
  shows "\<exists>f. fmlookup (hs_entries h) u = Some f \<and> egrp h f = egrp h e"
  using assms(2)
proof (induction rule: rtranclp_induct)
  case base
  then show ?case using assms(3) by blast
next
  case (step x y)
  then obtain f where "fmlookup (hs_entries h) x = Some f" "egrp h f = egrp h e" by blast
  then show ?case using compete_same_group [OF assms(1) step(2)] by fastforce
qed

text \<open>C13: When a pending bind is made visible, every bind that competes with it, directly or through a
  chain of competitors, becomes visible in the same step: it leaves the invisible set, none of its new
  tips stays pending, its waiting readers are woken, and each of its keys is announced.\<close>

theorem competing_binds_share_fate:
  assumes "horizon_run ops (newHorizonSet pending) = Some h"
    and "fmlookup (hs_entries h) t = Some e" and "(compete h)\<^sup>*\<^sup>* t u"
    and "MakeVisible t h = Some h'"
  shows "\<exists>f. fmlookup (hs_entries h) u = Some f \<and> \<not> IsInvisible u h' \<and> he_ready (hs_eheap h' f) \<and>
    (\<forall>kb \<in> set (tb_keys (he_bind (hs_eheap h f))).
       EffectSeqFromRef (kb_new_tip kb) |\<notin>| fmdom (hs_pending h') \<and> kb_key kb \<in> set (hs_added h'))"
proof -
  have wf: "horizon_wf h" by (rule horizon_started [OF assms(1)])
  then have inv: "horizon_inv h" by (simp add: horizon_wf_def)
  obtain f where f: "fmlookup (hs_entries h) u = Some f" "egrp h f = egrp h e"
    using competitors_same_group [OF wf assms(3,2)] by blast
  note pe = pending_member [OF inv assms(2)] and pf = pending_member [OF inv f(1)]
  obtain h1 where h1: "released (set (gent h (egrp h e))) h h1" "hs_entries h' = hs_entries h1"
    "hs_eheap h' = hs_eheap h1" "hs_pending h' = hs_pending h1"
    "hs_added h' = hs_added h @
       compact (sort (concat (map (\<lambda>e. map kb_key (tb_keys (he_bind (hs_eheap h e)))) (gent h (egrp h e)))))"
    using makeGroupVisible_spec [OF wf pe(2)] assms(2,4) by (auto simp: MakeVisible_def)
  have mem: "f \<in> set (gent h (egrp h e))" using pf(3) f(2) by simp
  have "\<not> IsInvisible u h'"
    using mem pf(1) by (auto simp: IsInvisible_def h1(2) released_lookup(1) [OF h1(1)])
  moreover have "he_ready (hs_eheap h' f)"
    using mem by (simp add: h1(3) released_lookup(3) [OF h1(1)])
  moreover have "EffectSeqFromRef (kb_new_tip kb) |\<notin>| fmdom (hs_pending h') \<and> kb_key kb \<in> set (hs_added h')"
    if "kb \<in> set (tb_keys (he_bind (hs_eheap h f)))" for kb
    using mem that
    by (auto simp: h1(4,5) fmlookup_dom_iff released_lookup(2) [OF h1(1)] new_tips_def split: if_splits)
  ultimately show ?thesis using f(1) by blast
qed

lemma ex_compete: "(compete ex_horizon)\<^sup>*\<^sup>* ''a'' ''c''"
proof -
  have "compete ex_horizon ''a'' ''b''" "compete ex_horizon ''b'' ''c''"
    by (simp_all add: compete_def ex_lookup horizon_eval del: One_nat_def)
  then show ?thesis by (meson converse_rtranclp_into_rtranclp rtranclp.rtrancl_refl)
qed

theorem competing_binds_share_fate_witness:
  "\<not> IsInvisible ''c'' (the (MakeVisible ''a'' ex_horizon)) \<and>
     Tip 2 2 |\<notin>| fmdom (hs_pending (the (MakeVisible ''a'' ex_horizon)))"
proof -
  obtain h' where h': "MakeVisible ''a'' ex_horizon = Some h'"
    using MakeVisible_wf [OF horizon_started(1) [OF ex_run]] by blast
  show ?thesis
    using competing_binds_share_fate [OF ex_run ex_lookup(1) ex_compete h'] h' ex_lookup(3)
    by (simp add: ex_lookup(6) ex_bind_def ex_kb_def EffectSeqFromRef_def del: One_nat_def)
qed

text \<open>C14: Once visibility is scheduled for a pending bind, then through any further operations, merges of
  its group included, either the bind gets resolved or its group owns a running timer whose callback
  resolves it.\<close>

theorem fallback_timer_survives:
  assumes "horizon_run ops (newHorizonSet pending) = Some h"
    and "fmlookup (hs_entries h) t = Some e"
    and "horizon_run ops' (ScheduleMakeVisible t h) = Some h'"
    and "\<not> he_ready (hs_eheap h' e)"
  shows "\<exists>tm h''. tm < hs_tcount h' \<and> \<not> ht_stopped (hs_theap h' tm) \<and>
    horizon_exec (OpFire tm) h' = Some h'' \<and> he_ready (hs_eheap h'' e) \<and> \<not> IsInvisible t h''"
proof -
  have wf: "horizon_wf h" by (rule horizon_started [OF assms(1)])
  then have inv: "horizon_inv h" by (simp add: horizon_wf_def)
  let ?s = "ScheduleMakeVisible t h"
  note pe = pending_member [OF inv assms(2)]
  have e: "e < hs_ecount h" by (rule member_pending(1) [OF inv pe(2,3)])
  have s: "armed ?s e" "hs_ecount ?s = hs_ecount h" "etxn ?s e = t"
    using assms(2) pe(1) by (simp_all add: armed_def ScheduleMakeVisible_def Let_def)
  have wf': "horizon_wf h'" and prog: "progress ?s h'"
    using horizon_run_Some [OF assms(3)] ScheduleMakeVisible_wf [OF wf] by blast+
  then have inv': "horizon_inv h'" by (simp add: horizon_wf_def)
  have e': "armed h' e" "e < hs_ecount h'" "etxn h' e = t"
    using prog s e assms(4) by (auto simp: progress_def)
  note mem = open_member [OF inv' e'(2) assms(4)]
  obtain tm where tm: "gtim h' (egrp h' e) = Some tm" using e'(1) by (auto simp: armed_def)
  have tm': "tm < hs_tcount h'" "ht_group (hs_theap h' tm) = egrp h' e" "\<not> ht_stopped (hs_theap h' tm)"
    using inv' mem(1) tm by (simp_all add: horizon_inv_def timers_ok_def)
  obtain h1 h2 where h2: "makeGroupVisible (egrp h' e) h' = Some h2"
    "released (set (gent h' (egrp h' e))) h' h1" "hs_entries h2 = hs_entries h1" "hs_eheap h2 = hs_eheap h1"
    using makeGroupVisible_spec [OF wf' mem(1)] by blast
  have "he_ready (hs_eheap h2 e)" "\<not> IsInvisible t h2"
    using mem(2) e'(3)
    by (auto simp: h2(3,4) IsInvisible_def released_lookup(1) [OF h2(2)] released_entry_fields(4) [OF h2(2)])
  moreover have "horizon_exec (OpFire tm) h' = Some h2"
    by (simp add: timer_fire_def Let_def tm tm' h2(1))
  ultimately show ?thesis
    using tm'(1,3) by blast
qed

theorem fallback_timer_survives_witness:
  "\<exists>tm h''. tm < hs_tcount ex_horizon \<and> \<not> ht_stopped (hs_theap ex_horizon tm) \<and>
     horizon_exec (OpFire tm) ex_horizon = Some h'' \<and> he_ready (hs_eheap h'' 1) \<and> \<not> IsInvisible ''c'' h''"
proof -
  let ?new = "newHorizonSet (fmap_of_list [(Tip 2 2, [Tip 1 2])])"
  obtain h where h: "horizon_run (take 2 ex_ops) ?new = Some h"
    using horizon_run_wf [OF newHorizonSet_wf] by blast
  have "fmlookup (hs_entries h) ''c'' = Some 1"
    using h by (auto simp: ex_ops_def horizon_eval)
  moreover have "horizon_run (drop 3 ex_ops) (ScheduleMakeVisible ''c'' h) = Some ex_horizon"
    using ex_run h by (simp add: ex_ops_def)
  moreover have "\<not> he_ready (hs_eheap ex_horizon 1)"
    by (simp add: ex_horizon_def ex_ops_def horizon_eval)
  ultimately show ?thesis
    by (rule fallback_timer_survives [OF h])
qed

text \<open>C15: A reader blocked on a pending bind is woken in exactly the states in which that bind is no longer
  held invisible: no wake-up is lost, and none comes early.\<close>

theorem waiter_woken_iff_resolved:
  assumes "horizon_run ops (newHorizonSet pending) = Some h"
    and "WaitForClear t h = WaitOn e"
    and "horizon_run ops' h = Some h'"
  shows "wait_done (WaitOn e) h' \<longleftrightarrow> fmlookup (hs_entries h') t \<noteq> Some e"
proof -
  have wf: "horizon_wf h" by (rule horizon_started [OF assms(1)])
  then have inv: "horizon_inv h" by (simp add: horizon_wf_def)
  have t: "fmlookup (hs_entries h) t = Some e"
    using assms(2) by (simp add: WaitForClear_def split: option.splits)
  note pe = pending_member [OF inv t]
  have e: "e < hs_ecount h" by (rule member_pending(1) [OF inv pe(2,3)])
  have wf': "horizon_inv h'" and prog: "progress h h'"
    using horizon_run_Some [OF assms(3) wf] by (simp_all add: horizon_wf_def)
  have e': "e < hs_ecount h'" "etxn h' e = t"
    using prog e pe(1) by (auto simp: progress_def)
  show ?thesis
  proof
    assume "wait_done (WaitOn e) h'"
    then have "he_ready (hs_eheap h' e)" by (simp add: wait_done_def)
    then show "fmlookup (hs_entries h') t \<noteq> Some e"
      using member_pending(4) [OF wf' pending_member(2,3) [OF wf']] by blast
  next
    assume "fmlookup (hs_entries h') t \<noteq> Some e"
    then show "wait_done (WaitOn e) h'"
      using wf' e' by (auto simp: wait_done_def horizon_inv_def entries_ok_def)
  qed
qed

theorem waiter_woken_iff_resolved_witness:
  "WaitForClear ''c'' ex_horizon = WaitOn 1 \<and>
     wait_done (WaitOn 1) (the (horizon_run [OpMakeVisible ''a''] ex_horizon))"
proof -
  have w: "WaitForClear ''c'' ex_horizon = WaitOn 1"
    by (simp add: WaitForClear_def ex_lookup)
  obtain h' where h': "horizon_run [OpMakeVisible ''a''] ex_horizon = Some h'"
    using horizon_run_wf [OF horizon_started(1) [OF ex_run]] by blast
  have "fmlookup (hs_entries h') ''c'' \<noteq> Some 1"
    using h'
    by (auto simp: ex_horizon_def ex_ops_def horizon_eval MakeVisible_def makeGroupVisible_def resolve_def
        split: option.splits)
  then show ?thesis
    using waiter_woken_iff_resolved [OF ex_run w h'] w h' by simp
qed

end
