(* ===== verification/Stack_Walk.thy ===== *)
theory Stack_Walk
  imports Go_Base
begin

text \<open>
  The engine's graph walks share one loop: pop an address from a stack, skip it if it was visited,
  mark it, fetch it, and let the loop body update the result and push further addresses.
  \<open>stack_walk\<close> is that loop, with the body as two arguments: \<open>miss\<close> for an address the store lacks
  and \<open>hit\<close> for one it holds. The locale \<open>graph_walk\<close> states what a body has to promise for the loop to
  visit exactly the reachable addresses, once each. The stack's top is the head of the list.
\<close>

function (sequential) stack_walk ::
  "('a, 'b) fmap \<Rightarrow> ('a \<Rightarrow> 'r \<Rightarrow> 'r) \<Rightarrow> ('a set \<Rightarrow> 'a \<Rightarrow> 'b \<Rightarrow> 'r \<Rightarrow> 'r \<times> 'a list) \<Rightarrow>
    'a list \<Rightarrow> 'a set \<Rightarrow> 'r \<Rightarrow> 'r" where
  "stack_walk elog miss hit [] visited acc = acc"
| "stack_walk elog miss hit (t # stack) visited acc =
     (if t \<in> visited then stack_walk elog miss hit stack visited acc
      else case fmlookup elog t of
             None \<Rightarrow> stack_walk elog miss hit stack (insert t visited) (miss t acc)
           | Some eff \<Rightarrow>
               (case hit (insert t visited) t eff acc of (acc', pushed) \<Rightarrow>
                  stack_walk elog miss hit (rev pushed @ stack) (insert t visited) acc'))"
  by pat_completeness auto
termination
proof (relation "inv_image (less_than <*lex*> less_than)
    (\<lambda>(elog, miss, hit, stack, visited, acc). (card (fset (fmdom elog) - visited), length stack))", goal_cases)
  case 1
  show ?case by (intro wf_inv_image wf_lex_prod wf_less_than)
next
  case (2 elog miss hit t stack visited acc)
  then show ?case by simp
next
  case (3 elog miss hit t stack visited acc)
  then have "fset (fmdom elog) - insert t visited = fset (fmdom elog) - visited"
    by (auto simp: fmlookup_dom_iff)
  then show ?case by simp
next
  case (4 elog miss hit t stack visited acc eff acc' pushed)
  then have "t \<in> fset (fmdom elog) - visited"
    by (simp add: fmlookup_dom_iff)
  moreover have "fset (fmdom elog) - insert t visited = fset (fmdom elog) - visited - {t}" by blast
  ultimately have "card (fset (fmdom elog) - insert t visited) < card (fset (fmdom elog) - visited)"
    by (simp only: card_Diff1_less finite_Diff finite_fset)
  then show ?case by simp
qed

text \<open>Reachability along a successor function that does not pass through \<open>avoid\<close>.\<close>

inductive reach_avoiding :: "('a \<Rightarrow> 'a list) \<Rightarrow> 'a set \<Rightarrow> 'a list \<Rightarrow> 'a \<Rightarrow> bool"
  for succ :: "'a \<Rightarrow> 'a list" and avoid :: "'a set" and starts :: "'a list" where
  start: "t \<in> set starts \<Longrightarrow> t \<notin> avoid \<Longrightarrow> reach_avoiding succ avoid starts t"
| step: "reach_avoiding succ avoid starts t \<Longrightarrow> u \<in> set (succ t) \<Longrightarrow> u \<notin> avoid \<Longrightarrow>
    reach_avoiding succ avoid starts u"

abbreviation walk_reach :: "('a \<Rightarrow> 'a list) \<Rightarrow> 'a list \<Rightarrow> 'a \<Rightarrow> bool" where
  "walk_reach succ starts t \<equiv> reach_avoiding succ {} starts t"

lemma reach_avoiding_not: "reach_avoiding succ avoid starts t \<Longrightarrow> t \<notin> avoid"
  by (induction rule: reach_avoiding.induct) auto

text \<open>Visiting one more address: what is reachable from the stack is the address itself and what is
  reachable from the rest of the stack and its successors without passing through it again.\<close>

lemma reach_avoiding_pop:
  assumes "t \<notin> avoid" and "set (succ t) - insert t avoid \<subseteq> set ps" and "set ps \<subseteq> set (succ t)"
  shows "reach_avoiding succ avoid (t # stack) x \<longleftrightarrow>
    x = t \<or> reach_avoiding succ (insert t avoid) (rev ps @ stack) x"
proof
  assume "reach_avoiding succ avoid (t # stack) x"
  then show "x = t \<or> reach_avoiding succ (insert t avoid) (rev ps @ stack) x"
  proof (induction rule: reach_avoiding.induct)
    case (start u)
    then show ?case by (auto intro: reach_avoiding.start)
  next
    case (step u v)
    show ?case
    proof (cases "v = t")
      case False
      from step.IH show ?thesis
      proof
        assume "u = t"
        then have "v \<in> set ps" using step.hyps False assms(2) by blast
        then show ?thesis using step.hyps False by (auto intro: reach_avoiding.start)
      next
        assume "reach_avoiding succ (insert t avoid) (rev ps @ stack) u"
        then show ?thesis using step.hyps False by (auto intro: reach_avoiding.step)
      qed
    qed simp
  qed
next
  assume "x = t \<or> reach_avoiding succ (insert t avoid) (rev ps @ stack) x"
  moreover have t: "reach_avoiding succ avoid (t # stack) t"
    using assms(1) by (auto intro: reach_avoiding.start)
  moreover have "reach_avoiding succ avoid (t # stack) x"
    if "reach_avoiding succ (insert t avoid) (rev ps @ stack) x"
    using that
  proof (induction rule: reach_avoiding.induct)
    case (start u)
    then show ?case
      using assms(3) t by (auto intro: reach_avoiding.intros)
  next
    case (step u v)
    then show ?case by (auto intro: reach_avoiding.step)
  qed
  ultimately show "reach_avoiding succ avoid (t # stack) x" by blast
qed

lemma reach_avoiding_skip:
  assumes "t \<in> avoid"
  shows "reach_avoiding succ avoid (t # stack) x \<longleftrightarrow> reach_avoiding succ avoid stack x"
proof
  assume "reach_avoiding succ avoid (t # stack) x"
  then show "reach_avoiding succ avoid stack x"
    by (induction rule: reach_avoiding.induct) (use assms in \<open>auto intro: reach_avoiding.intros\<close>)
next
  assume "reach_avoiding succ avoid stack x"
  then show "reach_avoiding succ avoid (t # stack) x"
    by (induction rule: reach_avoiding.induct) (auto intro: reach_avoiding.intros)
qed

text \<open>The contract of a loop body: what it adds to the result does not depend on the visited set, and
  it pushes the successors, leaving out at most visited ones.\<close>

locale graph_walk =
  fixes elog :: "('a, 'b) fmap"
    and miss :: "'a \<Rightarrow> 'r \<Rightarrow> 'r"
    and hit :: "'a set \<Rightarrow> 'a \<Rightarrow> 'b \<Rightarrow> 'r \<Rightarrow> 'r \<times> 'a list"
    and succ :: "'a \<Rightarrow> 'a list"
    and visit :: "'a \<Rightarrow> 'r \<Rightarrow> 'r"
  assumes missing: "fmlookup elog t = None \<Longrightarrow> succ t = [] \<and> visit t acc = miss t acc"
    and found: "fmlookup elog t = Some eff \<Longrightarrow>
      fst (hit v t eff acc) = visit t acc \<and>
      set (succ t) - v \<subseteq> set (snd (hit v t eff acc)) \<and> set (snd (hit v t eff acc)) \<subseteq> set (succ t)"
begin

lemma walk_visits:
  "\<exists>order. distinct order \<and> set order = {x. reach_avoiding succ visited stack x} \<and>
     stack_walk elog miss hit stack visited acc = fold visit order acc"
proof -
  have "e = elog \<Longrightarrow> m = miss \<Longrightarrow> h = hit \<Longrightarrow>
    \<exists>order. distinct order \<and> set order = {x. reach_avoiding succ visited stack x} \<and>
      stack_walk elog miss hit stack visited acc = fold visit order acc" for e m h
  proof (induction e m h stack visited acc rule: stack_walk.induct)
    case (1 e m h visited acc)
    have "\<not> reach_avoiding succ visited [] x" for x
      by (rule notI, induction rule: reach_avoiding.induct) auto
    then show ?case by (intro exI [of _ "[]"]) simp
  next
    case (2 e m h t stack visited acc)
    show ?case
    proof (cases "t \<in> visited")
      case True
      then show ?thesis using 2 reach_avoiding_skip [OF True, of succ] by simp
    next
      case new: False
      have pop: "distinct (t # order) \<and> set (t # order) = {x. reach_avoiding succ visited (t # stack) x}"
        if "distinct order" "set order = {x. reach_avoiding succ (insert t visited) (rev ps @ stack) x}"
          "set (succ t) - insert t visited \<subseteq> set ps" "set ps \<subseteq> set (succ t)" for order ps
        using that reach_avoiding_pop [of t visited succ ps stack] new
          reach_avoiding_not [of succ "insert t visited" "rev ps @ stack" t] by auto
      show ?thesis
      proof (cases "fmlookup elog t")
        case None
        then obtain order where "distinct order"
          "set order = {x. reach_avoiding succ (insert t visited) (rev [] @ stack) x}"
          "stack_walk elog miss hit stack (insert t visited) (miss t acc) = fold visit order (miss t acc)"
          using 2 new by auto
        then show ?thesis
          using pop [of order "[]"] None new missing [OF None] by (intro exI [of _ "t # order"]) simp
      next
        case (Some eff)
        obtain acc' ps where hit: "hit (insert t visited) t eff acc = (acc', ps)"
          by (cases "hit (insert t visited) t eff acc")
        then obtain order where "distinct order"
          "set order = {x. reach_avoiding succ (insert t visited) (rev ps @ stack) x}"
          "stack_walk elog miss hit (rev ps @ stack) (insert t visited) acc' = fold visit order acc'"
          using 2(3) [of eff acc' ps] new Some 2(4-6) by auto
        then show ?thesis
          using pop [of order ps] hit Some new found [OF Some, of "insert t visited" acc]
          by (intro exI [of _ "t # order"]) simp
      qed
    qed
  qed
  then show ?thesis by blast
qed

lemma walk_exact:
  "\<exists>order. distinct order \<and> set order = {x. walk_reach succ stack x} \<and>
     stack_walk elog miss hit stack {} acc = fold visit order acc"
  by (rule walk_visits)

end

end
