(* ===== verification/Predicate_Match.thy ===== *)
theory Predicate_Match
  imports Dag Stack_Walk
begin

text \<open>
  The predicate check of fork choice (effects/predicate.go): a three-valued evaluator of an observed
  predicate against a written row, the walk that collects a transaction's observations and row writes
  on a key, and the test that two transactions on a shared base really conflict.
\<close>

section \<open>The evaluator\<close>

datatype predTri = predFalse | predTrue | predUnknown

definition cmp3Int :: "int64 \<Rightarrow> int64 \<Rightarrow> int" where
  "cmp3Int a b = (if sint a < sint b then -1 else if sint a > sint b then 1 else 0)"

definition cmp3Float :: "float64 \<Rightarrow> float64 \<Rightarrow> int" where
  "cmp3Float a b = (if fless a b then -1 else if fless b a then 1 else 0)"

text \<open>\<open>cmp3Str\<close> and \<open>bytes.Compare\<close> are the same three-way comparison of byte lists.\<close>

definition cmp3Str :: "string \<Rightarrow> string \<Rightarrow> int" where
  "cmp3Str a b = (if a < b then -1 else if a > b then 1 else 0)"

definition predCmpFromInt :: "int \<Rightarrow> predicate_cmp_op \<Rightarrow> predTri" where
  "predCmpFromInt c op =
     (let tri = (\<lambda>yes. if yes then predTrue else predFalse) in
      case op of
        CMP_EQ \<Rightarrow> tri (c = 0)
      | CMP_LT \<Rightarrow> tri (c < 0)
      | CMP_LE \<Rightarrow> tri (c \<le> 0)
      | CMP_GT \<Rightarrow> tri (c > 0)
      | CMP_GE \<Rightarrow> tri (c \<ge> 0)
      | CMP_OTHER _ \<Rightarrow> predUnknown)"

definition isNumericKind :: "typed_value_kind \<Rightarrow> bool" where
  "isNumericKind k \<longleftrightarrow> k = TV_INT \<or> k = TV_FLOAT"

definition numericKindAsFloat :: "typed_value \<Rightarrow> float64" where
  "numericKindAsFloat v =
     (if tv_kind v = TV_FLOAT then tv_float_val v else f64_of_int (sint (tv_int_val v)))"

definition compareTypedValues :: "typed_value \<Rightarrow> predicate_cmp_op \<Rightarrow> typed_value \<Rightarrow> predTri" where
  "compareTypedValues a op b =
     (if tv_kind a = tv_kind b then
        (case tv_kind a of
           NULL_VALUE \<Rightarrow> predUnknown
         | TV_INT \<Rightarrow> predCmpFromInt (cmp3Int (tv_int_val a) (tv_int_val b)) op
         | TV_FLOAT \<Rightarrow> predCmpFromInt (cmp3Float (tv_float_val a) (tv_float_val b)) op
         | TV_TEXT \<Rightarrow> predCmpFromInt (cmp3Str (tv_text_val a) (tv_text_val b)) op
         | TV_BLOB \<Rightarrow> predCmpFromInt (cmp3Str (tv_blob_val a) (tv_blob_val b)) op
         | TV_OTHER _ \<Rightarrow> predUnknown)
      else if isNumericKind (tv_kind a) \<and> isNumericKind (tv_kind b) then
        predCmpFromInt (cmp3Float (numericKindAsFloat a) (numericKindAsFloat b)) op
      else predUnknown)"

text \<open>A column number is an unsigned 32-bit integer, so the guards against negative ones never apply.\<close>

definition predCmp :: "nat \<Rightarrow> predicate_cmp_op \<Rightarrow> typed_value option \<Rightarrow> row_write_effect \<Rightarrow> predTri" where
  "predCmp col op lit rw =
     (if col \<ge> length (rw_columns rw) then predUnknown
      else case lit of
             None \<Rightarrow> predUnknown
           | Some l \<Rightarrow>
               let left = rw_columns rw ! col in
               if tv_kind left = NULL_VALUE \<or> tv_kind l = NULL_VALUE then predUnknown
               else compareTypedValues left op l)"

definition predColCmp :: "nat \<Rightarrow> predicate_cmp_op \<Rightarrow> nat \<Rightarrow> row_write_effect \<Rightarrow> predTri" where
  "predColCmp leftCol op rightCol rw =
     (if leftCol \<ge> length (rw_columns rw) then predUnknown
      else if rightCol \<ge> length (rw_columns rw) then predUnknown
      else let l = rw_columns rw ! leftCol; r = rw_columns rw ! rightCol in
           if tv_kind l = NULL_VALUE \<or> tv_kind r = NULL_VALUE then predUnknown
           else compareTypedValues l op r)"

text \<open>A negation without a child evaluates the nil predicate, whose getters make it \<open>BOOL false\<close>.\<close>

fun predEval :: "predicate \<Rightarrow> row_write_effect \<Rightarrow> predTri"
  and pred_and :: "predTri \<Rightarrow> predicate list \<Rightarrow> row_write_effect \<Rightarrow> predTri"
  and pred_or :: "predTri \<Rightarrow> predicate list \<Rightarrow> row_write_effect \<Rightarrow> predTri" where
  "predEval (Predicate kind boolVal children child col col2 op literal) rw =
     (case kind of
        PRED_BOOL \<Rightarrow> if boolVal then predTrue else predFalse
      | PRED_AND \<Rightarrow> pred_and predTrue children rw
      | PRED_OR \<Rightarrow> pred_or predFalse children rw
      | PRED_NOT \<Rightarrow>
          (case (case child of None \<Rightarrow> predFalse | Some c \<Rightarrow> predEval c rw) of
             predTrue \<Rightarrow> predFalse
           | predFalse \<Rightarrow> predTrue
           | predUnknown \<Rightarrow> predUnknown)
      | PRED_CMP \<Rightarrow> predCmp (unat col) op literal rw
      | PRED_COL_CMP \<Rightarrow> predColCmp (unat col) op (unat col2) rw
      | PRED_IS_NULL \<Rightarrow>
          if unat col \<ge> length (rw_columns rw) then predUnknown
          else if tv_kind (rw_columns rw ! unat col) = NULL_VALUE then predTrue
          else predFalse
      | PRED_OTHER _ \<Rightarrow> predUnknown)"
| "pred_and acc [] rw = acc"
| "pred_and acc (c # cs) rw =
     (case predEval c rw of
        predFalse \<Rightarrow> predFalse
      | predUnknown \<Rightarrow> pred_and predUnknown cs rw
      | predTrue \<Rightarrow> pred_and acc cs rw)"
| "pred_or acc [] rw = acc"
| "pred_or acc (c # cs) rw =
     (case predEval c rw of
        predTrue \<Rightarrow> predTrue
      | predUnknown \<Rightarrow> pred_or predUnknown cs rw
      | predFalse \<Rightarrow> pred_or acc cs rw)"

definition predicateMatches :: "predicate option \<Rightarrow> row_write_effect \<Rightarrow> bool" where
  "predicateMatches p rw = (case p of None \<Rightarrow> False | Some q \<Rightarrow> predEval q rw = predTrue)"

section \<open>Evidence of a transaction on a key\<close>

type_synonym evidence = "predicate option list \<times> row_write_effect list"

definition collect_hit ::
  "string \<Rightarrow> bytes \<Rightarrow> tip set \<Rightarrow> tip \<Rightarrow> effect \<Rightarrow> evidence \<Rightarrow> evidence \<times> tip list" where
  "collect_hit txnID key visited t eff ev =
     (if eff_txn_id eff \<noteq> txnID then (ev, [])
      else
        let ev' =
          (if eff_key eff = key
           then (fst ev @ (case GetObservation eff of None \<Rightarrow> [] | Some p \<Rightarrow> [p]),
                 snd ev @ (case GetRowWrite eff of None \<Rightarrow> [] | Some w \<Rightarrow> [w]))
           else ev)
        in (ev', filter (\<lambda>d. d \<notin> visited) (allDeps eff)))"

definition collectTxnEffectsOnKey :: "store \<Rightarrow> string \<Rightarrow> bytes \<Rightarrow> tip list \<Rightarrow> evidence" where
  "collectTxnEffectsOnKey elog txnID key startTips =
     stack_walk elog (\<lambda>_ ev. ev) (collect_hit txnID key)
       (rev (filter (\<lambda>t. t \<noteq> zero_tip) startTips)) {} ([], [])"

definition hasPredicateEvidence :: "evidence \<Rightarrow> bool" where
  "hasPredicateEvidence ev \<longleftrightarrow> length (fst ev) > 0 \<or> length (snd ev) > 0"

definition observation_hits :: "predicate option list \<Rightarrow> row_write_effect list \<Rightarrow> bool" where
  "observation_hits obs rws =
     list_ex (\<lambda>p. p \<noteq> None \<and> list_ex (\<lambda>w. predicateMatches p w) rws) obs"

text \<open>The result pairs \<open>conflict\<close> with \<open>bothSidesHadEvidence\<close>.\<close>

definition predicateEvidenceConflict :: "evidence \<Rightarrow> evidence \<Rightarrow> bool \<times> bool" where
  "predicateEvidenceConflict our their =
     (if \<not> hasPredicateEvidence our \<or> \<not> hasPredicateEvidence their then (False, False)
      else if observation_hits (fst our) (snd their) then (True, True)
      else if observation_hits (fst their) (snd our) then (True, True)
      else (False, True))"

definition hasPredicateConflict ::
  "store \<Rightarrow> string \<Rightarrow> string \<Rightarrow> bytes \<Rightarrow> tip list \<Rightarrow> tip list \<Rightarrow> bool \<times> bool" where
  "hasPredicateConflict elog ourTxnID theirTxnID key ourStartTips theirStartTips =
     predicateEvidenceConflict (collectTxnEffectsOnKey elog ourTxnID key ourStartTips)
       (collectTxnEffectsOnKey elog theirTxnID key theirStartTips)"

section \<open>Three-valued evaluation is sound\<close>

text \<open>Two-valued evaluation, in which \<open>guess\<close> decides every comparison the row leaves unknown.\<close>

fun holds_under :: "(predicate \<Rightarrow> bool) \<Rightarrow> predicate \<Rightarrow> row_write_effect \<Rightarrow> bool" where
  "holds_under guess (Predicate kind boolVal children child col col2 op literal) rw =
     (case kind of
        PRED_AND \<Rightarrow> (\<forall>c \<in> set children. holds_under guess c rw)
      | PRED_OR \<Rightarrow> (\<exists>c \<in> set children. holds_under guess c rw)
      | PRED_NOT \<Rightarrow> (case child of None \<Rightarrow> True | Some c \<Rightarrow> \<not> holds_under guess c rw)
      | _ \<Rightarrow>
          let p = Predicate kind boolVal children child col col2 op literal in
          (case predEval p rw of predTrue \<Rightarrow> True | predFalse \<Rightarrow> False | predUnknown \<Rightarrow> guess p))"

definition decides :: "predTri \<Rightarrow> bool \<Rightarrow> bool" where
  "decides r b \<longleftrightarrow> (r = predTrue \<longrightarrow> b) \<and> (r = predFalse \<longrightarrow> \<not> b)"

lemma pred_and_cases:
  "pred_and acc cs rw =
     (if \<exists>c \<in> set cs. predEval c rw = predFalse then predFalse
      else if \<exists>c \<in> set cs. predEval c rw = predUnknown then predUnknown else acc)"
  by (induction cs arbitrary: acc) (auto split: predTri.split)

lemma pred_or_cases:
  "pred_or acc cs rw =
     (if \<exists>c \<in> set cs. predEval c rw = predTrue then predTrue
      else if \<exists>c \<in> set cs. predEval c rw = predUnknown then predUnknown else acc)"
  by (induction cs arbitrary: acc) (auto split: predTri.split)

lemma predEval_decides: "decides (predEval p rw) (holds_under guess p rw)"
proof (induction guess p rw rule: holds_under.induct)
  case (1 guess kind boolVal children child col col2 op literal rw)
  show ?case
  proof (cases kind)
    case PRED_AND
    then show ?thesis using 1(1) by (auto simp: decides_def pred_and_cases) (metis predTri.exhaust)
  next
    case PRED_OR
    then show ?thesis using 1(2) by (auto simp: decides_def pred_or_cases split: if_splits) (metis predTri.exhaust)
  next
    case PRED_NOT
    then show ?thesis using 1(3) by (auto simp: decides_def split: option.split predTri.split)
  qed (auto simp: decides_def Let_def split: predTri.split)
qed

text \<open>C17: A reported match is certain: if the evaluator says that a row matches a predicate, the predicate
  holds of the row however the comparisons that are unknown on it turn out; and a definite mismatch is
  as certain.\<close>

theorem predicate_match_sound:
  "(predicateMatches (Some p) rw \<longrightarrow> holds_under guess p rw) \<and>
   (predEval p rw = predFalse \<longrightarrow> \<not> holds_under guess p rw)"
  using predEval_decides [of p rw guess] by (auto simp: decides_def predicateMatches_def)

text \<open>A comparison with NULL beside a tautology.\<close>

definition ex_pred :: predicate where
  "ex_pred =
     Predicate PRED_OR False
       [Predicate PRED_CMP False [] None 0 0 CMP_LT
          (Some \<lparr>tv_kind = TV_INT, tv_int_val = 5, tv_float_val = FNaN, tv_text_val = [], tv_blob_val = []\<rparr>),
        Predicate PRED_NOT False [] (Some (Predicate PRED_BOOL False [] None 0 0 CMP_EQ None)) 0 0 CMP_EQ None]
       None 0 0 CMP_EQ None"

definition ex_row :: row_write_effect where
  "ex_row = \<lparr>rw_pk = ''p'', rw_kind = RW_INSERT, rw_columns =
     [\<lparr>tv_kind = NULL_VALUE, tv_int_val = 0, tv_float_val = FNaN, tv_text_val = [], tv_blob_val = []\<rparr>]\<rparr>"

theorem predicate_match_sound_witness:
  "predicateMatches (Some ex_pred) ex_row \<and> holds_under (\<lambda>_. False) ex_pred ex_row"
proof -
  have "predicateMatches (Some ex_pred) ex_row"
    by (simp add: predicateMatches_def ex_pred_def ex_row_def predCmp_def)
  then show ?thesis
    using predicate_match_sound [of ex_pred ex_row "\<lambda>_. False"] by blast
qed

section \<open>The conflict test is exact\<close>

text \<open>The effects of a transaction on a key that the walk can reach without leaving the transaction.\<close>

definition txn_succ :: "store \<Rightarrow> string \<Rightarrow> tip \<Rightarrow> tip list" where
  "txn_succ elog txnID t =
     (case fmlookup elog t of
        None \<Rightarrow> []
      | Some eff \<Rightarrow> if eff_txn_id eff = txnID then allDeps eff else [])"

definition txn_effect :: "store \<Rightarrow> string \<Rightarrow> bytes \<Rightarrow> tip list \<Rightarrow> effect \<Rightarrow> bool" where
  "txn_effect elog txnID key starts eff \<longleftrightarrow>
     eff_txn_id eff = txnID \<and> eff_key eff = key \<and>
     (\<exists>t. walk_reach (txn_succ elog txnID) (filter (\<lambda>t. t \<noteq> zero_tip) starts) t \<and> fmlookup elog t = Some eff)"

definition txn_observes :: "store \<Rightarrow> string \<Rightarrow> bytes \<Rightarrow> tip list \<Rightarrow> predicate \<Rightarrow> bool" where
  "txn_observes elog txnID key starts p \<longleftrightarrow>
     (\<exists>eff. txn_effect elog txnID key starts eff \<and> GetObservation eff = Some (Some p))"

definition txn_writes :: "store \<Rightarrow> string \<Rightarrow> bytes \<Rightarrow> tip list \<Rightarrow> row_write_effect \<Rightarrow> bool" where
  "txn_writes elog txnID key starts w \<longleftrightarrow>
     (\<exists>eff. txn_effect elog txnID key starts eff \<and> GetRowWrite eff = Some w)"

definition collect_visit :: "store \<Rightarrow> string \<Rightarrow> bytes \<Rightarrow> tip \<Rightarrow> evidence \<Rightarrow> evidence" where
  "collect_visit elog txnID key t ev =
     (case fmlookup elog t of None \<Rightarrow> ev | Some eff \<Rightarrow> fst (collect_hit txnID key {} t eff ev))"

interpretation collect: graph_walk elog "\<lambda>_ ev. ev" "collect_hit txnID key" "txn_succ elog txnID"
    "collect_visit elog txnID key" for elog txnID key
  by unfold_locales (auto simp: txn_succ_def collect_visit_def collect_hit_def Let_def)

lemma walk_reach_cong_set: "set xs = set ys \<Longrightarrow> walk_reach f xs t = walk_reach f ys t"
proof -
  have "walk_reach f ys t" if "walk_reach f xs t" "set xs = set ys" for xs ys
    using that by (induction rule: reach_avoiding.induct) (auto intro: reach_avoiding.intros)
  then show "set xs = set ys \<Longrightarrow> walk_reach f xs t = walk_reach f ys t" by metis
qed

lemma fold_collect_visit:
  "set (fst (fold (collect_visit elog txnID key) ts ev)) = set (fst ev) \<union>
     {p. \<exists>t \<in> set ts. \<exists>eff. fmlookup elog t = Some eff \<and> eff_txn_id eff = txnID \<and> eff_key eff = key \<and>
        GetObservation eff = Some p}"
  "set (snd (fold (collect_visit elog txnID key) ts ev)) = set (snd ev) \<union>
     {w. \<exists>t \<in> set ts. \<exists>eff. fmlookup elog t = Some eff \<and> eff_txn_id eff = txnID \<and> eff_key eff = key \<and>
        GetRowWrite eff = Some w}"
  by (induction ts arbitrary: ev)
    (auto simp: collect_visit_def collect_hit_def Let_def split: option.splits if_splits)

lemma collectTxnEffectsOnKey_set:
  "set (fst (collectTxnEffectsOnKey elog txnID key starts)) =
     {p. \<exists>eff. txn_effect elog txnID key starts eff \<and> GetObservation eff = Some p}"
  "set (snd (collectTxnEffectsOnKey elog txnID key starts)) =
     {w. \<exists>eff. txn_effect elog txnID key starts eff \<and> GetRowWrite eff = Some w}"
proof -
  let ?s = "filter (\<lambda>t. t \<noteq> zero_tip) starts"
  obtain order where order: "set order = {x. walk_reach (txn_succ elog txnID) (rev ?s) x}"
    and eq: "collectTxnEffectsOnKey elog txnID key starts = fold (collect_visit elog txnID key) order ([], [])"
    using collect.walk_exact [of elog txnID "rev ?s" key "([], [])"]
    unfolding collectTxnEffectsOnKey_def by blast
  have "walk_reach (txn_succ elog txnID) (rev ?s) x = walk_reach (txn_succ elog txnID) ?s x" for x
    by (rule walk_reach_cong_set) simp
  then show "set (fst (collectTxnEffectsOnKey elog txnID key starts)) =
      {p. \<exists>eff. txn_effect elog txnID key starts eff \<and> GetObservation eff = Some p}"
    "set (snd (collectTxnEffectsOnKey elog txnID key starts)) =
      {w. \<exists>eff. txn_effect elog txnID key starts eff \<and> GetRowWrite eff = Some w}"
    by (auto simp: eq fold_collect_visit order txn_effect_def)
qed

lemma observation_hits_iff:
  "observation_hits obs rws \<longleftrightarrow> (\<exists>p w. Some p \<in> set obs \<and> w \<in> set rws \<and> predicateMatches (Some p) w)"
  by (auto simp: observation_hits_def list_ex_iff)

lemma predicateEvidenceConflict_iff:
  "fst (predicateEvidenceConflict a b) \<longleftrightarrow> observation_hits (fst a) (snd b) \<or> observation_hits (fst b) (snd a)"
proof -
  have "obs \<noteq> [] \<and> rws \<noteq> []" if "observation_hits obs rws" for obs rws
    using that by (auto simp: observation_hits_iff)
  then show ?thesis
    by (auto simp: predicateEvidenceConflict_def hasPredicateEvidence_def)
qed

lemma predicateEvidenceConflict_sym: "predicateEvidenceConflict a b = predicateEvidenceConflict b a"
  by (simp add: predicateEvidenceConflict_def disj_commute)

text \<open>C16: Two transactions are reported in conflict on a key exactly when one of them observed, on that
  key and within its own reachable history, a predicate that matches a row the other wrote there. The
  answer is the same from either side.\<close>

theorem predicate_conflict_exact:
  "(fst (hasPredicateConflict elog a b key as bs) \<longleftrightarrow>
     (\<exists>p w. predicateMatches (Some p) w \<and>
        (txn_observes elog a key as p \<and> txn_writes elog b key bs w \<or>
         txn_observes elog b key bs p \<and> txn_writes elog a key as w))) \<and>
   hasPredicateConflict elog a b key as bs = hasPredicateConflict elog b a key bs as"
  unfolding hasPredicateConflict_def predicateEvidenceConflict_iff observation_hits_iff
    collectTxnEffectsOnKey_set txn_observes_def txn_writes_def mem_Collect_eq
  by (intro conjI predicateEvidenceConflict_sym) blast

lemma fless_FNaN_right [simp]: "\<not> fless x FNaN"
  by (cases x) simp_all


end
