(* ===== verification/Glob.thy ===== *)
theory Glob
  imports Go_Base
begin

text \<open>
  Redis-style glob matching: \<open>MatchGlob\<close> (keytrie/pattern.go) and \<open>MatchGlobPattern\<close>
  (crdt/dataplane.go), two copies of an iterative matcher with a single backtrack point. The loops
  are modelled with the indices of the code; they could run for ever, so they are partial functions
  in the option monad, and the theorem shows that they return, with the answer of the declarative
  matcher \<open>glob\<close>.
\<close>

section \<open>The matchers\<close>

fun matchCharClass :: "char \<Rightarrow> string \<Rightarrow> bool" where
  "matchCharClass b [] = False"
| "matchCharClass b (lo # dash # hi # cs) =
     (if dash = CHR ''-''
      then (if b \<ge> lo \<and> b \<le> hi then True else matchCharClass b cs)
      else (if b = lo then True else matchCharClass b (dash # hi # cs)))"
| "matchCharClass b (c # cs) = (if b = c then True else matchCharClass b cs)"

text \<open>What the switch over \<open>pattern[pi]\<close> decides about the current byte \<open>c\<close> of the string.\<close>

datatype glob_action = GStar | GAdvance nat | GMismatch | GMalformed

definition glob_step :: "string \<Rightarrow> nat \<Rightarrow> char \<Rightarrow> glob_action" where
  "glob_step pattern pi c =
     (if pi < length pattern then
        (let x = pattern ! pi in
         if x = CHR ''*'' then GStar
         else if x = CHR ''?'' then GAdvance (pi + 1)
         else if x = CHR ''['' then
           (let negate = (pi + 1 < length pattern \<and> pattern ! (pi + 1) = CHR ''^'');
                classStart = (if negate then pi + 2 else pi + 1);
                classBody = takeWhile (\<lambda>y. y \<noteq> CHR '']'') (drop classStart pattern);
                stop = classStart + length classBody
            in if stop \<ge> length pattern then GMalformed
               else if matchCharClass c classBody \<noteq> negate then GAdvance (stop + 1)
               else GMismatch)
         else if x = CHR 0x5C then
           (if pi + 1 < length pattern \<and> c = pattern ! (pi + 1) then GAdvance (pi + 2) else GMismatch)
         else if c = x then GAdvance (pi + 1) else GMismatch)
      else GMismatch)"

definition only_stars :: "string \<Rightarrow> bool" where
  "only_stars p = list_all (\<lambda>c. c = CHR ''*'') p"

text \<open>\<open>starIdx = -1\<close> is \<open>None\<close>.\<close>

partial_function (option) glob_loop ::
  "string \<Rightarrow> string \<Rightarrow> nat \<Rightarrow> nat \<Rightarrow> nat option \<Rightarrow> nat \<Rightarrow> bool option" where
  "glob_loop s pattern si pi starIdx matchIdx =
     (if si < length s then
        (case glob_step pattern pi (s ! si) of
           GStar \<Rightarrow> glob_loop s pattern si (pi + 1) (Some pi) si
         | GAdvance pi' \<Rightarrow> glob_loop s pattern (si + 1) pi' starIdx matchIdx
         | _ \<Rightarrow>
             (case starIdx of
                Some st \<Rightarrow> glob_loop s pattern (matchIdx + 1) (st + 1) starIdx (matchIdx + 1)
              | None \<Rightarrow> Some False))
      else Some (only_stars (drop pi pattern)))"

definition MatchGlob :: "string \<Rightarrow> string \<Rightarrow> bool option" where
  "MatchGlob s pattern = glob_loop s pattern 0 0 None 0"

text \<open>The copy in crdt/dataplane.go backtracks in the malformed-class branch itself.\<close>

partial_function (option) glob_pattern_loop ::
  "string \<Rightarrow> string \<Rightarrow> nat \<Rightarrow> nat \<Rightarrow> nat option \<Rightarrow> nat \<Rightarrow> bool option" where
  "glob_pattern_loop s pattern si pi starIdx matchIdx =
     (if si < length s then
        (case glob_step pattern pi (s ! si) of
           GStar \<Rightarrow> glob_pattern_loop s pattern si (pi + 1) (Some pi) si
         | GAdvance pi' \<Rightarrow> glob_pattern_loop s pattern (si + 1) pi' starIdx matchIdx
         | GMalformed \<Rightarrow>
             (case starIdx of
                Some st \<Rightarrow> glob_pattern_loop s pattern (matchIdx + 1) (st + 1) starIdx (matchIdx + 1)
              | None \<Rightarrow> Some False)
         | GMismatch \<Rightarrow>
             (case starIdx of
                Some st \<Rightarrow> glob_pattern_loop s pattern (matchIdx + 1) (st + 1) starIdx (matchIdx + 1)
              | None \<Rightarrow> Some False))
      else Some (only_stars (drop pi pattern)))"

definition MatchGlobPattern :: "string \<Rightarrow> string \<Rightarrow> bool option" where
  "MatchGlobPattern s pattern = glob_pattern_loop s pattern 0 0 None 0"

section \<open>What a pattern means\<close>

text \<open>The first item of a pattern that does not start with a star: which byte it accepts, and the
  rest of the pattern. A class that is not closed and a trailing backslash accept nothing.\<close>

definition glob_item :: "char \<Rightarrow> string \<Rightarrow> ((char \<Rightarrow> bool) \<times> string) option" where
  "glob_item x p =
     (if x = CHR ''?'' then Some (\<lambda>_. True, p)
      else if x = CHR ''['' then
        (let negate = (p \<noteq> [] \<and> hd p = CHR ''^''); q = (if negate then tl p else p) in
         case dropWhile (\<lambda>y. y \<noteq> CHR '']'') q of
           [] \<Rightarrow> None
         | _ # rest \<Rightarrow> Some (\<lambda>c. matchCharClass c (takeWhile (\<lambda>y. y \<noteq> CHR '']'') q) \<noteq> negate, rest))
      else if x = CHR 0x5C then (case p of [] \<Rightarrow> None | y # rest \<Rightarrow> Some (\<lambda>c. c = y, rest))
      else Some (\<lambda>c. c = x, p))"

lemma glob_item_length: "glob_item x p = Some (acc, rest) \<Longrightarrow> length rest \<le> length p"
proof -
  have "length rest \<le> length q" if "dropWhile P q = y # rest" for P q and y :: char
    using length_dropWhile_le [of P q] that by simp
  then show "glob_item x p = Some (acc, rest) \<Longrightarrow> length rest \<le> length p"
    by (fastforce simp: glob_item_def Let_def split: if_splits list.splits)
qed

text \<open>The meaning of a pattern: a star stands for any string, every other item for one byte.\<close>

function (sequential) glob :: "string \<Rightarrow> string \<Rightarrow> bool" where
  "glob [] s = (s = [])"
| "glob (x # p) s =
     (if x = CHR ''*'' then (\<exists>k \<le> length s. glob p (drop k s))
      else case glob_item x p of
             None \<Rightarrow> False
           | Some (acc, rest) \<Rightarrow> (case s of [] \<Rightarrow> False | c # s' \<Rightarrow> acc c \<and> glob rest s'))"
  by pat_completeness auto
termination
  by (relation "measure (\<lambda>(p, s). length p)") (auto dest: glob_item_length)

section \<open>One step\<close>

lemma drop_nth_Cons: "i < length p \<Longrightarrow> drop i p = p ! i # drop (i + 1) p"
  by (simp add: Cons_nth_drop_Suc)

lemma class_end:
  fixes q :: string
  defines "body \<equiv> takeWhile (\<lambda>y. y \<noteq> CHR '']'') q"
  shows "length body \<ge> length q \<longleftrightarrow> dropWhile (\<lambda>y. y \<noteq> CHR '']'') q = []"
    "length body < length q \<Longrightarrow>
       dropWhile (\<lambda>y. y \<noteq> CHR '']'') q = CHR '']'' # drop (length body + 1) q"
proof -
  have eq: "dropWhile (\<lambda>y. y \<noteq> CHR '']'') q = drop (length body) q"
    by (simp add: body_def dropWhile_eq_drop)
  show "length body \<ge> length q \<longleftrightarrow> dropWhile (\<lambda>y. y \<noteq> CHR '']'') q = []"
    by (simp add: eq)
  assume less: "length body < length q"
  then have "q ! length body = CHR '']''"
    using nth_length_takeWhile [of "\<lambda>y. y \<noteq> CHR '']''" q] by (simp add: body_def)
  then show "dropWhile (\<lambda>y. y \<noteq> CHR '']'') q = CHR '']'' # drop (length body + 1) q"
    using eq drop_nth_Cons [OF less] by simp
qed

text \<open>On an item that is not a star, the code advances past it exactly when the item accepts the byte.\<close>

lemma glob_step_item:
  assumes pi: "pi < length p" and x: "p ! pi \<noteq> CHR ''*''"
  shows "case glob_item (p ! pi) (drop (pi + 1) p) of
      None \<Rightarrow> glob_step p pi c \<in> {GMismatch, GMalformed}
    | Some (acc, rest) \<Rightarrow>
        if acc c then \<exists>pi'. glob_step p pi c = GAdvance pi' \<and> drop pi' p = rest \<and> pi < pi' \<and> pi' \<le> length p
        else glob_step p pi c = GMismatch"
proof (cases "p ! pi = CHR ''[''")
  case False
  then show ?thesis
    using pi x drop_nth_Cons [of "pi + 1" p]
    by (cases "pi + 1 < length p") (auto simp: glob_step_def glob_item_def Let_def)
next
  case True
  define neg where "neg \<longleftrightarrow> pi + 1 < length p \<and> p ! (pi + 1) = CHR ''^''"
  define st where "st = (if neg then pi + 2 else pi + 1)"
  define body where "body = takeWhile (\<lambda>y. y \<noteq> CHR '']'') (drop st p)"
  have neg: "(drop (pi + 1) p \<noteq> [] \<and> hd (drop (pi + 1) p) = CHR ''^'') = neg"
    by (auto simp: hd_drop_conv_nth neg_def)
  have q: "(if neg then tl (drop (pi + 1) p) else drop (pi + 1) p) = drop st p"
    by (simp add: tl_drop drop_Suc st_def)
  have item: "glob_item (p ! pi) (drop (pi + 1) p) =
      (case dropWhile (\<lambda>y. y \<noteq> CHR '']'') (drop st p) of
         [] \<Rightarrow> None
       | _ # rest \<Rightarrow> Some (\<lambda>c. matchCharClass c body \<noteq> neg, rest))"
    unfolding glob_item_def True Let_def neg q body_def by simp
  have step: "glob_step p pi c =
      (if st + length body \<ge> length p then GMalformed
       else if matchCharClass c body \<noteq> neg then GAdvance (st + length body + 1) else GMismatch)"
    unfolding glob_step_def Let_def True using pi by (auto simp: body_def st_def neg_def)
  have st: "pi < st" "st \<le> length p" using pi by (auto simp: st_def neg_def)
  show ?thesis
  proof (cases "st + length body \<ge> length p")
    case long: True
    then have dw: "dropWhile (\<lambda>y. y \<noteq> CHR '']'') (drop st p) = []"
      using class_end(1) [of "drop st p"] by (simp add: body_def le_diff_conv add.commute)
    show ?thesis unfolding item step dw using long by simp
  next
    case short: False
    then have dw: "dropWhile (\<lambda>y. y \<noteq> CHR '']'') (drop st p) = CHR '']'' # drop (st + length body + 1) p"
      using class_end(2) [of "drop st p"] by (simp add: body_def add.commute add.left_commute)
    show ?thesis unfolding item step dw using short st by auto
  qed
qed

lemma glob_drop_item:
  assumes "pi < length p" and "p ! pi \<noteq> CHR ''*''"
  shows "glob (drop pi p) (drop j s) \<longleftrightarrow>
    (\<exists>acc rest. glob_item (p ! pi) (drop (pi + 1) p) = Some (acc, rest) \<and> j < length s \<and> acc (s ! j) \<and>
       glob rest (drop (j + 1) s))"
  using assms by (cases "j < length s") (auto simp: drop_nth_Cons split: option.split)

lemma glob_drop_star:
  assumes "pi < length p" and "p ! pi = CHR ''*''" and "j \<le> length s"
  shows "glob (drop pi p) (drop j s) \<longleftrightarrow> (\<exists>k. j \<le> k \<and> k \<le> length s \<and> glob (drop (pi + 1) p) (drop k s))"
proof -
  have "glob (drop pi p) (drop j s) \<longleftrightarrow> (\<exists>k \<le> length s - j. glob (drop (pi + 1) p) (drop (j + k) s))"
    using assms by (simp add: drop_nth_Cons add.commute)
  also have "\<dots> \<longleftrightarrow> (\<exists>k. j \<le> k \<and> k \<le> length s \<and> glob (drop (pi + 1) p) (drop k s))"
    using assms(3) by (metis (no_types, opaque_lifting) add_diff_inverse_nat diff_le_mono le_add1 le_diff_conv2 not_le add.commute)
  finally show ?thesis .
qed

lemma glob_Nil_iff: "glob p [] \<longleftrightarrow> only_stars p"
  by (induction p) (auto simp: only_stars_def split: option.split)

text \<open>An advance is a step of the meaning; a mismatch refutes it.\<close>

lemma glob_advance:
  assumes "si < length s" and "glob_step p pi (s ! si) = GAdvance pi'"
  shows "pi < pi'" "pi' \<le> length p" "glob (drop pi p) (drop si s) = glob (drop pi' p) (drop (si + 1) s)"
    "j \<le> length s \<Longrightarrow> glob (drop pi p) (drop j s) \<Longrightarrow> j < length s \<and> glob (drop pi' p) (drop (j + 1) s)"
proof -
  have pi: "pi < length p" and x: "p ! pi \<noteq> CHR ''*''"
    using assms(2) by (auto simp: glob_step_def Let_def split: if_splits)
  obtain acc rest where item: "glob_item (p ! pi) (drop (pi + 1) p) = Some (acc, rest)"
    and "acc (s ! si)" "drop pi' p = rest" "pi < pi'" "pi' \<le> length p"
    using glob_step_item [OF pi x, of "s ! si"] assms(2) by (auto split: option.splits if_splits)
  then show "pi < pi'" "pi' \<le> length p" "glob (drop pi p) (drop si s) = glob (drop pi' p) (drop (si + 1) s)"
    "j \<le> length s \<Longrightarrow> glob (drop pi p) (drop j s) \<Longrightarrow> j < length s \<and> glob (drop pi' p) (drop (j + 1) s)"
    using assms(1) by (simp_all add: glob_drop_item [OF pi x])
qed

lemma glob_mismatch:
  assumes "si < length s" and "glob_step p pi (s ! si) \<in> {GMismatch, GMalformed}"
  shows "\<not> glob (drop pi p) (drop si s)"
proof (cases "pi < length p")
  case False
  then show ?thesis using assms(1) by simp
next
  case pi: True
  have x: "p ! pi \<noteq> CHR ''*''"
    using assms(2) pi by (auto simp: glob_step_def)
  show ?thesis
    using glob_step_item [OF pi x, of "s ! si"] assms glob_drop_item [OF pi x, of si s]
    by (auto split: option.splits if_splits)
qed

section \<open>The loop\<close>

text \<open>The single backtrack point is enough: between the last star and the current position, every item
  of the pattern consumes exactly one byte.\<close>

definition glob_inv :: "string \<Rightarrow> string \<Rightarrow> nat \<Rightarrow> nat \<Rightarrow> nat option \<Rightarrow> nat \<Rightarrow> bool" where
  "glob_inv s p si pi star m \<longleftrightarrow> si \<le> length s \<and> pi \<le> length p \<and> m \<le> si \<and>
     (case star of
        None \<Rightarrow> glob p s = glob (drop pi p) (drop si s)
      | Some st \<Rightarrow> st < pi \<and>
          (glob p s \<longleftrightarrow> glob (drop pi p) (drop si s) \<or>
             (\<exists>k. m < k \<and> k \<le> length s \<and> glob (drop (st + 1) p) (drop k s))) \<and>
          (\<forall>k \<le> length s. glob (drop (st + 1) p) (drop k s) \<longrightarrow>
             k + (si - m) \<le> length s \<and> glob (drop pi p) (drop (k + (si - m)) s)))"

lemma glob_inv_start: "glob_inv s p 0 0 None 0"
  by (simp add: glob_inv_def)

lemma glob_inv_advance:
  assumes inv: "glob_inv s p si pi star m" and si: "si < length s"
    and step: "glob_step p pi (s ! si) = GAdvance pi'"
  shows "glob_inv s p (si + 1) pi' star m"
proof (cases star)
  case None
  then show ?thesis
    using inv si glob_advance(1-3) [OF si step] by (simp add: glob_inv_def)
next
  case (Some st)
  have "k + (si + 1 - m) \<le> length s \<and> glob (drop pi' p) (drop (k + (si + 1 - m)) s)"
    if k: "k \<le> length s" "glob (drop (st + 1) p) (drop k s)" for k
  proof -
    have m: "m \<le> si" and seg: "k + (si - m) \<le> length s" "glob (drop pi p) (drop (k + (si - m)) s)"
      using inv k unfolding glob_inv_def Some option.case by blast+
    have "k + (si - m) < length s \<and> glob (drop pi' p) (drop (k + (si - m) + 1) s)"
      by (rule glob_advance(4) [OF si step seg])
    then show ?thesis using m by (simp add: Suc_diff_le)
  qed
  then show ?thesis
    using inv si glob_advance(1-3) [OF si step] unfolding glob_inv_def Some option.case by simp
qed

lemma glob_inv_star:
  assumes inv: "glob_inv s p si pi star m" and si: "si < length s"
    and step: "glob_step p pi (s ! si) = GStar"
  shows "glob_inv s p si (pi + 1) (Some pi) si"
proof -
  have pi: "pi < length p" "p ! pi = CHR ''*''"
    using step by (auto simp: glob_step_def Let_def split: if_splits)
  note star = glob_drop_star [OF pi]
  have "glob p s \<longleftrightarrow> glob (drop pi p) (drop si s)"
  proof (cases star)
    case None
    then show ?thesis using inv by (simp add: glob_inv_def)
  next
    case (Some st)
    have seg: "\<forall>k \<le> length s. glob (drop (st + 1) p) (drop k s) \<longrightarrow>
        k + (si - m) \<le> length s \<and> glob (drop pi p) (drop (k + (si - m)) s)"
      and or: "glob p s \<longleftrightarrow> glob (drop pi p) (drop si s) \<or>
        (\<exists>k. m < k \<and> k \<le> length s \<and> glob (drop (st + 1) p) (drop k s))"
      using inv unfolding glob_inv_def Some option.case by blast+
    have "glob (drop pi p) (drop si s)"
      if k: "m < k" "k \<le> length s" "glob (drop (st + 1) p) (drop k s)" for k
    proof -
      have le: "k + (si - m) \<le> length s" and "glob (drop pi p) (drop (k + (si - m)) s)"
        using seg k by blast+
      then obtain k' where "k + (si - m) \<le> k'" "k' \<le> length s" "glob (drop (pi + 1) p) (drop k' s)"
        using star [OF le] by blast
      moreover have "si \<le> k'" using \<open>k + (si - m) \<le> k'\<close> \<open>m < k\<close> by simp
      ultimately show ?thesis using star [OF less_imp_le [OF si]] by blast
    qed
    then show ?thesis using or by blast
  qed
  also have "\<dots> \<longleftrightarrow> (\<exists>k. si \<le> k \<and> k \<le> length s \<and> glob (drop (pi + 1) p) (drop k s))"
    by (rule star) (use si in simp)
  also have "\<dots> \<longleftrightarrow> glob (drop (pi + 1) p) (drop si s) \<or>
      (\<exists>k. si < k \<and> k \<le> length s \<and> glob (drop (pi + 1) p) (drop k s))"
    unfolding le_eq_less_or_eq [of si] using si by auto
  finally show ?thesis using si pi by (simp add: glob_inv_def)
qed

lemma ex_greater_Suc: "(\<exists>k. m < k \<and> Q k) \<longleftrightarrow> Q (m + 1) \<or> (\<exists>k. m + 1 < k \<and> Q k)" for m :: nat
proof
  assume "\<exists>k. m < k \<and> Q k"
  then obtain k where "m < k" "Q k" by blast
  then show "Q (m + 1) \<or> (\<exists>k. m + 1 < k \<and> Q k)" by (cases "k = m + 1") auto
qed (auto dest: Suc_lessD)

lemma glob_inv_backtrack:
  assumes inv: "glob_inv s p si pi (Some st) m" and si: "si < length s"
    and step: "glob_step p pi (s ! si) \<in> {GMismatch, GMalformed}"
  shows "glob_inv s p (m + 1) (st + 1) (Some st) (m + 1)"
proof -
  have m: "m + 1 \<le> length s" "st + 1 \<le> length p"
    and "glob p s \<longleftrightarrow> (\<exists>k. m < k \<and> k \<le> length s \<and> glob (drop (st + 1) p) (drop k s))"
    using inv si glob_mismatch [OF si step] unfolding glob_inv_def option.case by simp_all
  moreover have "\<dots> \<longleftrightarrow> glob (drop (st + 1) p) (drop (m + 1) s) \<or>
      (\<exists>k. m + 1 < k \<and> k \<le> length s \<and> glob (drop (st + 1) p) (drop k s))"
    unfolding ex_greater_Suc [of m] using m(1) by (simp only: simp_thms)
  ultimately show ?thesis by (simp add: glob_inv_def)
qed

lemma glob_inv_end:
  assumes "glob_inv s p si pi star m" and "\<not> si < length s"
  shows "only_stars (drop pi p) = glob p s"
proof (cases star)
  case None
  then show ?thesis using assms by (simp add: glob_inv_def glob_Nil_iff)
next
  case (Some st)
  have "\<not> glob (drop (st + 1) p) (drop k s)" if "m < k" "k \<le> length s" for k
    using assms that unfolding glob_inv_def Some option.case by fastforce
  then show ?thesis
    using assms unfolding glob_inv_def Some option.case by (auto simp: glob_Nil_iff)
qed

text \<open>The contract of a matcher loop, met by both copies.\<close>

locale glob_matcher =
  fixes loop :: "string \<Rightarrow> string \<Rightarrow> nat \<Rightarrow> nat \<Rightarrow> nat option \<Rightarrow> nat \<Rightarrow> bool option"
  assumes unfold: "loop s p si pi star m =
     (if si < length s then
        (case glob_step p pi (s ! si) of
           GStar \<Rightarrow> loop s p si (pi + 1) (Some pi) si
         | GAdvance pi' \<Rightarrow> loop s p (si + 1) pi' star m
         | _ \<Rightarrow> (case star of
                  Some st \<Rightarrow> loop s p (m + 1) (st + 1) star (m + 1)
                | None \<Rightarrow> Some False))
      else Some (only_stars (drop pi p)))"
begin

lemma loop_returns:
  assumes "glob_inv s p si pi star m"
  shows "loop s p si pi star m = Some (glob p s)"
proof -
  let ?f = "\<lambda>(si, star, m). (length p - (case star of None \<Rightarrow> 0 | Some st \<Rightarrow> st + 1), length s - m, length s - si)"
  have "wf (inv_image (less_than <*lex*> less_than <*lex*> less_than) ?f)"
    by (intro wf_inv_image wf_lex_prod wf_less_than)
  then show ?thesis
    using assms
  proof (induction "(si, star, m)" arbitrary: si pi star m)
    case less
    note IH = less(1) and inv = less(2) and step = unfold [of s p si pi star m]
    show ?case
    proof (cases "si < length s")
      case False
      then show ?thesis using step glob_inv_end [OF inv False] by simp
    next
      case si: True
      consider "glob_step p pi (s ! si) = GStar" | pi' where "glob_step p pi (s ! si) = GAdvance pi'"
        | "glob_step p pi (s ! si) \<in> {GMismatch, GMalformed}"
        by (cases "glob_step p pi (s ! si)") auto
      then show ?thesis
      proof cases
        case 1
        have "pi < length p" using 1 by (auto simp: glob_step_def split: if_splits)
        moreover have "\<And>st. star = Some st \<Longrightarrow> st < pi" using inv by (simp add: glob_inv_def)
        ultimately have "length p - (pi + 1) < length p - (case star of None \<Rightarrow> 0 | Some st \<Rightarrow> st + 1)"
          by (cases star) (simp_all add: diff_less_mono2)
        then show ?thesis
          using step si 1 IH [of si "Some pi" si "pi + 1"] glob_inv_star [OF inv si 1] by simp
      next
        case 2
        then show ?thesis
          using step si IH [of "si + 1" star m pi'] glob_inv_advance [OF inv si 2] by simp
      next
        case 3
        show ?thesis
        proof (cases star)
          case None
          then have "\<not> glob p s" using inv glob_mismatch [OF si 3] by (simp add: glob_inv_def)
          then show ?thesis using step si 3 None by (auto split: glob_action.splits)
        next
          case (Some st)
          have "length s - (m + 1) < length s - m" using inv si by (auto simp: glob_inv_def)
          then show ?thesis
            using step si 3 Some IH [of "m + 1" "Some st" "m + 1" "st + 1"]
              glob_inv_backtrack [OF inv [unfolded Some] si 3] by auto
        qed
      qed
    qed
  qed
qed

end

interpretation keytrie_glob: glob_matcher glob_loop
  by unfold_locales (rule glob_loop.simps)

interpretation crdt_glob: glob_matcher glob_pattern_loop
  by unfold_locales (subst glob_pattern_loop.simps, simp split: glob_action.split)

text \<open>C19: Both iterative matchers return on every string and pattern, and their answer is the meaning of the
  pattern: remembering only the last star loses no match.\<close>

theorem glob_match_correct:
  "MatchGlob s pattern = Some (glob pattern s) \<and> MatchGlobPattern s pattern = Some (glob pattern s)"
  unfolding MatchGlob_def MatchGlobPattern_def
  by (intro conjI keytrie_glob.loop_returns crdt_glob.loop_returns glob_inv_start)

end
