(* ===== verification/Bucket_Queue.thy ===== *)
theory Bucket_Queue
  imports Go_Base "HOL-Library.Monad_Syntax"
begin

text \<open>
  The bucket queue of maximum cardinality search (stn/cardinality.go): vertices in doubly linked
  lists, one list per number of visited neighbours, all in index arrays. An index out of range, at
  which Go panics, is \<open>None\<close>. The locale \<open>max_queue\<close> is the contract its clients rely on; the
  interpretation at the end proves it of the arrays.
\<close>

section \<open>Slices\<close>

definition go_nth :: "'a list \<Rightarrow> int \<Rightarrow> 'a option" where
  "go_nth xs i = (if 0 \<le> i \<and> i < int (length xs) then Some (xs ! nat i) else None)"

definition go_upd :: "'a list \<Rightarrow> int \<Rightarrow> 'a \<Rightarrow> 'a list option" where
  "go_upd xs i x = (if 0 \<le> i \<and> i < int (length xs) then Some (xs[nat i := x]) else None)"

lemma go_nth_int [simp]: "i < length xs \<Longrightarrow> go_nth xs (int i) = Some (xs ! i)"
  by (simp add: go_nth_def)

lemma go_upd_int [simp]: "i < length xs \<Longrightarrow> go_upd xs (int i) x = Some (xs[i := x])"
  by (simp add: go_upd_def)

lemma nth_upd: "xs[i := x] ! j = (if i = j \<and> j < length xs then x else xs ! j)"
  by (cases "i < length xs") (auto simp: list_update_beyond)

section \<open>The queue\<close>

record cardinalityVertex =
  qv_next :: int
  qv_prev :: int
  qv_count :: int

record cardinality =
  q_first :: "int list"
  q_vertices :: "cardinalityVertex list"
  q_max :: int

definition newCardinality :: "nat \<Rightarrow> cardinality" where
  "newCardinality n =
     (let vs = map (\<lambda>v. \<lparr>qv_next = int v - 1, qv_prev = int v + 1, qv_count = 0\<rparr>) [0..<n];
          fs = replicate n (- 1)
      in if n > 0
         then \<lparr>q_first = fs[0 := int n - 1],
               q_vertices = vs[n - 1 := (vs ! (n - 1))\<lparr>qv_prev := - 1\<rparr>], q_max = 0\<rparr>
         else \<lparr>q_first = fs, q_vertices = vs, q_max = 0\<rparr>)"

definition q_contains :: "cardinality \<Rightarrow> int \<Rightarrow> bool option" where
  "q_contains q v = do { e \<leftarrow> go_nth (q_vertices q) v; Some (qv_count e \<ge> 0) }"

text \<open>\<open>entry\<close> is a pointer into the slice, so its fields are read again after each write.\<close>

definition q_remove :: "cardinality \<Rightarrow> int \<Rightarrow> cardinality option" where
  "q_remove q v = do {
     entry \<leftarrow> go_nth (q_vertices q) v;
     q1 \<leftarrow> (if qv_prev entry < 0
            then do { fs \<leftarrow> go_upd (q_first q) (qv_count entry) (qv_next entry); Some (q\<lparr>q_first := fs\<rparr>) }
            else do { p \<leftarrow> go_nth (q_vertices q) (qv_prev entry);
                      vs \<leftarrow> go_upd (q_vertices q) (qv_prev entry) (p\<lparr>qv_next := qv_next entry\<rparr>);
                      Some (q\<lparr>q_vertices := vs\<rparr>) });
     entry1 \<leftarrow> go_nth (q_vertices q1) v;
     q2 \<leftarrow> (if qv_next entry1 \<ge> 0
            then do { nx \<leftarrow> go_nth (q_vertices q1) (qv_next entry1);
                      vs \<leftarrow> go_upd (q_vertices q1) (qv_next entry1) (nx\<lparr>qv_prev := qv_prev entry1\<rparr>);
                      Some (q1\<lparr>q_vertices := vs\<rparr>) }
            else Some q1);
     entry2 \<leftarrow> go_nth (q_vertices q2) v;
     vs \<leftarrow> go_upd (q_vertices q2) v (entry2\<lparr>qv_count := - 1\<rparr>);
     Some (q2\<lparr>q_vertices := vs\<rparr>)
   }"

definition q_increment :: "cardinality \<Rightarrow> int \<Rightarrow> cardinality option" where
  "q_increment q v = do {
     entry \<leftarrow> go_nth (q_vertices q) v;
     let count = qv_count entry + 1;
     q1 \<leftarrow> q_remove q v;
     nxt \<leftarrow> go_nth (q_first q1) count;
     vs \<leftarrow> go_upd (q_vertices q1) v \<lparr>qv_next = nxt, qv_prev = - 1, qv_count = count\<rparr>;
     fs \<leftarrow> go_upd (q_first q1) count v;
     vs' \<leftarrow> (if nxt \<ge> 0
             then do { e \<leftarrow> go_nth vs nxt; go_upd vs nxt (e\<lparr>qv_prev := v\<rparr>) }
             else Some vs);
     Some (q1\<lparr>q_first := fs, q_vertices := vs', q_max := max (q_max q1) count\<rparr>)
   }"

text \<open>The loop of \<open>maximum\<close> stops at a non-empty bucket or below the last one.\<close>

function q_max_loop :: "int list \<Rightarrow> int \<Rightarrow> int option" where
  "q_max_loop fs m =
     (if m \<ge> 0
      then do { f \<leftarrow> go_nth fs m; if f < 0 then q_max_loop fs (m - 1) else Some m }
      else Some m)"
  by pat_completeness auto
termination
  by (relation "measure (\<lambda>(fs, m). nat (m + 1))") auto

declare q_max_loop.simps [simp del]

definition q_maximum :: "cardinality \<Rightarrow> (int \<times> cardinality) option" where
  "q_maximum q = do {
     m \<leftarrow> q_max_loop (q_first q) (q_max q);
     let q' = q\<lparr>q_max := m\<rparr>;
     if m < 0 then Some (- 1, q') else do { v \<leftarrow> go_nth (q_first q') m; Some (v, q') }
   }"

section \<open>Its contract\<close>

text \<open>\<open>rep n q m\<close>: the queue over the vertices below \<open>n\<close> holds exactly \<open>dom m\<close>, with counts \<open>m\<close>.\<close>

locale max_queue =
  fixes create :: "nat \<Rightarrow> 'q"
    and contains :: "'q \<Rightarrow> int \<Rightarrow> bool option"
    and remove :: "'q \<Rightarrow> int \<Rightarrow> 'q option"
    and increment :: "'q \<Rightarrow> int \<Rightarrow> 'q option"
    and maximum :: "'q \<Rightarrow> (int \<times> 'q) option"
    and rep :: "nat \<Rightarrow> 'q \<Rightarrow> (nat \<rightharpoonup> nat) \<Rightarrow> bool"
  assumes create_rep: "rep n (create n) (\<lambda>v. if v < n then Some 0 else None)"
    and rep_dom: "rep n q m \<Longrightarrow> dom m \<subseteq> {..<n}"
    and contains_rep: "rep n q m \<Longrightarrow> v < n \<Longrightarrow> contains q (int v) = Some (m v \<noteq> None)"
    and remove_rep: "rep n q m \<Longrightarrow> m v = Some c \<Longrightarrow>
      \<exists>q'. remove q (int v) = Some q' \<and> rep n q' (m(v := None))"
    and increment_rep: "rep n q m \<Longrightarrow> m v = Some c \<Longrightarrow> c + 1 < n \<Longrightarrow>
      \<exists>q'. increment q (int v) = Some q' \<and> rep n q' (m(v := Some (c + 1)))"
    and maximum_rep: "rep n q m \<Longrightarrow> 0 < n \<Longrightarrow>
      \<exists>r q'. maximum q = Some (r, q') \<and> rep n q' m \<and>
        (if dom m = {} then r = - 1
         else \<exists>v c. r = int v \<and> m v = Some c \<and> (\<forall>w d. m w = Some d \<longrightarrow> d \<le> c))"

section \<open>Doubly linked lists in an array\<close>

definition head_of :: "nat list \<Rightarrow> int" where
  "head_of xs = (case xs of [] \<Rightarrow> - 1 | v # _ \<Rightarrow> int v)"

lemma head_of_simps [simp]: "head_of [] = - 1" "head_of (v # xs) = int v"
  by (simp_all add: head_of_def)

lemma head_of_nonneg [simp]: "head_of xs < 0 \<longleftrightarrow> xs = []" "0 \<le> head_of xs \<longleftrightarrow> xs \<noteq> []"
  by (cases xs; simp)+

fun dlist :: "cardinalityVertex list \<Rightarrow> int \<Rightarrow> nat list \<Rightarrow> bool" where
  "dlist vs p [] = True"
| "dlist vs p (v # xs) =
     (v < length vs \<and> qv_prev (vs ! v) = p \<and> qv_next (vs ! v) = head_of xs \<and> dlist vs (int v) xs)"

lemma dlist_bound: "dlist vs p xs \<Longrightarrow> set xs \<subseteq> {..<length vs}"
  by (induction xs arbitrary: p) auto

lemma dlist_frame:
  assumes "\<And>v. v \<in> set xs \<Longrightarrow> qv_next (vs' ! v) = qv_next (vs ! v) \<and> qv_prev (vs' ! v) = qv_prev (vs ! v)"
    and "length vs' = length vs"
  shows "dlist vs' p xs = dlist vs p xs"
  using assms by (induction xs arbitrary: p) auto

lemma dlist_append:
  "dlist vs p (ys @ v # zs) \<Longrightarrow>
     v < length vs \<and> qv_prev (vs ! v) = (if ys = [] then p else int (last ys)) \<and>
     qv_next (vs ! v) = head_of zs \<and> dlist vs (int v) zs"
proof (induction ys arbitrary: p)
  case (Cons y ys)
  then have "dlist vs (int y) (ys @ v # zs)" by simp
  from Cons.IH [OF this] show ?case by (cases ys) simp_all
qed simp

text \<open>Taking \<open>v\<close> out: its predecessor's \<open>next\<close> and its successor's \<open>prev\<close> are redirected.\<close>

definition unlink :: "cardinalityVertex list \<Rightarrow> nat list \<Rightarrow> int \<Rightarrow> nat list \<Rightarrow> cardinalityVertex list" where
  "unlink vs ys p zs =
     (let vs1 = (if ys = [] then vs else vs[last ys := (vs ! last ys)\<lparr>qv_next := head_of zs\<rparr>])
      in if zs = [] then vs1
         else vs1[hd zs := (vs1 ! hd zs)\<lparr>qv_prev := (if ys = [] then p else int (last ys))\<rparr>])"

lemma length_unlink [simp]: "length (unlink vs ys p zs) = length vs"
  by (simp add: unlink_def Let_def)

lemma unlink_other:
  "x \<notin> set ys \<Longrightarrow> x \<notin> set zs \<Longrightarrow> unlink vs ys p zs ! x = vs ! x"
  by (cases zs; cases ys rule: rev_cases) (auto simp: unlink_def Let_def)

lemma unlink_count: "qv_count (unlink vs ys p zs ! x) = qv_count (vs ! x)"
  by (simp add: unlink_def Let_def nth_upd)

lemma dlist_unlink:
  assumes "dlist vs p (ys @ v # zs)" and "distinct (ys @ v # zs)"
  shows "dlist (unlink vs ys p zs) p (ys @ zs)"
proof (cases ys rule: rev_cases)
  case Nil
  show ?thesis
  proof (cases zs)
    case (Cons w ws)
    have "dlist (vs[w := (vs ! w)\<lparr>qv_prev := p\<rparr>]) (int w) ws = dlist vs (int w) ws"
      using assms(2) Cons by (intro dlist_frame) (auto simp: nth_upd)
    then show ?thesis using assms Cons Nil by (auto simp: unlink_def nth_upd)
  qed (simp add: Nil)
next
  case (snoc us u)
  let ?vs = "unlink vs ys p zs"
  have mid: "dlist vs p (us @ u # v # zs)" using assms(1) snoc by simp
  have zs: "dlist ?vs (int u) zs"
  proof (cases zs)
    case (Cons w ws)
    have "dlist ?vs (int w) ws = dlist vs (int w) ws"
      using assms(2) Cons snoc by (intro dlist_frame) (auto simp: unlink_def Let_def nth_upd)
    moreover have "w < length vs" "qv_next (vs ! w) = head_of ws" "dlist vs (int w) ws"
      using dlist_append [OF assms(1)] Cons by simp_all
    ultimately show ?thesis
      using assms(2) Cons snoc by (auto simp: unlink_def Let_def nth_upd)
  qed simp
  have u: "u < length vs" "qv_prev (vs ! u) = (if us = [] then p else int (last us))"
    using dlist_append [OF mid] by simp_all
  have "dlist ?vs q (xs @ u # zs)"
    if "dlist vs q (xs @ u # v # zs)" "set xs \<subseteq> set us" "distinct (xs @ u # v # zs)" for q xs
    using that
  proof (induction xs arbitrary: q)
    case Nil
    then show ?case
      using zs assms(2) snoc by (cases zs) (auto simp: unlink_def Let_def nth_upd)
  next
    case (Cons x xs)
    have "x \<noteq> u" "x \<notin> set zs" using Cons.prems assms(2) snoc by auto
    then have "?vs ! x = vs ! x"
      using snoc by (cases zs) (auto simp: unlink_def Let_def nth_upd)
    moreover have "head_of (xs @ u # zs) = head_of (xs @ u # v # zs)" by (cases xs) simp_all
    ultimately show ?case using Cons by simp
  qed
  from this [OF mid] show ?thesis using assms(2) snoc by simp
qed

section \<open>The arrays represent buckets\<close>

definition q_ok :: "nat \<Rightarrow> cardinality \<Rightarrow> (nat \<Rightarrow> nat list) \<Rightarrow> bool" where
  "q_ok n q B \<longleftrightarrow> length (q_first q) = n \<and> length (q_vertices q) = n \<and>
     (\<forall>c < n. q_first q ! c = head_of (B c) \<and> dlist (q_vertices q) (- 1) (B c) \<and> distinct (B c)) \<and>
     (\<forall>v < n. - 1 \<le> qv_count (q_vertices q ! v) \<and> qv_count (q_vertices q ! v) < int n) \<and>
     (\<forall>c < n. \<forall>v. v \<in> set (B c) \<longleftrightarrow> v < n \<and> qv_count (q_vertices q ! v) = int c) \<and>
     (\<forall>c < n. q_max q < int c \<longrightarrow> B c = []) \<and> - 1 \<le> q_max q \<and> (q_max q < int n \<or> n = 0)"

lemma q_okD:
  assumes "q_ok n q B"
  shows "length (q_first q) = n" "length (q_vertices q) = n"
    "c < n \<Longrightarrow> q_first q ! c = head_of (B c)" "c < n \<Longrightarrow> dlist (q_vertices q) (- 1) (B c)"
    "c < n \<Longrightarrow> distinct (B c)"
    "v < n \<Longrightarrow> - 1 \<le> qv_count (q_vertices q ! v)" "v < n \<Longrightarrow> qv_count (q_vertices q ! v) < int n"
    "c < n \<Longrightarrow> v \<in> set (B c) \<longleftrightarrow> v < n \<and> qv_count (q_vertices q ! v) = int c"
    "c < n \<Longrightarrow> q_max q < int c \<Longrightarrow> B c = []" "- 1 \<le> q_max q" "q_max q < int n \<or> n = 0"
  using assms unfolding q_ok_def by blast+

lemma q_ok_disjoint:
  assumes "q_ok n q B" and "c < n" and "d < n" and "c \<noteq> d"
  shows "set (B c) \<inter> set (B d) = {}"
proof (rule ccontr)
  assume "set (B c) \<inter> set (B d) \<noteq> {}"
  then obtain v where "v \<in> set (B c)" "v \<in> set (B d)" by blast
  then have "qv_count (q_vertices q ! v) = int c" "qv_count (q_vertices q ! v) = int d"
    using q_okD(8) [OF assms(1,2), of v] q_okD(8) [OF assms(1,3), of v] by simp_all
  then show False using assms(4) by simp
qed

lemma q_remove_eval:
  assumes ok: "q_ok n q B" and c: "c < n" and B: "B c = ys @ v # zs"
  shows "q_remove q (int v) =
    Some (q\<lparr>q_first := (if ys = [] then (q_first q)[c := head_of zs] else q_first q),
            q_vertices := (let vs = unlink (q_vertices q) ys (- 1) zs in vs[v := (vs ! v)\<lparr>qv_count := - 1\<rparr>])\<rparr>)"
proof -
  have dl: "dlist (q_vertices q) (- 1) (ys @ v # zs)" and dist: "distinct (ys @ v # zs)"
    using q_okD(4,5) [OF ok c] B by simp_all
  note v = dlist_append [OF dl]
  have cnt: "qv_count (q_vertices q ! v) = int c"
    using q_okD(8) [OF ok c, of v] B by simp
  have lens: "length (q_first q) = n" "length (q_vertices q) = n" by (rule q_okD [OF ok])+
  have bound: "x < n" if "x \<in> set ys \<union> set zs" for x
    using dlist_bound [OF dl] that lens by auto
  show ?thesis
  proof (cases ys rule: rev_cases)
    case Nil
    then show ?thesis
      using v cnt c lens dist bound
      by (cases zs) (auto simp: q_remove_def unlink_def Let_def nth_upd)
  next
    case (snoc us u)
    then show ?thesis
      using v cnt c lens dist bound
      by (cases zs) (auto simp: q_remove_def unlink_def Let_def nth_upd)
  qed
qed

lemma q_remove_ok:
  assumes ok: "q_ok n q B" and c: "c < n" and v: "v \<in> set (B c)"
  shows "\<exists>q' B'. q_remove q (int v) = Some q' \<and> q_ok n q' B' \<and> q_max q' = q_max q \<and>
    (\<forall>x. qv_count (q_vertices q' ! x) = (if x = v \<and> v < n then - 1 else qv_count (q_vertices q ! x)))"
proof -
  obtain ys zs where B: "B c = ys @ v # zs" using v by (meson split_list)
  define U where "U = unlink (q_vertices q) ys (- 1) zs"
  define V where "V = U[v := (U ! v)\<lparr>qv_count := - 1\<rparr>]"
  define F where "F = (if ys = [] then (q_first q)[c := head_of zs] else q_first q)"
  define C where "C = B(c := ys @ zs)"
  have run: "q_remove q (int v) = Some (q\<lparr>q_first := F, q_vertices := V\<rparr>)"
    using q_remove_eval [OF ok c B] by (simp add: Let_def F_def V_def U_def)
  note D = q_okD [OF ok]
  have dist: "distinct (ys @ v # zs)" and dl: "dlist (q_vertices q) (- 1) (ys @ v # zs)"
    using D(4,5) [OF c] B by simp_all
  have vn: "v < n" using D(8) [OF c] v by blast
  have len: "length V = n" "length F = n" "length U = n"
    using D(1,2) by (simp_all add: V_def F_def U_def)
  have cnt: "qv_count (V ! x) = (if x = v then - 1 else qv_count (q_vertices q ! x))" for x
    using vn len by (simp add: V_def nth_upd U_def unlink_count)
  have dl': "dlist V (- 1) (C d)" if d: "d < n" for d
  proof (cases "d = c")
    case True
    have "dlist V (- 1) (ys @ zs) = dlist U (- 1) (ys @ zs)"
      using dist by (intro dlist_frame) (auto simp: V_def nth_upd)
    then show ?thesis using True dlist_unlink [OF dl dist] by (simp add: C_def U_def)
  next
    case False
    have "set (B d) \<inter> set (ys @ v # zs) = {}"
      using q_ok_disjoint [OF ok d c False] B by simp
    then have "dlist V (- 1) (B d) = dlist (q_vertices q) (- 1) (B d)"
      by (intro dlist_frame) (auto simp: V_def U_def nth_upd unlink_other disjoint_iff)
    then show ?thesis using False D(4) [OF d] by (simp add: C_def)
  qed
  have hd': "F ! d = head_of (C d)" if d: "d < n" for d
    using D(1) D(3) [OF d] B d by (cases ys) (auto simp: F_def C_def nth_upd)
  have mem: "x \<in> set (C d) \<longleftrightarrow> x < n \<and> qv_count (V ! x) = int d" if d: "d < n" for d x
    using D(8) [OF d, of x] D(8) [OF c, of v] v B dist by (cases "x = v") (auto simp: cnt C_def)
  have "distinct (C d) \<and> (q_max q < int d \<longrightarrow> C d = [])" if "d < n" for d
    using D(5,9) [OF that] dist B by (auto simp: C_def)
  moreover have "- 1 \<le> qv_count (V ! x) \<and> qv_count (V ! x) < int n" if "x < n" for x
    using D(6,7) [OF that] vn by (simp add: cnt)
  ultimately have "q_ok n (q\<lparr>q_first := F, q_vertices := V\<rparr>) C"
    using D(10,11) hd' dl' mem len unfolding q_ok_def by simp
  then show ?thesis
    using run cnt vn by (intro exI [of _ "q\<lparr>q_first := F, q_vertices := V\<rparr>"] exI [of _ C]) simp
qed

text \<open>Pushing a removed vertex onto the front of a bucket.\<close>

lemma q_push_ok:
  assumes ok: "q_ok n q B" and c: "c < n" and vn: "v < n" and out: "qv_count (q_vertices q ! v) = - 1"
  defines "U \<equiv> (q_vertices q)[v := \<lparr>qv_next = head_of (B c), qv_prev = - 1, qv_count = int c\<rparr>]"
  defines "V \<equiv> (if B c = [] then U else U[hd (B c) := (U ! hd (B c))\<lparr>qv_prev := int v\<rparr>])"
  shows "q_ok n (q\<lparr>q_first := (q_first q)[c := int v], q_vertices := V, q_max := max (q_max q) (int c)\<rparr>)
      (B(c := v # B c))" (is "?ok")
    and "qv_count (V ! x) = (if x = v then int c else qv_count (q_vertices q ! x))"
proof -
  note D = q_okD [OF ok]
  have notin: "v \<notin> set (B d)" if "d < n" for d using D(8) [OF that, of v] out by auto
  have len: "length U = n" "length V = n" using D(2) by (simp_all add: U_def V_def)
  have hdB: "hd (B c) \<noteq> v" "hd (B c) \<in> set (B c)" if "B c \<noteq> []" using notin [OF c] that by auto
  show cnt: "qv_count (V ! x) = (if x = v then int c else qv_count (q_vertices q ! x))" for x
    using vn D(2) hdB by (simp add: V_def U_def nth_upd)
  have V: "V ! v = \<lparr>qv_next = head_of (B c), qv_prev = - 1, qv_count = int c\<rparr>"
    using vn D(2) hdB by (auto simp: V_def U_def nth_upd)
  define C where "C = B(c := v # B c)"
  have dl: "dlist V (- 1) (C d)" if d: "d < n" for d
  proof (cases "d = c")
    case True
    have "dlist V (int v) (B c)"
    proof (cases "B c")
      case (Cons w ws)
      have "dlist V (int w) ws = dlist (q_vertices q) (int w) ws"
        using D(5) [OF c] notin [OF c] Cons by (intro dlist_frame) (auto simp: V_def U_def nth_upd D(2))
      then show ?thesis
        using D(4) [OF c] D(2) len Cons notin [OF c] by (auto simp: V_def U_def nth_upd)
    qed simp
    then show ?thesis using True V vn len by (simp add: C_def)
  next
    case False
    have "dlist V (- 1) (B d) = dlist (q_vertices q) (- 1) (B d)"
      using q_ok_disjoint [OF ok d c False] notin [OF d] hdB D(2)
      by (intro dlist_frame) (auto simp: V_def U_def nth_upd disjoint_iff)
    then show ?thesis using False D(4) [OF d] by (simp add: C_def)
  qed
  have mem: "x \<in> set (C d) \<longleftrightarrow> x < n \<and> qv_count (V ! x) = int d" if d: "d < n" for d x
    using D(8) [OF d, of x] notin [OF d] vn by (cases "x = v") (auto simp: cnt C_def)
  have first: "(q_first q)[c := int v] ! d = head_of (C d)" if "d < n" for d
    using D(1) D(3) [OF that] that by (simp add: C_def nth_upd)
  have "distinct (C d) \<and> (max (q_max q) (int c) < int d \<longrightarrow> C d = [])" if "d < n" for d
    using D(5,9) [OF that] notin [OF that] by (auto simp: C_def)
  moreover have "- 1 \<le> qv_count (V ! x) \<and> qv_count (V ! x) < int n" if "x < n" for x
    using D(6,7) [OF that] c by (simp add: cnt)
  ultimately show ?ok
    using D(1,10,11) dl mem first len c unfolding q_ok_def C_def [symmetric] by simp
qed

lemma q_increment_ok:
  assumes ok: "q_ok n q B" and c: "c + 1 < n" and v: "v \<in> set (B c)"
  shows "\<exists>q' B'. q_increment q (int v) = Some q' \<and> q_ok n q' B' \<and>
    (\<forall>x. qv_count (q_vertices q' ! x) = (if x = v then int c + 1 else qv_count (q_vertices q ! x)))"
proof -
  have vn: "v < n" and cnt: "qv_count (q_vertices q ! v) = int c"
    using q_okD(8) [OF ok, of c v] v c by auto
  obtain q1 B1 where q1: "q_remove q (int v) = Some q1" "q_ok n q1 B1"
    and cnt1: "\<And>x. qv_count (q_vertices q1 ! x) = (if x = v then - 1 else qv_count (q_vertices q ! x))"
    using q_remove_ok [OF ok _ v] c vn by auto
  note D = q_okD [OF ok] and D1 = q_okD [OF q1(2)]
  have out: "qv_count (q_vertices q1 ! v) = - 1" using cnt1 by simp
  define d where "d = c + 1"
  have d: "d < n" and up: "qv_count (q_vertices q ! v) + 1 = int d" using c cnt by (simp_all add: d_def)
  note push = q_push_ok [OF q1(2) d vn out]
  have hdn: "hd (B1 d) < n" if "B1 d \<noteq> []"
    using D1(8) [OF d, of "hd (B1 d)"] that by simp
  have "q_increment q (int v) = Some (q1\<lparr>q_first := (q_first q1)[d := int v],
      q_vertices := (let U = (q_vertices q1)[v := \<lparr>qv_next = head_of (B1 d), qv_prev = - 1, qv_count = int d\<rparr>]
        in if B1 d = [] then U else U[hd (B1 d) := (U ! hd (B1 d))\<lparr>qv_prev := int v\<rparr>]),
      q_max := max (q_max q1) (int d)\<rparr>)"
    using q1(1) vn D(2) D1(1,2) D1(3) [OF d] d hdn
    by (cases "B1 d") (simp_all add: q_increment_def Let_def up)
  moreover have "int c + 1 = int d" by (simp add: d_def)
  ultimately show ?thesis
    using push cnt1 by (intro exI conjI) (assumption | simp add: Let_def)+
qed

lemma q_max_loop_spec:
  assumes "length fs = n" and "m < int n" and "- 1 \<le> m"
  shows "\<exists>k. q_max_loop fs m = Some k \<and> - 1 \<le> k \<and> k \<le> m \<and> (\<forall>c. k < int c \<longrightarrow> int c \<le> m \<longrightarrow> fs ! c < 0) \<and>
    (0 \<le> k \<longrightarrow> 0 \<le> fs ! nat k)"
  using assms
proof (induction fs m rule: q_max_loop.induct)
  case (1 fs m)
  show ?case
  proof (cases "m \<ge> 0 \<and> fs ! nat m < 0")
    case True
    then obtain k where k: "q_max_loop fs (m - 1) = Some k" "- 1 \<le> k" "k \<le> m - 1"
      "\<forall>c. k < int c \<longrightarrow> int c \<le> m - 1 \<longrightarrow> fs ! c < 0" "0 \<le> k \<longrightarrow> 0 \<le> fs ! nat k"
      using 1 by (auto simp: go_nth_def)
    have "fs ! c < 0" if "k < int c" "int c \<le> m" for c
      using k(4) that True by (cases "int c = m") auto
    then show ?thesis
      using k True 1(2-4) by (subst q_max_loop.simps) (auto simp: go_nth_def)
  next
    case False
    then show ?thesis
      using 1(2-4) by (subst q_max_loop.simps) (auto simp: go_nth_def)
  qed
qed

definition q_rep :: "nat \<Rightarrow> cardinality \<Rightarrow> (nat \<rightharpoonup> nat) \<Rightarrow> bool" where
  "q_rep n q m \<longleftrightarrow> (\<exists>B. q_ok n q B) \<and>
     m = (\<lambda>v. if v < n \<and> 0 \<le> qv_count (q_vertices q ! v) then Some (nat (qv_count (q_vertices q ! v))) else None)"

lemma q_rep_member:
  assumes "q_ok n q B" and "q_rep n q m" and "m v = Some c"
  shows "c < n" "v \<in> set (B c)" "v < n"
proof -
  have v: "v < n" "qv_count (q_vertices q ! v) = int c"
    using assms(2,3) by (auto simp: q_rep_def split: if_splits)
  then show "v < n" "c < n" using q_okD(7) [OF assms(1) v(1)] by simp_all
  then show "v \<in> set (B c)" using q_okD(8) [OF assms(1), of c v] v by simp
qed

lemma newCardinality_ok:
  "q_ok n (newCardinality n) (\<lambda>c. if c = 0 then rev [0..<n] else [])"
proof -
  let ?V = "q_vertices (newCardinality n)"
  have V: "?V ! v = \<lparr>qv_next = int v - 1, qv_prev = (if v = n - 1 then - 1 else int v + 1), qv_count = 0\<rparr>"
    if "v < n" for v
    using that by (auto simp: newCardinality_def Let_def nth_upd)
  have len: "length ?V = n" "length (q_first (newCardinality n)) = n"
    by (simp_all add: newCardinality_def Let_def)
  have "dlist ?V (if k = n then - 1 else int k) (rev [0..<k])" if "k \<le> n" for k
    using that
  proof (induction k)
    case (Suc k)
    have "head_of (rev [0..<k]) = int k - 1" by (cases k) simp_all
    then show ?case using Suc V [of k] len by auto
  qed simp
  from this [of n] have dl: "dlist ?V (- 1) (rev [0..<n])" by simp
  have "q_first (newCardinality n) ! 0 = head_of (rev [0..<n])" if "0 < n"
    using that by (cases n) (simp_all add: newCardinality_def Let_def)
  moreover have "q_first (newCardinality n) ! c = - 1" if "c < n" "c \<noteq> 0" for c
    using that by (simp add: newCardinality_def Let_def)
  moreover have "q_max (newCardinality n) = 0" by (simp add: newCardinality_def Let_def)
  ultimately show ?thesis
    using dl len V by (auto simp: q_ok_def)
qed

interpretation mcs: max_queue newCardinality q_contains q_remove q_increment q_maximum q_rep
proof
  show "q_rep n (newCardinality n) (\<lambda>v. if v < n then Some 0 else None)" for n
  proof -
    have "qv_count (q_vertices (newCardinality n) ! v) = 0" if "v < n" for v
      using q_okD(8) [OF newCardinality_ok, of 0 n v] that by auto
    then show ?thesis using newCardinality_ok by (fastforce simp: q_rep_def)
  qed
  show "dom m \<subseteq> {..<n}" if "q_rep n q m" for n q m
    using that by (auto simp: q_rep_def split: if_splits)
  show "q_contains q (int v) = Some (m v \<noteq> None)" if "q_rep n q m" "v < n" for n q m v
    using that q_okD(2) by (auto simp: q_rep_def q_contains_def)
next
  fix n q m v c assume r: "q_rep n q m" "m v = Some c"
  then obtain B where ok: "q_ok n q B" by (auto simp: q_rep_def)
  note mem = q_rep_member [OF ok r]
  obtain q' B' where "q_remove q (int v) = Some q'" "q_ok n q' B'"
    "\<forall>x. qv_count (q_vertices q' ! x) = (if x = v \<and> v < n then - 1 else qv_count (q_vertices q ! x))"
    using q_remove_ok [OF ok mem(1,2)] by blast
  then show "\<exists>q'. q_remove q (int v) = Some q' \<and> q_rep n q' (m(v := None))"
    using r mem(3) by (intro exI [of _ q']) (auto simp: q_rep_def fun_eq_iff)
next
  fix n q m v c assume r: "q_rep n q m" "m v = Some c" "c + 1 < n"
  then obtain B where ok: "q_ok n q B" by (auto simp: q_rep_def)
  note mem = q_rep_member [OF ok r(1,2)]
  obtain q' B' where "q_increment q (int v) = Some q'" "q_ok n q' B'"
    "\<forall>x. qv_count (q_vertices q' ! x) = (if x = v then int c + 1 else qv_count (q_vertices q ! x))"
    using q_increment_ok [OF ok r(3) mem(2)] by blast
  then show "\<exists>q'. q_increment q (int v) = Some q' \<and> q_rep n q' (m(v := Some (c + 1)))"
    using r(1) mem(3) by (intro exI [of _ q']) (auto simp: q_rep_def fun_eq_iff nat_add_distrib)
next
  fix n q m assume r: "q_rep n q m" and n: "0 < (n :: nat)"
  then obtain B where ok: "q_ok n q B" by (auto simp: q_rep_def)
  note D = q_okD [OF ok]
  obtain k where k: "q_max_loop (q_first q) (q_max q) = Some k" "- 1 \<le> k" "k \<le> q_max q"
    "\<forall>c. k < int c \<longrightarrow> int c \<le> q_max q \<longrightarrow> q_first q ! c < 0" "0 \<le> k \<longrightarrow> 0 \<le> q_first q ! nat k"
    using q_max_loop_spec [of "q_first q" n "q_max q"] D(1,10,11) n by auto
  let ?q = "q\<lparr>q_max := k\<rparr>"
  have empty: "B c = []" if "c < n" "k < int c" for c
    using k(4) D(3,9) [OF that(1)] that by (cases "int c \<le> q_max q") auto
  have ok': "q_ok n ?q B"
    using ok k(2,3) empty D(11) unfolding q_ok_def by auto
  then have r': "q_rep n ?q m" using r by (auto simp: q_rep_def)
  have below: "int d \<le> k" if "m w = Some d" for w d
    using empty [of d] q_rep_member [OF ok r that] by (cases "k < int d") auto
  show "\<exists>r q'. q_maximum q = Some (r, q') \<and> q_rep n q' m \<and>
      (if dom m = {} then r = - 1
       else \<exists>v c. r = int v \<and> m v = Some c \<and> (\<forall>w d. m w = Some d \<longrightarrow> d \<le> c))"
  proof (cases "0 \<le> k")
    case False
    then have "dom m = {}" using below by (fastforce simp: dom_def)
    then show ?thesis using False k(1) r' by (simp add: q_maximum_def Let_def)
  next
    case True
    have kn: "nat k < n" using k(3) True D(11) n by linarith
    obtain v vs where B: "B (nat k) = v # vs"
      using D(3) [OF kn] k(5) True by (cases "B (nat k)") auto
    have v: "v < n" "qv_count (q_vertices q ! v) = k"
      using D(8) [OF kn, of v] B True by auto
    then have mv: "m v = Some (nat k)" using r True by (auto simp: q_rep_def)
    have "q_maximum q = Some (int v, ?q)"
      using k(1) True B D(1) D(3) [OF kn] kn by (simp add: q_maximum_def Let_def go_nth_def)
    then show ?thesis using mv below r' True by (auto simp: le_nat_iff)
  qed
qed

end
