(* ===== verification/Stn.thy ===== *)
theory Stn
  imports Complex_Main Bucket_Queue
begin

text \<open>
  Simple temporal networks (stn/stn.go): difference constraints \<open>time(v) - time(u) \<le> w\<close> on the edges of
  a chordal graph, tightened incrementally. Weights are \<open>int64\<close> with the wrap-around of \<open>+\<close> written
  out. A vertex is a Go \<open>int\<close>; a slice index out of range is \<open>None\<close>, as is a loop that does not
  end. The order in which Go's \<open>range\<close> visits a map is unspecified: it is the parameter \<open>rng\<close>, of
  which the theorems assume only that it lists every key once.
\<close>

section \<open>State\<close>

definition Infinity :: int where
  "Infinity = MaxInt64"

datatype stn_error = ErrInconsistent | ErrVertex | ErrEdge | ErrWeight

type_synonym adjacency = "(int, int) fmap list"
type_synonym range_fun = "int \<Rightarrow> (int, int) fmap \<Rightarrow> int list"

record network =
  nw_adj :: adjacency
  nw_limit :: int
  nw_maxInput :: int
  nw_order :: "int list"
  nw_rank :: "int list"

record distances =
  ds_forward :: int
  ds_backward :: int

definition vertex :: "network \<Rightarrow> int \<Rightarrow> bool" where
  "vertex s v \<longleftrightarrow> v \<ge> 0 \<and> v < int (length (nw_adj s))"

text \<open>\<open>s.adj[a][b]\<close> as an expression (a missing key reads as 0) and as an assignment.\<close>

definition adj_get :: "adjacency \<Rightarrow> int \<Rightarrow> int \<Rightarrow> int option" where
  "adj_get adj a b = do { m \<leftarrow> go_nth adj a; Some (case fmlookup m b of None \<Rightarrow> 0 | Some w \<Rightarrow> w) }"

definition adj_set :: "adjacency \<Rightarrow> int \<Rightarrow> int \<Rightarrow> int \<Rightarrow> adjacency option" where
  "adj_set adj a b w = do { m \<leftarrow> go_nth adj a; go_upd adj a (fmupd b w m) }"

definition adj_has :: "adjacency \<Rightarrow> int \<Rightarrow> int \<Rightarrow> bool option" where
  "adj_has adj a b = do { m \<leftarrow> go_nth adj a; Some (fmlookup m b \<noteq> None) }"

definition pathSum :: "int \<Rightarrow> int \<Rightarrow> int" where
  "pathSum a b =
     (if a = Infinity \<or> b = Infinity \<or> (b > 0 \<and> a > MaxInt64 - b) then Infinity else wrap64 (a + b))"

definition resetDistances :: "nat \<Rightarrow> distances list" where
  "resetDistances n = replicate n \<lparr>ds_forward = Infinity, ds_backward = Infinity\<rparr>"

section \<open>Tightening\<close>

text \<open>The body of \<open>Constrain\<close>'s inner loop, for the neighbour \<open>u\<close> of the visited vertex \<open>v\<close>.\<close>

definition tag_step ::
  "int \<Rightarrow> int \<Rightarrow> int \<Rightarrow> adjacency \<times> distances list \<times> cardinality \<Rightarrow>
    (adjacency \<times> distances list \<times> cardinality) option" where
  "tag_step upper v u = (\<lambda>(adj, distance, q). do {
     vu \<leftarrow> adj_get adj v u;
     uv \<leftarrow> adj_get adj u v;
     inq \<leftarrow> q_contains q u;
     du \<leftarrow> go_nth distance u;
     dv \<leftarrow> go_nth distance v;
     if inq then do {
       distance' \<leftarrow> go_upd distance u
         \<lparr>ds_forward = min (ds_forward du) (pathSum uv (ds_forward dv)),
          ds_backward = min (ds_backward du) (pathSum (ds_backward dv) vu)\<rparr>;
       q' \<leftarrow> q_increment q u;
       Some (adj, distance', q')
     } else do {
       adj1 \<leftarrow> adj_set adj u v (min uv (pathSum (pathSum (ds_forward du) upper) (ds_backward dv)));
       adj2 \<leftarrow> adj_set adj1 v u (min vu (pathSum (pathSum (ds_forward dv) upper) (ds_backward du)));
       Some (adj2, distance, q)
     }
   })"

fun tag_loop ::
  "int \<Rightarrow> int \<Rightarrow> int list \<Rightarrow> adjacency \<times> distances list \<times> cardinality \<Rightarrow>
    (adjacency \<times> distances list \<times> cardinality) option" where
  "tag_loop upper v [] st = Some st"
| "tag_loop upper v (u # us) st = do { st' \<leftarrow> tag_step upper v u st; tag_loop upper v us st' }"

partial_function (option) constrain_loop ::
  "range_fun \<Rightarrow> int \<Rightarrow> int \<Rightarrow> int \<Rightarrow> int \<Rightarrow> adjacency \<Rightarrow> distances list \<Rightarrow> cardinality \<Rightarrow> adjacency option" where
  "constrain_loop rng fr to upper v adj distance q =
     (if v < 0 then Some adj
      else do {
        q1 \<leftarrow> q_remove q v;
        m \<leftarrow> go_nth adj v;
        st \<leftarrow> tag_loop upper v (rng v m) (adj, distance, q1);
        if v = fr
        then constrain_loop rng fr to upper to (fst st) (fst (snd st)) (snd (snd st))
        else do {
          vq \<leftarrow> q_maximum (snd (snd st));
          constrain_loop rng fr to upper (fst vq) (fst st) (fst (snd st)) (snd vq)
        }
      })"

definition Constrain ::
  "range_fun \<Rightarrow> network \<Rightarrow> int \<Rightarrow> int \<Rightarrow> int \<Rightarrow> (stn_error + network) option" where
  "Constrain rng s fr to upper =
     (if \<not> vertex s fr \<or> \<not> vertex s to then Some (Inl ErrVertex)
      else if upper < - nw_limit s \<or> upper > nw_limit s then Some (Inl ErrWeight)
      else if fr = to then (if upper < 0 then Some (Inl ErrInconsistent) else Some (Inr s))
      else do {
        m \<leftarrow> go_nth (nw_adj s) fr;
        case fmlookup m to of
          None \<Rightarrow> Some (Inl ErrEdge)
        | Some old \<Rightarrow> do {
            back \<leftarrow> adj_get (nw_adj s) to fr;
            if pathSum upper back < 0 then Some (Inl ErrInconsistent)
            else if upper \<ge> old then Some (Inr s)
            else do {
              let n = length (nw_adj s);
              let d0 = resetDistances n;
              df \<leftarrow> go_nth d0 fr;
              d1 \<leftarrow> go_upd d0 fr (df\<lparr>ds_forward := 0\<rparr>);
              dt \<leftarrow> go_nth d1 to;
              d2 \<leftarrow> go_upd d1 to (dt\<lparr>ds_backward := 0\<rparr>);
              adj' \<leftarrow> constrain_loop rng fr to upper fr (nw_adj s) d2 (newCardinality n);
              Some (Inr (s\<lparr>nw_maxInput := max (nw_maxInput s) (max upper (- upper)), nw_adj := adj'\<rparr>))
            }
          }
      })"

section \<open>Queries\<close>

definition upper_step :: "network \<Rightarrow> int \<Rightarrow> int \<Rightarrow> distances list \<Rightarrow> distances list option" where
  "upper_step s v u distance = do {
     vu \<leftarrow> adj_get (nw_adj s) v u;
     ru \<leftarrow> go_nth (nw_rank s) u;
     rv \<leftarrow> go_nth (nw_rank s) v;
     if ru \<le> rv then Some distance
     else do {
       du \<leftarrow> go_nth distance u;
       dv \<leftarrow> go_nth distance v;
       uv \<leftarrow> adj_get (nw_adj s) u v;
       go_upd distance u
         \<lparr>ds_forward = min (ds_forward du) (pathSum (ds_forward dv) vu),
          ds_backward = min (ds_backward du) (pathSum (ds_backward dv) uv)\<rparr>
     }
   }"

fun upper_edges :: "network \<Rightarrow> int \<Rightarrow> int list \<Rightarrow> distances list \<Rightarrow> distances list option" where
  "upper_edges s v [] distance = Some distance"
| "upper_edges s v (u # us) distance = do { d \<leftarrow> upper_step s v u distance; upper_edges s v us d }"

fun upper_loop :: "range_fun \<Rightarrow> network \<Rightarrow> int list \<Rightarrow> int \<Rightarrow> distances list \<Rightarrow> int option" where
  "upper_loop rng s [] bound distance = Some bound"
| "upper_loop rng s (v # vs) bound distance = do {
     dv \<leftarrow> go_nth distance v;
     let bound' = min bound (pathSum (ds_forward dv) (ds_backward dv));
     if ds_forward dv = Infinity \<and> ds_backward dv = Infinity then upper_loop rng s vs bound' distance
     else do {
       m \<leftarrow> go_nth (nw_adj s) v;
       d \<leftarrow> upper_edges s v (rng v m) distance;
       upper_loop rng s vs bound' d
     }
   }"

definition stn_upper :: "range_fun \<Rightarrow> network \<Rightarrow> int \<Rightarrow> int \<Rightarrow> int option" where
  "stn_upper rng s fr to = do {
     let d0 = resetDistances (length (nw_adj s));
     df \<leftarrow> go_nth d0 fr;
     d1 \<leftarrow> go_upd d0 fr (df\<lparr>ds_forward := 0\<rparr>);
     dt \<leftarrow> go_nth d1 to;
     d2 \<leftarrow> go_upd d1 to (dt\<lparr>ds_backward := 0\<rparr>);
     upper_loop rng s (nw_order s) Infinity d2
   }"

definition Upper :: "range_fun \<Rightarrow> network \<Rightarrow> int \<Rightarrow> int \<Rightarrow> (stn_error + int) option" where
  "Upper rng s fr to =
     (if \<not> vertex s fr \<or> \<not> vertex s to then Some (Inl ErrVertex)
      else if fr = to then Some (Inr 0)
      else do {
        m \<leftarrow> go_nth (nw_adj s) fr;
        case fmlookup m to of
          Some w \<Rightarrow> Some (Inr w)
        | None \<Rightarrow> do { b \<leftarrow> stn_upper rng s fr to; Some (Inr b) }
      })"

definition bounds :: "range_fun \<Rightarrow> network \<Rightarrow> int \<Rightarrow> int \<Rightarrow> (int \<times> int) option" where
  "bounds rng s fr to = do {
     m \<leftarrow> go_nth (nw_adj s) fr;
     case fmlookup m to of
       Some w \<Rightarrow> do { w' \<leftarrow> adj_get (nw_adj s) to fr; Some (w, w') }
     | None \<Rightarrow> do { f \<leftarrow> stn_upper rng s fr to; b \<leftarrow> stn_upper rng s to fr; Some (f, b) }
   }"

section \<open>Growing\<close>

definition AddPoint :: "network \<Rightarrow> stn_error + (int \<times> network)" where
  "AddPoint s =
     (let n = length (nw_adj s) in
      if n \<ge> 2 ^ 20 then Inl ErrVertex
      else let limit = 2 ^ 60 div (int n + 2) in
        if nw_maxInput s > limit then Inl ErrWeight
        else Inr (int n,
          s\<lparr>nw_adj := nw_adj s @ [fmempty], nw_order := nw_order s @ [int n],
            nw_rank := nw_rank s @ [int n], nw_limit := limit\<rparr>))"

definition stn_link :: "int \<Rightarrow> int \<Rightarrow> adjacency \<Rightarrow> adjacency option" where
  "stn_link a b adj = do {
     has \<leftarrow> adj_has adj a b;
     if has then Some adj else do { adj1 \<leftarrow> adj_set adj a b Infinity; adj_set adj1 b a Infinity }
   }"

definition WeightLimit :: "network \<Rightarrow> int" where
  "WeightLimit s = nw_limit s"

end
