(* ===== verification/Stn_Sound.thy ===== *)
theory Stn_Sound
  imports Stn
begin

text \<open>
  Correctness of the temporal network with respect to its solutions: \<open>Constrain\<close> always returns, never
  indexes out of range, and changes the set of solutions exactly by the constraint it is given, on
  every iteration order and with machine arithmetic; queries return implied bounds.
\<close>

section \<open>Bounds\<close>

text \<open>\<open>bnd \<tau> x y w\<close>: the bound \<open>w\<close> on \<open>\<tau> y - \<tau> x\<close> holds.\<close>

definition bnd :: "(int \<Rightarrow> real) \<Rightarrow> int \<Rightarrow> int \<Rightarrow> int \<Rightarrow> bool" where
  "bnd \<tau> x y w \<longleftrightarrow> w = Infinity \<or> \<tau> y - \<tau> x \<le> real_of_int w"

lemma Infinity_int64 [simp]: "in_int64 Infinity"
  by (simp add: Infinity_def int64_defs)

lemma zero_int64 [simp]: "in_int64 0"
  by (simp add: int64_defs)

lemma min_int64: "in_int64 a \<Longrightarrow> in_int64 b \<Longrightarrow> in_int64 (min a b)"
  by (simp add: min_def)

lemma pathSum_int64 [simp]: "in_int64 (pathSum a b)"
  by (simp add: pathSum_def wrap64_range)

lemma le_Infinity: "in_int64 w \<Longrightarrow> w \<le> Infinity"
  by (simp add: Infinity_def int64_defs)

text \<open>A sum that wraps does so downwards only, to a larger number, which is a weaker bound.\<close>

lemma wrap64_ge:
  assumes "x \<le> MaxInt64"
  shows "x \<le> wrap64 x"
proof -
  have "(x + 2 ^ 63) mod 2 ^ 64 \<ge> x + 2 ^ 63"
  proof (cases "x + 2 ^ 63 \<ge> 0")
    case True
    then show ?thesis using assms by (simp add: int64_defs mod_pos_pos_trivial)
  next
    case False
    moreover have "0 \<le> (x + 2 ^ 63) mod 2 ^ 64" by (rule pos_mod_sign) simp
    ultimately show ?thesis by linarith
  qed
  then show ?thesis by (simp only: wrap64_def)
qed

lemma bnd_pathSum:
  assumes "bnd \<tau> x y a" and "bnd \<tau> y z b" and "in_int64 a" and "in_int64 b"
  shows "bnd \<tau> x z (pathSum a b)"
proof (cases "a = Infinity \<or> b = Infinity \<or> (b > 0 \<and> a > MaxInt64 - b)")
  case True
  then show ?thesis by (simp add: pathSum_def bnd_def)
next
  case False
  then have "a + b \<le> MaxInt64" using assms(3) by (auto simp: int64_defs)
  then have "real_of_int (a + b) \<le> real_of_int (wrap64 (a + b))" by (simp only: of_int_le_iff wrap64_ge)
  moreover have "\<tau> z - \<tau> x \<le> real_of_int (a + b)" using assms(1,2) False by (simp add: bnd_def)
  moreover have "pathSum a b = wrap64 (a + b)" using False unfolding pathSum_def by (rule if_not_P)
  ultimately show ?thesis unfolding bnd_def by linarith
qed

lemma bnd_min: "bnd \<tau> x y a \<Longrightarrow> bnd \<tau> x y b \<Longrightarrow> bnd \<tau> x y (min a b)"
  by (simp add: min_def)

lemma bnd_mono:
  assumes "bnd \<tau> x y a" and "a \<le> b" and "in_int64 b"
  shows "bnd \<tau> x y b"
proof (cases "a = Infinity")
  case True
  then have "b = Infinity" using assms(2) le_Infinity [OF assms(3)] by simp
  then show ?thesis by (simp add: bnd_def)
next
  case False
  moreover have "real_of_int a \<le> real_of_int b" using assms(2) by (simp only: of_int_le_iff)
  ultimately show ?thesis using assms(1) unfolding bnd_def by linarith
qed

lemma bnd_refl: "bnd \<tau> x x w \<longleftrightarrow> 0 \<le> w"
  by (auto simp: bnd_def Infinity_def int64_defs)

section \<open>Edges\<close>

definition edge :: "adjacency \<Rightarrow> int \<Rightarrow> int \<Rightarrow> int option" where
  "edge adj a b = (if 0 \<le> a \<and> a < int (length adj) then fmlookup (adj ! nat a) b else None)"

definition in_range :: "nat \<Rightarrow> int \<Rightarrow> bool" where
  "in_range n v \<longleftrightarrow> 0 \<le> v \<and> v < int n"

lemma adj_get_edge:
  "in_range (length adj) a \<Longrightarrow> adj_get adj a b = Some (case edge adj a b of None \<Rightarrow> 0 | Some w \<Rightarrow> w)"
  by (simp add: adj_get_def go_nth_def edge_def in_range_def)

lemma adj_has_edge: "in_range (length adj) a \<Longrightarrow> adj_has adj a b = Some (edge adj a b \<noteq> None)"
  by (simp add: adj_has_def go_nth_def edge_def in_range_def)

lemma adj_set_edge:
  assumes "in_range (length adj) a"
  shows "\<exists>adj'. adj_set adj a b w = Some adj' \<and> length adj' = length adj \<and>
    (\<forall>x y. edge adj' x y = (if x = a \<and> y = b then Some w else edge adj x y))"
proof -
  have "adj_set adj a b w = Some (adj[nat a := fmupd b w (adj ! nat a)])"
    using assms by (simp add: adj_set_def go_nth_def go_upd_def in_range_def)
  moreover have "edge (adj[nat a := fmupd b w (adj ! nat a)]) x y = (if x = a \<and> y = b then Some w else edge adj x y)"
    for x y
  proof (cases "x = a")
    case True
    moreover have "nat a < length adj" using assms by (simp add: in_range_def nat_less_iff)
    ultimately show ?thesis using assms by (simp add: edge_def in_range_def)
  next
    case False
    then have "nat a \<noteq> nat x" if "0 \<le> x"
      using assms that by (simp add: in_range_def eq_nat_nat_iff)
    then show ?thesis using False by (simp add: edge_def)
  qed
  ultimately show ?thesis by simp
qed

text \<open>The shape of an adjacency: symmetric, without loops, weights in range.\<close>

definition graph_ok :: "nat \<Rightarrow> adjacency \<Rightarrow> bool" where
  "graph_ok n adj \<longleftrightarrow> length adj = n \<and>
     (\<forall>a b w. edge adj a b = Some w \<longrightarrow> in_range n b \<and> a \<noteq> b \<and> edge adj b a \<noteq> None \<and> in_int64 w)"

lemma edge_range: "edge adj a b = Some w \<Longrightarrow> in_range (length adj) a"
  by (simp add: edge_def in_range_def split: if_splits)

lemma graph_okD:
  assumes "graph_ok n adj" and "edge adj a b = Some w"
  shows "in_range n a" "in_range n b" "a \<noteq> b" "edge adj b a \<noteq> None" "in_int64 w"
  using assms edge_range [OF assms(2)] by (auto simp: graph_ok_def)

definition same_edges :: "adjacency \<Rightarrow> adjacency \<Rightarrow> bool" where
  "same_edges adj adj' \<longleftrightarrow> (\<forall>a b. (edge adj a b \<noteq> None) = (edge adj' a b \<noteq> None))"

lemma same_edges_refl [simp]: "same_edges adj adj"
  by (simp add: same_edges_def)

lemma same_edges_trans: "same_edges a b \<Longrightarrow> same_edges b c \<Longrightarrow> same_edges a c"
  by (simp add: same_edges_def)

definition dist_ok :: "nat \<Rightarrow> distances list \<Rightarrow> bool" where
  "dist_ok n ds \<longleftrightarrow> length ds = n \<and> (\<forall>d \<in> set ds. in_int64 (ds_forward d) \<and> in_int64 (ds_backward d))"

lemma dist_ok_nth:
  assumes "dist_ok n ds" and "in_range n v"
  shows "go_nth ds v = Some (ds ! nat v)" "in_int64 (ds_forward (ds ! nat v))"
    "in_int64 (ds_backward (ds ! nat v))"
  using assms by (auto simp: dist_ok_def in_range_def go_nth_def nat_less_iff)

lemma dist_ok_upd:
  assumes "dist_ok n ds" and "in_int64 (ds_forward d)" and "in_int64 (ds_backward d)"
  shows "dist_ok n (ds[i := d])"
  using assms set_update_subset_insert [of ds i d] by (auto simp: dist_ok_def)

text \<open>The order in which \<open>range\<close> visits a map.\<close>

definition range_order :: "range_fun \<Rightarrow> bool" where
  "range_order rng \<longleftrightarrow> (\<forall>v m. distinct (rng v m) \<and> set (rng v m) = fset (fmdom m))"

lemma range_order_edges:
  assumes "range_order rng" and "in_range (length adj) v"
  shows "distinct (rng v (adj ! nat v))" "u \<in> set (rng v (adj ! nat v)) \<longleftrightarrow> edge adj v u \<noteq> None"
  using assms by (auto simp: range_order_def edge_def in_range_def fmlookup_dom_iff)

section \<open>One tagging step\<close>

text \<open>What a step does to weights and distances, when \<open>u\<close> is still queued and when it is not.\<close>

definition weight :: "adjacency \<Rightarrow> int \<Rightarrow> int \<Rightarrow> int" where
  "weight adj a b = the (edge adj a b)"

definition tag_eff ::
  "int \<Rightarrow> int \<Rightarrow> int \<Rightarrow> bool \<Rightarrow> adjacency \<Rightarrow> distances list \<Rightarrow> adjacency \<Rightarrow> distances list \<Rightarrow> bool" where
  "tag_eff upper v u inq adj ds adj' ds' \<longleftrightarrow>
     (let du = ds ! nat u; dv = ds ! nat v in
      if inq then adj' = adj \<and> ds' = ds[nat u :=
         \<lparr>ds_forward = min (ds_forward du) (pathSum (weight adj u v) (ds_forward dv)),
          ds_backward = min (ds_backward du) (pathSum (ds_backward dv) (weight adj v u))\<rparr>]
      else ds' = ds \<and> length adj' = length adj \<and> (\<forall>x y. edge adj' x y =
         (if x = u \<and> y = v
          then Some (min (weight adj u v) (pathSum (pathSum (ds_forward du) upper) (ds_backward dv)))
          else if x = v \<and> y = u
          then Some (min (weight adj v u) (pathSum (pathSum (ds_forward dv) upper) (ds_backward du)))
          else edge adj x y)))"

lemma tag_step_eff:
  assumes adj: "graph_ok n adj" and ds: "dist_ok n ds" and q: "q_rep n q m"
    and e: "edge adj v u = Some w" and c: "\<And>c. m (nat u) = Some c \<Longrightarrow> c + 1 < n"
  shows "\<exists>adj' ds' q' m'. tag_step upper v u (adj, ds, q) = Some (adj', ds', q') \<and>
    tag_eff upper v u (m (nat u) \<noteq> None) adj ds adj' ds' \<and> q_rep n q' m' \<and>
    m' = (case m (nat u) of None \<Rightarrow> m | Some c \<Rightarrow> m(nat u := Some (c + 1)))"
proof -
  note D = graph_okD [OF adj e]
  have len: "length adj = n" using adj by (simp add: graph_ok_def)
  obtain w' where e': "edge adj u v = Some w'" using D(4) by blast
  have get: "adj_get adj v u = Some (weight adj v u)" "adj_get adj u v = Some (weight adj u v)"
    using D(1,2) len e e' by (simp_all add: adj_get_edge weight_def)
  have u: "u = int (nat u)" "nat u < n" using D(2) by (auto simp: in_range_def)
  have cont: "q_contains q u = Some (m (nat u) \<noteq> None)"
    using mcs.contains_rep [OF q u(2)] u(1) by simp
  note dn = dist_ok_nth(1) [OF ds D(1)] dist_ok_nth(1) [OF ds D(2)]
  show ?thesis
  proof (cases "m (nat u)")
    case (Some c)
    obtain q' where q': "q_increment q u = Some q'" "q_rep n q' (m(nat u := Some (c + 1)))"
      using mcs.increment_rep [OF q Some c [OF Some]] u(1) by auto
    have "go_upd ds u d = Some (ds[nat u := d])" for d
      using ds D(2) by (simp add: go_upd_def dist_ok_def in_range_def)
    then show ?thesis
      using Some q' get cont dn by (simp add: tag_step_def tag_eff_def)
  next
    case None
    let ?w1 = "min (weight adj u v) (pathSum (pathSum (ds_forward (ds ! nat u)) upper) (ds_backward (ds ! nat v)))"
    let ?w2 = "min (weight adj v u) (pathSum (pathSum (ds_forward (ds ! nat v)) upper) (ds_backward (ds ! nat u)))"
    obtain a1 where a1: "adj_set adj u v ?w1 = Some a1" "length a1 = length adj"
      "\<forall>x y. edge a1 x y = (if x = u \<and> y = v then Some ?w1 else edge adj x y)"
      using adj_set_edge [of adj u v ?w1] D(2) len by auto
    obtain a2 where a2: "adj_set a1 v u ?w2 = Some a2" "length a2 = length a1"
      "\<forall>x y. edge a2 x y = (if x = v \<and> y = u then Some ?w2 else edge a1 x y)"
      using adj_set_edge [of a1 v u ?w2] D(1) len a1(2) by auto
    then show ?thesis
      using None get cont dn a1 q D(3) by (intro exI [of _ a2]) (auto simp: tag_step_def tag_eff_def)
  qed
qed

lemma tag_eff_ok:
  assumes adj: "graph_ok n adj" and ds: "dist_ok n ds" and e: "edge adj v u = Some w"
    and eff: "tag_eff upper v u inq adj ds adj' ds'"
  shows "graph_ok n adj'" "dist_ok n ds'" "same_edges adj adj'"
proof -
  note D = graph_okD [OF adj e]
  obtain w' where e': "edge adj u v = Some w'" using D(4) by blast
  note I = D(5) graph_okD(5) [OF adj e']
  show "dist_ok n ds'"
  proof (cases inq)
    case True
    then show ?thesis
      using eff ds dist_ok_nth(2,3) [OF ds D(2)]
      by (auto simp: tag_eff_def Let_def min_int64 intro: dist_ok_upd)
  qed (use eff ds in \<open>simp add: tag_eff_def Let_def\<close>)
  show same: "same_edges adj adj'"
    using eff e e' by (cases inq) (auto simp: tag_eff_def Let_def same_edges_def)
  show "graph_ok n adj'"
  proof (cases inq)
    case False
    have "in_int64 x" if "edge adj' a b = Some x" for a b x
      using eff False that adj I e e'
      by (auto simp: tag_eff_def Let_def weight_def min_int64 graph_ok_def split: if_splits)
    moreover have "in_range n b \<and> a \<noteq> b \<and> edge adj' b a \<noteq> None" if "edge adj' a b = Some x" for a b x
    proof -
      have "edge adj a b \<noteq> None" using same that by (simp add: same_edges_def)
      then obtain y where "edge adj a b = Some y" by blast
      from graph_okD(2-4) [OF adj this] show ?thesis using same unfolding same_edges_def by metis
    qed
    moreover have "length adj' = n"
      using eff False adj by (simp add: graph_ok_def tag_eff_def Let_def)
    ultimately show ?thesis unfolding graph_ok_def by blast
  qed (use eff adj in \<open>simp add: tag_eff_def Let_def\<close>)
qed

section \<open>Tagging the neighbours of a vertex\<close>

text \<open>Counts stay below the number of removed vertices: a vertex is incremented once per removal.\<close>

definition budget :: "nat \<Rightarrow> nat \<Rightarrow> (nat \<rightharpoonup> nat) \<Rightarrow> nat set \<Rightarrow> bool" where
  "budget n k m us \<longleftrightarrow>
     (\<forall>v c. m v = Some c \<longrightarrow> c + card (dom m) + (if v \<in> us then k else 0) \<le> n)"

lemma tag_loop_inv:
  assumes "graph_ok n adj" and "dist_ok n ds" and "q_rep n q m" and "distinct us"
    and "\<forall>u \<in> set us. edge adj v u \<noteq> None" and "budget n 1 m (nat ` set us)" and "I us adj ds"
    and pres: "\<And>u us adj ds adj' ds'. graph_ok n adj \<Longrightarrow> dist_ok n ds \<Longrightarrow> edge adj v u \<noteq> None \<Longrightarrow>
      tag_eff upper v u (nat u \<in> dom m) adj ds adj' ds' \<Longrightarrow> I (u # us) adj ds \<Longrightarrow> I us adj' ds'"
  shows "\<exists>adj' ds' q' m'. tag_loop upper v us (adj, ds, q) = Some (adj', ds', q') \<and>
    graph_ok n adj' \<and> dist_ok n ds' \<and> same_edges adj adj' \<and> q_rep n q' m' \<and> dom m' = dom m \<and>
    budget n 0 m' {} \<and> I [] adj' ds'"
  using assms
proof (induction us arbitrary: adj ds q m)
  case Nil
  then show ?case by (auto simp: budget_def)
next
  case (Cons u us)
  obtain w where e: "edge adj v u = Some w" using Cons.prems(5) by auto
  have fin: "finite (dom m)"
    using mcs.rep_dom [OF Cons.prems(3)] by (rule finite_subset) simp
  have c: "c + 1 < n" if "m (nat u) = Some c" for c
  proof -
    have "0 < card (dom m)" using that fin by (auto simp: card_gt_0_iff)
    moreover have "c + card (dom m) + 1 \<le> n"
      using Cons.prems(6) that by (auto simp: budget_def split: if_splits)
    ultimately show ?thesis by simp
  qed
  obtain adj1 ds1 q1 m1 where step: "tag_step upper v u (adj, ds, q) = Some (adj1, ds1, q1)"
    and eff: "tag_eff upper v u (nat u \<in> dom m) adj ds adj1 ds1" and q1: "q_rep n q1 m1"
    and m1: "m1 = (case m (nat u) of None \<Rightarrow> m | Some c \<Rightarrow> m(nat u := Some (c + 1)))"
    using tag_step_eff [OF Cons.prems(1-3) e c, of upper] unfolding domIff by blast
  note ok = tag_eff_ok [OF Cons.prems(1,2) e eff]
  have dom: "dom m1 = dom m" by (auto simp: m1 split: option.split)
  have nin: "nat u \<notin> nat ` set us"
  proof
    assume "nat u \<in> nat ` set us"
    then obtain u' where u': "u' \<in> set us" "nat u = nat u'" by blast
    obtain w' where "edge adj v u' = Some w'" using Cons.prems(5) u' by auto
    then have "0 \<le> u'" "0 \<le> u"
      using graph_okD(2) [OF Cons.prems(1)] e by (auto simp: in_range_def)
    then show False using u' Cons.prems(4) by (auto simp: eq_nat_nat_iff)
  qed
  have "budget n 1 m1 (nat ` set us)"
    unfolding budget_def
  proof (intro allI impI)
    fix x d assume d: "m1 x = Some d"
    show "d + card (dom m1) + (if x \<in> nat ` set us then 1 else 0) \<le> n"
    proof (cases "x = nat u")
      case True
      then obtain c where "m (nat u) = Some c" "d = c + 1" using d by (auto simp: m1 split: option.splits)
      then show ?thesis using Cons.prems(6) True nin by (auto simp: budget_def dom split: if_splits)
    next
      case False
      then have "m x = Some d" using d by (auto simp: m1 split: option.splits)
      then show ?thesis using Cons.prems(6) False by (auto simp: budget_def dom split: if_splits)
    qed
  qed
  moreover have "\<forall>u \<in> set us. edge adj1 v u \<noteq> None"
    using Cons.prems(5) ok(3) unfolding same_edges_def by simp
  moreover have "I us adj1 ds1" using Cons.prems(8) [OF Cons.prems(1,2) _ eff Cons.prems(7)] e by simp
  ultimately obtain adj' ds' q' m' where
    "tag_loop upper v us (adj1, ds1, q1) = Some (adj', ds', q')" "graph_ok n adj'" "dist_ok n ds'"
    "same_edges adj1 adj'" "q_rep n q' m'" "dom m' = dom m1" "budget n 0 m' {}" "I [] adj' ds'"
    using Cons.IH [OF ok(1,2) q1] Cons.prems(4,8) dom by auto
  then show ?case
    using step dom same_edges_trans [OF ok(3)] by auto
qed

section \<open>The whole loop\<close>

text \<open>The loop's invariant apart from the property carried along.\<close>

definition loop_ok :: "nat \<Rightarrow> adjacency \<Rightarrow> distances list \<Rightarrow> cardinality \<Rightarrow> (nat \<rightharpoonup> nat) \<Rightarrow> bool" where
  "loop_ok n adj ds q m \<longleftrightarrow> graph_ok n adj \<and> dist_ok n ds \<and> q_rep n q m \<and> budget n 0 m {}"

text \<open>Visiting one vertex: remove it from the queue and tag its neighbours.\<close>

lemma visit_vertex:
  assumes ok: "loop_ok n adj ds q m" and rng: "range_order rng" and v: "m (nat v) = Some c" "0 \<le> v"
    and I: "I (rng v (adj ! nat v)) adj ds"
    and pres: "\<And>u us adj ds adj' ds'. graph_ok n adj \<Longrightarrow> dist_ok n ds \<Longrightarrow> edge adj v u \<noteq> None \<Longrightarrow>
      tag_eff upper v u (nat u \<in> dom m - {nat v}) adj ds adj' ds' \<Longrightarrow> I (u # us) adj ds \<Longrightarrow> I us adj' ds'"
  shows "\<exists>q1 adj' ds' q' m'. q_remove q v = Some q1 \<and> go_nth adj v = Some (adj ! nat v) \<and>
    tag_loop upper v (rng v (adj ! nat v)) (adj, ds, q1) = Some (adj', ds', q') \<and>
    loop_ok n adj' ds' q' m' \<and> dom m' = dom m - {nat v} \<and> same_edges adj adj' \<and> I [] adj' ds'"
proof -
  have adj: "graph_ok n adj" and ds: "dist_ok n ds" and q: "q_rep n q m" and b: "budget n 0 m {}"
    using ok by (simp_all add: loop_ok_def)
  have len: "length adj = n" using adj by (simp add: graph_ok_def)
  have dn: "dom m \<subseteq> {..<n}" by (rule mcs.rep_dom [OF q])
  then have vn: "nat v < n" using v by auto
  then have rv: "in_range (length adj) v" using v len by (simp add: in_range_def)
  obtain q1 where q1: "q_remove q v = Some q1" "q_rep n q1 (m(nat v := None))"
    using mcs.remove_rep [OF q v(1)] v(2) by auto
  let ?m = "m(nat v := None)"
  have dom: "dom ?m = dom m - {nat v}" by auto
  have fin: "finite (dom m)" using dn by (rule finite_subset) simp
  then have card: "card (dom m) = card (dom ?m) + 1"
    using v(1) dom by (metis Suc_eq_plus1 card_Suc_Diff1 domI)
  have b1: "budget n 1 ?m (nat ` set (rng v (adj ! nat v)))"
    unfolding budget_def
  proof (intro allI impI)
    fix x d assume "?m x = Some d"
    then have "m x = Some d" by (simp split: if_splits)
    then have "d + card (dom m) \<le> n" using b by (auto simp: budget_def)
    then show "d + card (dom ?m) + (if x \<in> nat ` set (rng v (adj ! nat v)) then 1 else 0) \<le> n"
      unfolding card by simp
  qed
  have edges: "distinct (rng v (adj ! nat v))" "\<forall>u \<in> set (rng v (adj ! nat v)). edge adj v u \<noteq> None"
    using range_order_edges [OF rng rv] by blast+
  obtain adj' ds' q' m' where r: "tag_loop upper v (rng v (adj ! nat v)) (adj, ds, q1) = Some (adj', ds', q')"
    "graph_ok n adj'" "dist_ok n ds'" "same_edges adj adj'" "q_rep n q' m'" "dom m' = dom ?m"
    "budget n 0 m' {}" "I [] adj' ds'"
    using tag_loop_inv [OF adj ds q1(2) edges b1, of I upper] I pres unfolding dom by blast
  have "go_nth adj v = Some (adj ! nat v)"
    using rv by (simp add: go_nth_def in_range_def)
  then show ?thesis
    using q1(1) r dom by (auto simp: loop_ok_def)
qed

text \<open>One iteration for a vertex other than the first, with the choice of the next vertex.\<close>

lemma constrain_step:
  assumes ok: "loop_ok n adj ds q m" and rng: "range_order rng" and v: "m (nat v) = Some c" "0 \<le> v"
    and "v \<noteq> fr" and n: "0 < n" and I: "I (rng v (adj ! nat v)) adj ds"
    and pres: "\<And>u us adj ds adj' ds'. graph_ok n adj \<Longrightarrow> dist_ok n ds \<Longrightarrow> edge adj v u \<noteq> None \<Longrightarrow>
      tag_eff upper v u (nat u \<in> dom m - {nat v}) adj ds adj' ds' \<Longrightarrow> I (u # us) adj ds \<Longrightarrow> I us adj' ds'"
  shows "\<exists>r adj1 ds1 q1 m1.
    constrain_loop rng fr to upper v adj ds q = constrain_loop rng fr to upper r adj1 ds1 q1 \<and>
    loop_ok n adj1 ds1 q1 m1 \<and> dom m1 = dom m - {nat v} \<and> same_edges adj adj1 \<and> I [] adj1 ds1 \<and>
    (if dom m1 = {} then r = - 1 else 0 \<le> r \<and> nat r \<in> dom m1)"
proof -
  obtain q1 adj1 ds1 q2 m1 where s: "q_remove q v = Some q1" "go_nth adj v = Some (adj ! nat v)"
    "tag_loop upper v (rng v (adj ! nat v)) (adj, ds, q1) = Some (adj1, ds1, q2)"
    "loop_ok n adj1 ds1 q2 m1" "dom m1 = dom m - {nat v}" "same_edges adj adj1" "I [] adj1 ds1"
    using visit_vertex [OF ok rng v, of I upper] I pres by blast
  obtain r q3 where r: "q_maximum q2 = Some (r, q3)" "q_rep n q3 m1"
    "if dom m1 = {} then r = - 1 else \<exists>v c. r = int v \<and> m1 v = Some c \<and> (\<forall>w d. m1 w = Some d \<longrightarrow> d \<le> c)"
    using mcs.maximum_rep [of n q2 m1] s(4) n by (auto simp: loop_ok_def)
  have "loop_ok n adj1 ds1 q3 m1" using s(4) r(2) by (simp add: loop_ok_def)
  moreover have "if dom m1 = {} then r = - 1 else 0 \<le> r \<and> nat r \<in> dom m1" using r(3) by auto
  moreover have "constrain_loop rng fr to upper v adj ds q = constrain_loop rng fr to upper r adj1 ds1 q3"
    using s(1-3) r(1) v(2) \<open>v \<noteq> fr\<close> by (subst constrain_loop.simps) simp
  ultimately show ?thesis using s(5-7) by blast
qed

text \<open>From the second vertex on, the loop visits queued vertices until none is left.\<close>

lemma constrain_loop_rest:
  assumes "loop_ok n adj ds q m" and rng: "range_order rng" and fr: "nat fr \<notin> dom m" and n: "0 < n"
    and "if dom m = {} then v = - 1 else 0 \<le> v \<and> nat v \<in> dom m" and "I adj ds"
    and pres: "\<And>v u inq adj ds adj' ds'. graph_ok n adj \<Longrightarrow> dist_ok n ds \<Longrightarrow> edge adj v u \<noteq> None \<Longrightarrow>
      tag_eff upper v u inq adj ds adj' ds' \<Longrightarrow> I adj ds \<Longrightarrow> I adj' ds'"
  shows "\<exists>adj' ds'. constrain_loop rng fr to upper v adj ds q = Some adj' \<and> graph_ok n adj' \<and>
    same_edges adj adj' \<and> I adj' ds'"
  using assms
proof (induction "card (dom m)" arbitrary: adj ds q m v)
  case 0
  have "finite (dom m)"
    using mcs.rep_dom 0 by (meson loop_ok_def finite_lessThan finite_subset)
  then have "v = - 1" using 0 by simp
  then have "constrain_loop rng fr to upper v adj ds q = Some adj"
    by (subst constrain_loop.simps) simp
  then show ?case using 0 by (intro exI [of _ adj] exI [of _ ds]) (auto simp: loop_ok_def)
next
  case (Suc k)
  have ne: "dom m \<noteq> {}" using Suc(2) by auto
  then obtain c where v: "m (nat v) = Some c" "0 \<le> v" using Suc.prems(5) by auto
  have "v \<noteq> fr" using v Suc.prems(3) by auto
  then obtain r adj1 ds1 q1 m1 where s:
    "constrain_loop rng fr to upper v adj ds q = constrain_loop rng fr to upper r adj1 ds1 q1"
    "loop_ok n adj1 ds1 q1 m1" "dom m1 = dom m - {nat v}" "same_edges adj adj1" "I adj1 ds1"
    "if dom m1 = {} then r = - 1 else 0 \<le> r \<and> nat r \<in> dom m1"
    using constrain_step [OF Suc.prems(1) rng v _ n, of fr "\<lambda>_. I" upper to] Suc.prems(6,7) by blast
  have card: "k = card (dom m1)"
    using Suc(2) s(3) v(1) by (metis card_Diff_singleton diff_Suc_1 domI)
  have "nat fr \<notin> dom m1" using s(3) Suc.prems(3) by blast
  then obtain adj' ds' where "constrain_loop rng fr to upper r adj1 ds1 q1 = Some adj'"
    "graph_ok n adj'" "same_edges adj1 adj'" "I adj' ds'"
    using Suc(1) [OF card s(2) rng _ n s(6,5)] Suc.prems(7) by blast
  then show ?case using s(1) same_edges_trans [OF s(4)] by auto
qed

section \<open>Solutions\<close>

definition sat :: "(int \<Rightarrow> real) \<Rightarrow> adjacency \<Rightarrow> bool" where
  "sat \<tau> adj \<longleftrightarrow> (\<forall>a b w. edge adj a b = Some w \<longrightarrow> bnd \<tau> a b w)"

definition dist_sound :: "(int \<Rightarrow> real) \<Rightarrow> int \<Rightarrow> int \<Rightarrow> nat \<Rightarrow> distances list \<Rightarrow> bool" where
  "dist_sound \<tau> fr to n ds \<longleftrightarrow>
     (\<forall>u. in_range n u \<longrightarrow> bnd \<tau> u fr (ds_forward (ds ! nat u)) \<and> bnd \<tau> to u (ds_backward (ds ! nat u)))"

definition tighter :: "adjacency \<Rightarrow> adjacency \<Rightarrow> bool" where
  "tighter adj adj' \<longleftrightarrow> (\<forall>a b w. edge adj a b = Some w \<longrightarrow> (\<exists>w'. edge adj' a b = Some w' \<and> w' \<le> w))"

lemma tighter_sat:
  assumes "graph_ok n adj" and "tighter adj adj'" and "sat \<tau> adj'"
  shows "sat \<tau> adj"
  unfolding sat_def
proof (intro allI impI)
  fix a b w assume e: "edge adj a b = Some w"
  then obtain w' where "edge adj' a b = Some w'" "w' \<le> w" using assms(2) unfolding tighter_def by blast
  then show "bnd \<tau> a b w"
    using assms(3) bnd_mono graph_okD(5) [OF assms(1) e] unfolding sat_def by blast
qed

text \<open>A step keeps every solution of the network that satisfies the new constraint.\<close>

lemma tag_eff_sound:
  assumes adj: "graph_ok n adj" and ds: "dist_ok n ds" and e: "edge adj v u \<noteq> None"
    and eff: "tag_eff upper v u inq adj ds adj' ds'"
    and up: "bnd \<tau> fr to upper" "in_int64 upper"
    and S: "sat \<tau> adj" "dist_sound \<tau> fr to n ds"
  shows "sat \<tau> adj' \<and> dist_sound \<tau> fr to n ds'"
proof -
  obtain vu where vu: "edge adj v u = Some vu" using e by blast
  note D = graph_okD [OF adj vu]
  obtain uv where uv: "edge adj u v = Some uv" using D(4) by blast
  note I = D(5) graph_okD(5) [OF adj uv]
  have w: "bnd \<tau> v u vu" "bnd \<tau> u v uv" using S(1) vu uv unfolding sat_def by blast+
  have dv: "bnd \<tau> v fr (ds_forward (ds ! nat v))" "bnd \<tau> to v (ds_backward (ds ! nat v))"
    and du: "bnd \<tau> u fr (ds_forward (ds ! nat u))" "bnd \<tau> to u (ds_backward (ds ! nat u))"
    using S(2) D(1,2) by (simp_all add: dist_sound_def)
  note J = dist_ok_nth(2,3) [OF ds D(1)] dist_ok_nth(2,3) [OF ds D(2)]
  show ?thesis
  proof (cases inq)
    case True
    let ?d = "\<lparr>ds_forward = min (ds_forward (ds ! nat u)) (pathSum uv (ds_forward (ds ! nat v))),
        ds_backward = min (ds_backward (ds ! nat u)) (pathSum (ds_backward (ds ! nat v)) vu)\<rparr>"
    have new: "bnd \<tau> u fr (ds_forward ?d) \<and> bnd \<tau> to u (ds_backward ?d)"
      using bnd_min [OF du(1) bnd_pathSum [OF w(2) dv(1) I(2) J(1)]]
        bnd_min [OF du(2) bnd_pathSum [OF dv(2) w(1) J(2) I(1)]] by simp
    have eq: "adj' = adj" "ds' = ds[nat u := ?d]"
      using eff True vu uv by (simp_all add: tag_eff_def Let_def weight_def)
    have "dist_sound \<tau> fr to n ds'"
      unfolding dist_sound_def
    proof (intro allI impI)
      fix x assume x: "in_range n x"
      show "bnd \<tau> x fr (ds_forward (ds' ! nat x)) \<and> bnd \<tau> to x (ds_backward (ds' ! nat x))"
      proof (cases "x = u")
        case True
        then have "ds' ! nat x = ?d" using ds D(2) by (simp add: eq nth_upd dist_ok_def in_range_def nat_less_iff)
        then show ?thesis using new True by simp
      next
        case False
        then have "nat u \<noteq> nat x" using x D(2) by (simp add: in_range_def eq_nat_nat_iff)
        then show ?thesis using S(2) x by (simp add: eq dist_sound_def)
      qed
    qed
    then show ?thesis using S(1) eq(1) by simp
  next
    case False
    have "bnd \<tau> u v (min uv (pathSum (pathSum (ds_forward (ds ! nat u)) upper) (ds_backward (ds ! nat v))))"
      by (intro bnd_min w bnd_pathSum [of _ _ to] bnd_pathSum [of _ _ fr] du dv up J pathSum_int64)
    moreover have "bnd \<tau> v u (min vu (pathSum (pathSum (ds_forward (ds ! nat v)) upper) (ds_backward (ds ! nat u))))"
      by (intro bnd_min w bnd_pathSum [of _ _ to] bnd_pathSum [of _ _ fr] du dv up J pathSum_int64)
    ultimately show ?thesis
      using eff False S vu uv by (auto simp: tag_eff_def Let_def weight_def sat_def split: if_splits)
  qed
qed

lemma tag_eff_tighter:
  assumes "graph_ok n adj" and "edge adj v u \<noteq> None" and "tag_eff upper v u inq adj ds adj' ds'"
  shows "tighter adj adj'"
proof -
  obtain vu where vu: "edge adj v u = Some vu" using assms(2) by blast
  obtain uv where "edge adj u v = Some uv" using graph_okD(4) [OF assms(1) vu] by blast
  then show ?thesis
    using assms(3) vu by (cases inq) (auto simp: tag_eff_def Let_def tighter_def weight_def)
qed

lemma tighter_trans: "tighter a b \<Longrightarrow> tighter b c \<Longrightarrow> tighter a c"
  unfolding tighter_def by (meson order_trans)

lemma tighter_refl [simp]: "tighter a a"
  by (simp add: tighter_def)

section \<open>Constrain\<close>

lemma pathSum_zero:
  assumes "in_int64 a" and "a \<noteq> Infinity"
  shows "pathSum 0 a = a" "pathSum a 0 = a"
  using assms by (auto simp: pathSum_def Infinity_def int64_defs)

lemma pathSum_Infinity [simp]: "pathSum Infinity a = Infinity" "pathSum a Infinity = Infinity"
  by (simp_all add: pathSum_def)

text \<open>What the loop carries along: solutions are kept and weights only decrease.\<close>

definition carried :: "nat \<Rightarrow> adjacency \<Rightarrow> int \<Rightarrow> int \<Rightarrow> int \<Rightarrow> adjacency \<Rightarrow> distances list \<Rightarrow> bool" where
  "carried n adj0 fr to upper adj ds \<longleftrightarrow> tighter adj0 adj \<and>
     (\<forall>\<tau>. sat \<tau> adj0 \<longrightarrow> bnd \<tau> fr to upper \<longrightarrow> sat \<tau> adj \<and> dist_sound \<tau> fr to n ds)"

lemma carried_step:
  assumes "graph_ok n adj" "dist_ok n ds" "edge adj v u \<noteq> None" "tag_eff upper v u inq adj ds adj' ds'"
    and "in_int64 upper" and "carried n adj0 fr to upper adj ds"
  shows "carried n adj0 fr to upper adj' ds'"
  using assms(6) tag_eff_tighter [OF assms(1,3,4)] tag_eff_sound [OF assms(1-4) _ assms(5)] tighter_trans
  unfolding carried_def by blast

definition start_dist :: "nat \<Rightarrow> int \<Rightarrow> int \<Rightarrow> distances list" where
  "start_dist n fr to =
     (resetDistances n)[nat fr := \<lparr>ds_forward = 0, ds_backward = Infinity\<rparr>,
                        nat to := \<lparr>ds_forward = Infinity, ds_backward = 0\<rparr>]"

lemma start_dist_nth:
  assumes "in_range n fr" and "in_range n to" and "fr \<noteq> to" and "in_range n x"
  shows "start_dist n fr to ! nat x =
    \<lparr>ds_forward = (if x = fr then 0 else Infinity), ds_backward = (if x = to then 0 else Infinity)\<rparr>"
  using assms by (auto simp: start_dist_def resetDistances_def in_range_def nth_upd eq_nat_nat_iff nat_less_iff)

lemma start_dist_ok: "dist_ok n (start_dist n fr to)"
  unfolding start_dist_def resetDistances_def
  by (intro dist_ok_upd) (simp_all add: dist_ok_def)

lemma start_dist_sound:
  assumes "in_range n fr" and "in_range n to" and "fr \<noteq> to"
  shows "dist_sound \<tau> fr to n (start_dist n fr to)"
  using start_dist_nth [OF assms] by (simp add: dist_sound_def bnd_def)

lemma newCardinality_loop_ok:
  assumes "graph_ok n adj" and "dist_ok n ds"
  shows "loop_ok n adj ds (newCardinality n) (\<lambda>v. if v < n then Some 0 else None)"
proof -
  have "dom (\<lambda>v. if v < n then Some (0 :: nat) else None) = {..<n}" by (auto split: if_splits)
  then show ?thesis
    using assms mcs.create_rep [of n] by (simp add: loop_ok_def budget_def)
qed

lemma min_0_Infinity [simp]: "min 0 Infinity = 0"
  by (simp add: Infinity_def int64_defs)

text \<open>The distances of the endpoints stay as they were set while the endpoints are visited.\<close>

definition ends_set :: "int \<Rightarrow> int \<Rightarrow> distances list \<Rightarrow> bool" where
  "ends_set fr to ds \<longleftrightarrow>
     ds ! nat fr = \<lparr>ds_forward = 0, ds_backward = Infinity\<rparr> \<and> ds_backward (ds ! nat to) = 0"

lemma ends_set_step:
  assumes eff: "tag_eff upper v u inq a ds a' ds'" and "ends_set fr to ds" and "inq \<Longrightarrow> nat u \<noteq> nat fr"
    and "v = fr \<or> (inq \<longrightarrow> nat u \<noteq> nat to)"
  shows "ends_set fr to ds'"
proof (cases inq)
  case True
  then show ?thesis
    using assms by (cases "nat u = nat to") (auto simp: tag_eff_def ends_set_def Let_def nth_upd)
qed (use assms in \<open>simp add: tag_eff_def Let_def\<close>)

text \<open>The visit of \<open>to\<close> tightens the constrained edge, when it comes to \<open>fr\<close>.\<close>

definition edge_set :: "int \<Rightarrow> int \<Rightarrow> int \<Rightarrow> adjacency \<Rightarrow> bool" where
  "edge_set fr to upper adj \<longleftrightarrow> (\<exists>w. edge adj fr to = Some w \<and> w \<le> upper)"

lemma edge_set_tighter: "tighter a a' \<Longrightarrow> edge_set fr to upper a \<Longrightarrow> edge_set fr to upper a'"
  unfolding tighter_def edge_set_def by (meson order_trans)

lemma edge_set_step:
  assumes "tag_eff upper to fr False a ds a' ds'" and "ends_set fr to ds"
    and "in_int64 upper" "upper \<noteq> Infinity"
  shows "edge_set fr to upper a'"
  using assms by (simp add: tag_eff_def ends_set_def Let_def edge_set_def pathSum_zero)

text \<open>The first two visits: the endpoints of the new constraint.\<close>

lemma constrain_first:
  assumes adj: "graph_ok n adj" and rng: "range_order rng" and e: "edge adj fr to = Some old"
    and up: "in_int64 upper"
  shows "\<exists>adj1 ds1 q1 m1. constrain_loop rng fr to upper fr adj (start_dist n fr to) (newCardinality n) =
      constrain_loop rng fr to upper to adj1 ds1 q1 \<and>
    loop_ok n adj1 ds1 q1 m1 \<and> dom m1 = {..<n} - {nat fr} \<and> same_edges adj adj1 \<and>
    carried n adj fr to upper adj1 ds1 \<and> ends_set fr to ds1"
proof -
  note D = graph_okD [OF adj e]
  let ?d0 = "start_dist n fr to" and ?all = "\<lambda>v. if v < n then Some (0 :: nat) else None"
  let ?I = "\<lambda>(us :: int list) a ds. carried n adj fr to upper a ds \<and> ends_set fr to ds"
  have dom: "dom ?all = {..<n}" by (auto split: if_splits)
  have ok0: "loop_ok n adj ?d0 (newCardinality n) ?all"
    by (rule newCardinality_loop_ok [OF adj start_dist_ok])
  have fr: "?all (nat fr) = Some 0" "0 \<le> fr" using D(1) by (auto simp: in_range_def nat_less_iff)
  have I0: "?I us adj ?d0" for us
    using start_dist_sound [OF D(1-3)] start_dist_nth [OF D(1-3)] D(1-3) by (simp add: carried_def ends_set_def)
  have pres: "?I us' a' ds'" if "graph_ok n a" "dist_ok n ds" "edge a fr u \<noteq> None"
    "tag_eff upper fr u (nat u \<in> dom ?all - {nat fr}) a ds a' ds'" "?I us a ds" for u us us' a ds a' ds'
    using that carried_step [OF that(1-4) up] ends_set_step [OF that(4)] by blast
  obtain q1 adj1 ds1 q2 m1 where s: "q_remove (newCardinality n) fr = Some q1" "go_nth adj fr = Some (adj ! nat fr)"
    "tag_loop upper fr (rng fr (adj ! nat fr)) (adj, ?d0, q1) = Some (adj1, ds1, q2)"
    "loop_ok n adj1 ds1 q2 m1" "dom m1 = dom ?all - {nat fr}" "same_edges adj adj1" "?I [] adj1 ds1"
    using visit_vertex [OF ok0 rng fr, of ?I upper] I0 pres by blast
  then have "constrain_loop rng fr to upper fr adj ?d0 (newCardinality n) =
      constrain_loop rng fr to upper to adj1 ds1 q2"
    using fr(2) by (subst constrain_loop.simps) simp
  then show ?thesis using s(4-7) unfolding dom by blast
qed

lemma constrain_run:
  assumes adj: "graph_ok n adj" and rng: "range_order rng" and e: "edge adj fr to = Some old"
    and up: "in_int64 upper" "upper \<noteq> Infinity"
  shows "\<exists>adj' ds'. constrain_loop rng fr to upper fr adj (start_dist n fr to) (newCardinality n) = Some adj' \<and>
    graph_ok n adj' \<and> same_edges adj adj' \<and> carried n adj fr to upper adj' ds' \<and> edge_set fr to upper adj'"
proof -
  note D = graph_okD [OF adj e]
  have n: "0 < n" using D(1) by (auto simp: in_range_def)
  obtain adj1 ds1 q1 m1 where s: "constrain_loop rng fr to upper fr adj (start_dist n fr to) (newCardinality n) =
      constrain_loop rng fr to upper to adj1 ds1 q1" "loop_ok n adj1 ds1 q1 m1"
    "dom m1 = {..<n} - {nat fr}" "same_edges adj adj1" "carried n adj fr to upper adj1 ds1" "ends_set fr to ds1"
    using constrain_first [OF adj rng e up(1)] by blast
  let ?I = "\<lambda>us a ds. carried n adj fr to upper a ds \<and> ends_set fr to ds \<and> (fr \<in> set us \<or> edge_set fr to upper a)"
  have "nat to \<in> dom m1" using D(1-3) s(3) by (auto simp: in_range_def nat_less_iff eq_nat_nat_iff)
  then obtain c where to: "m1 (nat to) = Some c" "0 \<le> to" using D(2) by (auto simp: in_range_def)
  have "edge adj1 to fr \<noteq> None" using D(4) s(4) by (simp add: same_edges_def)
  then have "fr \<in> set (rng to (adj1 ! nat to))"
    using range_order_edges(2) [OF rng, of adj1 to fr] s(2) D(2) by (simp add: loop_ok_def graph_ok_def)
  then have I1: "?I (rng to (adj1 ! nat to)) adj1 ds1" using s(5,6) by blast
  have pres: "?I us a' ds'" if a: "graph_ok n a" "dist_ok n ds" "edge a to u \<noteq> None"
    "tag_eff upper to u (nat u \<in> dom m1 - {nat to}) a ds a' ds'" "?I (u # us) a ds" for u us a ds a' ds'
  proof -
    have "nat u \<in> dom m1 - {nat to} \<Longrightarrow> nat u \<noteq> nat fr" using s(3) by auto
    then have "ends_set fr to ds'" using ends_set_step [OF a(4)] a(5) by blast
    moreover have "edge_set fr to upper a'" if "u = fr"
      using a(4,5) that s(3) up by (intro edge_set_step [of _ _ _ a ds]) auto
    moreover have "edge_set fr to upper a'" if "edge_set fr to upper a"
      using that edge_set_tighter tag_eff_tighter [OF a(1,3,4)] by blast
    ultimately show ?thesis using a(5) carried_step [OF a(1-4) up(1)] by auto
  qed
  obtain r adj2 ds2 q2 m2 where s2:
    "constrain_loop rng fr to upper to adj1 ds1 q1 = constrain_loop rng fr to upper r adj2 ds2 q2"
    "loop_ok n adj2 ds2 q2 m2" "dom m2 = dom m1 - {nat to}" "same_edges adj1 adj2" "?I [] adj2 ds2"
    "if dom m2 = {} then r = - 1 else 0 \<le> r \<and> nat r \<in> dom m2"
    using constrain_step [OF s(2) rng to _ n, of fr ?I upper to] I1 pres D(3) by blast
  let ?J = "\<lambda>a ds. carried n adj fr to upper a ds \<and> edge_set fr to upper a"
  have fr: "nat fr \<notin> dom m2" and J: "?J adj2 ds2" using s(3) s2(3,5) by simp_all
  have "?J a' ds'" if "graph_ok n a" "dist_ok n ds" "edge a v u \<noteq> None" "tag_eff upper v u inq a ds a' ds'" "?J a ds"
    for v u inq a ds a' ds'
    using that carried_step [OF that(1-4) up(1)] edge_set_tighter [OF tag_eff_tighter [OF that(1,3,4)]] by blast
  then obtain adj' ds' where "constrain_loop rng fr to upper r adj2 ds2 q2 = Some adj'" "graph_ok n adj'"
    "same_edges adj2 adj'" "?J adj' ds'"
    using constrain_loop_rest [OF s2(2) rng fr n s2(6), of ?J upper to] J by blast
  then show ?thesis
    using s(1) s2(1) same_edges_trans [OF s(4) same_edges_trans [OF s2(4)]] by auto
qed

section \<open>The operations of a network\<close>

definition net_ok :: "network \<Rightarrow> bool" where
  "net_ok s \<longleftrightarrow> graph_ok (length (nw_adj s)) (nw_adj s) \<and> nw_limit s < Infinity \<and>
     length (nw_rank s) = length (nw_adj s) \<and> (\<forall>v \<in> set (nw_order s). vertex s v)"

definition solution :: "(int \<Rightarrow> real) \<Rightarrow> network \<Rightarrow> bool" where
  "solution \<tau> s \<longleftrightarrow> sat \<tau> (nw_adj s)"

lemma vertex_in_range: "vertex s v \<longleftrightarrow> in_range (length (nw_adj s)) v"
  by (simp add: vertex_def in_range_def)

text \<open>The outcome of \<open>Constrain\<close>: it returns; on success the solutions are those of before that satisfy
  the new constraint; an inconsistency is real; other errors are the documented ones.\<close>

definition constrain_spec :: "network \<Rightarrow> int \<Rightarrow> int \<Rightarrow> int \<Rightarrow> (stn_error + network) option \<Rightarrow> bool" where
  "constrain_spec s fr to upper r \<longleftrightarrow>
     (case r of
        None \<Rightarrow> False
      | Some (Inr s') \<Rightarrow> net_ok s' \<and> length (nw_adj s') = length (nw_adj s) \<and> same_edges (nw_adj s) (nw_adj s') \<and>
          (\<forall>\<tau>. solution \<tau> s' \<longleftrightarrow> solution \<tau> s \<and> \<tau> to - \<tau> fr \<le> real_of_int upper)
      | Some (Inl ErrInconsistent) \<Rightarrow> \<forall>\<tau>. \<not> (solution \<tau> s \<and> \<tau> to - \<tau> fr \<le> real_of_int upper)
      | Some (Inl ErrVertex) \<Rightarrow> \<not> vertex s fr \<or> \<not> vertex s to
      | Some (Inl ErrWeight) \<Rightarrow> \<bar>upper\<bar> > nw_limit s
      | Some (Inl ErrEdge) \<Rightarrow> fr \<noteq> to \<and> edge (nw_adj s) fr to = None)"

lemma start_dist_assigned:
  assumes "in_range n fr" and "in_range n to" and "fr \<noteq> to"
  shows "do { df \<leftarrow> go_nth (resetDistances n) fr;
      d1 \<leftarrow> go_upd (resetDistances n) fr (df\<lparr>ds_forward := 0\<rparr>);
      dt \<leftarrow> go_nth d1 to;
      d2 \<leftarrow> go_upd d1 to (dt\<lparr>ds_backward := 0\<rparr>);
      f d2 } = f (start_dist n fr to)"
proof -
  have "nat fr < n" "nat to < n" "nat fr \<noteq> nat to"
    using assms by (simp_all add: in_range_def nat_less_iff eq_nat_nat_iff)
  then show ?thesis
    using assms by (simp add: go_nth_def go_upd_def in_range_def resetDistances_def start_dist_def)
qed

lemma Constrain_eval:
  assumes "vertex s fr" and "vertex s to" and "\<bar>upper\<bar> \<le> nw_limit s" and "fr \<noteq> to"
    and e: "edge (nw_adj s) fr to = Some old" and b: "edge (nw_adj s) to fr = Some bk"
  shows "Constrain rng s fr to upper =
    (if pathSum upper bk < 0 then Some (Inl ErrInconsistent)
     else if upper \<ge> old then Some (Inr s)
     else do {
       let n = length (nw_adj s);
       adj' \<leftarrow> constrain_loop rng fr to upper fr (nw_adj s) (start_dist n fr to) (newCardinality n);
       Some (Inr (s\<lparr>nw_maxInput := max (nw_maxInput s) (max upper (- upper)), nw_adj := adj'\<rparr>)) })"
proof -
  have r: "in_range (length (nw_adj s)) fr" "in_range (length (nw_adj s)) to"
    using assms(1,2) by (simp_all add: vertex_in_range)
  have g: "go_nth (nw_adj s) fr = Some (nw_adj s ! nat fr)" "fmlookup (nw_adj s ! nat fr) to = Some old"
    using e r(1) by (simp_all add: go_nth_def edge_def in_range_def)
  have a: "adj_get (nw_adj s) to fr = Some bk"
    using b r(2) by (simp add: adj_get_edge)
  have "\<not> (upper < - nw_limit s \<or> upper > nw_limit s)" using assms(3) by linarith
  then show ?thesis
    using assms(1,2,4) g a
    by (simp add: Constrain_def Let_def start_dist_assigned [OF r assms(4)])
qed

lemma Constrain_meets_spec:
  assumes ok: "net_ok s" and rng: "range_order rng"
  shows "constrain_spec s fr to upper (Constrain rng s fr to upper)"
proof -
  let ?n = "length (nw_adj s)"
  have adj: "graph_ok ?n (nw_adj s)" and lim: "nw_limit s < Infinity" using ok by (simp_all add: net_ok_def)
  show ?thesis
  proof (cases "vertex s fr \<and> vertex s to \<and> \<bar>upper\<bar> \<le> nw_limit s \<and> fr \<noteq> to \<and> edge (nw_adj s) fr to \<noteq> None")
    case False
    then show ?thesis
      using ok by (auto simp: Constrain_def constrain_spec_def vertex_def go_nth_def edge_def split: option.splits)
  next
    case True
    then obtain old where e: "edge (nw_adj s) fr to = Some old" by blast
    note D = graph_okD [OF adj e]
    obtain bk where b: "edge (nw_adj s) to fr = Some bk" using D(4) by blast
    have up: "in_int64 upper" "upper \<noteq> Infinity"
      using True lim by (auto simp: Infinity_def int64_defs)
    have upper: "bnd \<tau> fr to upper \<longleftrightarrow> \<tau> to - \<tau> fr \<le> real_of_int upper" for \<tau>
      using up(2) by (simp add: bnd_def)
    have C: "Constrain rng s fr to upper =
        (if pathSum upper bk < 0 then Some (Inl ErrInconsistent)
         else if upper \<ge> old then Some (Inr s)
         else do {
           adj' \<leftarrow> constrain_loop rng fr to upper fr (nw_adj s) (start_dist ?n fr to) (newCardinality ?n);
           Some (Inr (s\<lparr>nw_maxInput := max (nw_maxInput s) (max upper (- upper)), nw_adj := adj'\<rparr>)) })"
      using True Constrain_eval [OF _ _ _ _ e b] by (simp add: Let_def)
    have sol: "bnd \<tau> fr to old" "bnd \<tau> to fr bk" if "solution \<tau> s" for \<tau>
      using that e b unfolding solution_def sat_def by blast+
    consider "pathSum upper bk < 0" | "pathSum upper bk \<ge> 0" "upper \<ge> old" | "pathSum upper bk \<ge> 0" "upper < old"
      by linarith
    then show ?thesis
    proof cases
      case 1
      have "\<not> (solution \<tau> s \<and> bnd \<tau> fr to upper)" for \<tau>
        using bnd_pathSum [of \<tau> fr to upper fr bk] sol(2) up(1) graph_okD(5) [OF adj b] 1 by (auto simp: bnd_refl)
      then show ?thesis using 1 by (simp add: C constrain_spec_def upper)
    next
      case 2
      have "bnd \<tau> fr to upper" if "solution \<tau> s" for \<tau>
        using bnd_mono [OF sol(1) [OF that] 2(2) up(1)] .
      then show ?thesis using 2 ok by (auto simp: C constrain_spec_def upper)
    next
      case 3
      obtain adj' ds' where r: "constrain_loop rng fr to upper fr (nw_adj s) (start_dist ?n fr to) (newCardinality ?n) = Some adj'"
        "graph_ok ?n adj'" "same_edges (nw_adj s) adj'" "carried ?n (nw_adj s) fr to upper adj' ds'" "edge_set fr to upper adj'"
        using constrain_run [OF adj rng e up] by blast
      have "sat \<tau> adj' \<longleftrightarrow> solution \<tau> s \<and> bnd \<tau> fr to upper" for \<tau>
        using r(4,5) tighter_sat [OF adj, of adj' \<tau>] bnd_mono [OF _ _ up(1)]
        unfolding carried_def edge_set_def solution_def sat_def by blast
      moreover have "length adj' = ?n" using r(2) by (simp add: graph_ok_def)
      ultimately show ?thesis
        using 3 r(1-3) ok by (simp add: C constrain_spec_def net_ok_def solution_def upper vertex_def)
    qed
  qed
qed

text \<open>C20: Adding a constraint always returns, whatever the order in which maps are iterated. When it
  succeeds, the solutions of the network are exactly the previous solutions that satisfy the new
  constraint (no solution is lost to a derived bound, and machine arithmetic never fabricates one);
  \<open>ErrInconsistent\<close> means that no solution satisfies it.\<close>

theorem constrain_exact:
  assumes "net_ok s" and "range_order rng"
  shows "case Constrain rng s fr to upper of
      None \<Rightarrow> False
    | Some (Inr s') \<Rightarrow> net_ok s' \<and> length (nw_adj s') = length (nw_adj s) \<and> same_edges (nw_adj s) (nw_adj s') \<and>
        (\<forall>\<tau>. solution \<tau> s' \<longleftrightarrow> solution \<tau> s \<and> \<tau> to - \<tau> fr \<le> real_of_int upper)
    | Some (Inl ErrInconsistent) \<Rightarrow> \<forall>\<tau>. \<not> (solution \<tau> s \<and> \<tau> to - \<tau> fr \<le> real_of_int upper)
    | Some (Inl ErrVertex) \<Rightarrow> \<not> vertex s fr \<or> \<not> vertex s to
    | Some (Inl ErrWeight) \<Rightarrow> \<bar>upper\<bar> > nw_limit s
    | Some (Inl ErrEdge) \<Rightarrow> fr \<noteq> to \<and> edge (nw_adj s) fr to = None"
  using Constrain_meets_spec [OF assms] unfolding constrain_spec_def .

text \<open>A triangle with one constraint, iterated in key order.\<close>

definition key_order :: range_fun where
  "key_order v m = sorted_list_of_fset (fmdom m)"

lemma key_order: "range_order key_order"
  by (simp add: range_order_def key_order_def sorted_list_of_fset.rep_eq)

definition ex_net :: network where
  "ex_net =
     \<lparr>nw_adj = [fmap_of_list [(1, 5), (2, Infinity)], fmap_of_list [(0, Infinity), (2, Infinity)],
               fmap_of_list [(0, Infinity), (1, Infinity)]],
      nw_limit = 1000, nw_maxInput = 5, nw_order = [0, 1, 2], nw_rank = [0, 1, 2]\<rparr>"

lemma ex_edge:
  "edge (nw_adj ex_net) a b =
     (if a = 0 then (if b = 1 then Some 5 else if b = 2 then Some Infinity else None)
      else if a = 1 then (if b = 0 \<or> b = 2 then Some Infinity else None)
      else if a = 2 then (if b = 0 \<or> b = 1 then Some Infinity else None) else None)"
proof -
  consider "a = 0" | "a = 1" | "a = 2" | "a < 0 \<or> a > 2" by linarith
  then show ?thesis
    by cases (auto simp: edge_def ex_net_def fmlookup_of_list numeral_2_eq_2)
qed

lemma ex_net_ok: "net_ok ex_net"
proof -
  have "graph_ok 3 (nw_adj ex_net)"
    unfolding graph_ok_def ex_edge
    by (auto simp: in_range_def ex_net_def Infinity_def int64_defs split: if_splits)
  then show ?thesis
    by (simp add: net_ok_def ex_net_def vertex_def Infinity_def int64_defs numeral_3_eq_3)
qed

theorem constrain_exact_witness:
  "case Constrain key_order ex_net 1 2 7 of
      Some (Inr s') \<Rightarrow> \<forall>\<tau>. solution \<tau> s' \<longleftrightarrow> solution \<tau> ex_net \<and> \<tau> 2 - \<tau> 1 \<le> 7
    | _ \<Rightarrow> False"
proof -
  have "vertex ex_net 1" "vertex ex_net 2" "\<bar>7\<bar> \<le> nw_limit ex_net"
    by (simp_all add: vertex_def ex_net_def)
  moreover have "\<not> Infinity < 0" "\<not> Infinity \<le> 7" by (simp_all add: Infinity_def int64_defs)
  ultimately have "\<exists>r. Constrain key_order ex_net 1 2 7 = do { a \<leftarrow> r; Some (Inr (ex_net\<lparr>nw_maxInput := 7, nw_adj := a\<rparr>)) }"
    using Constrain_eval [of ex_net 1 2 7 Infinity Infinity key_order]
    by (auto simp: ex_edge Let_def ex_net_def [THEN arg_cong, of nw_maxInput])
  then have "Constrain key_order ex_net 1 2 7 \<noteq> Some (Inl e)" for e
    by (auto split: Option.bind_splits)
  then show ?thesis
    using constrain_exact [OF ex_net_ok key_order, where fr = 1 and to = 2 and upper = 7] by (auto split: option.splits sum.splits)
qed

end
