(* ===== verification/Stn_Query.thy ===== *)
theory Stn_Query
  imports Stn_Sound
begin

text \<open>
  Queries of a temporal network: \<open>Upper\<close> and \<open>bounds\<close> always return on valid vertices, and the bound
  they return holds in every solution.
\<close>

lemma pathSum_commute:
  assumes "in_int64 a" and "in_int64 b"
  shows "pathSum a b = pathSum b a"
  using assms by (auto simp: pathSum_def int64_defs add.commute)

text \<open>In a query, \<open>forward\<close> bounds the way from \<open>fr\<close> and \<open>backward\<close> the way to \<open>to\<close>.\<close>

definition query_sound :: "(int \<Rightarrow> real) \<Rightarrow> int \<Rightarrow> int \<Rightarrow> nat \<Rightarrow> distances list \<Rightarrow> bool" where
  "query_sound \<tau> fr to n ds \<longleftrightarrow>
     (\<forall>u. in_range n u \<longrightarrow> bnd \<tau> fr u (ds_forward (ds ! nat u)) \<and> bnd \<tau> u to (ds_backward (ds ! nat u)))"

definition query_ok :: "network \<Rightarrow> int \<Rightarrow> int \<Rightarrow> distances list \<Rightarrow> bool" where
  "query_ok s fr to ds \<longleftrightarrow> dist_ok (length (nw_adj s)) ds \<and>
     (\<forall>\<tau>. solution \<tau> s \<longrightarrow> query_sound \<tau> fr to (length (nw_adj s)) ds)"

lemma upper_step_ok:
  assumes ok: "net_ok s" and e: "edge (nw_adj s) v u \<noteq> None" and q: "query_ok s fr to ds"
  shows "\<exists>ds'. upper_step s v u ds = Some ds' \<and> query_ok s fr to ds'"
proof -
  let ?n = "length (nw_adj s)"
  have adj: "graph_ok ?n (nw_adj s)" and rk: "length (nw_rank s) = ?n" using ok by (simp_all add: net_ok_def)
  obtain vu where vu: "edge (nw_adj s) v u = Some vu" using e by blast
  note D = graph_okD [OF adj vu]
  obtain uv where uv: "edge (nw_adj s) u v = Some uv" using D(4) by blast
  note I = D(5) graph_okD(5) [OF adj uv]
  have ds: "dist_ok ?n ds" using q by (simp add: query_ok_def)
  note J = dist_ok_nth(2,3) [OF ds D(1)] dist_ok_nth(2,3) [OF ds D(2)]
  let ?d = "\<lparr>ds_forward = min (ds_forward (ds ! nat u)) (pathSum (ds_forward (ds ! nat v)) vu),
      ds_backward = min (ds_backward (ds ! nat u)) (pathSum (ds_backward (ds ! nat v)) uv)\<rparr>"
  have gets: "adj_get (nw_adj s) v u = Some vu" "adj_get (nw_adj s) u v = Some uv"
    using D(1,2) vu uv by (simp_all add: adj_get_edge)
  have ranks: "go_nth (nw_rank s) x = Some (nw_rank s ! nat x)" if "in_range ?n x" for x
    using that rk by (simp add: go_nth_def in_range_def)
  have upd: "go_upd ds u ?d = Some (ds[nat u := ?d])"
    using ds D(2) by (simp add: go_upd_def dist_ok_def in_range_def)
  have "query_ok s fr to (ds[nat u := ?d])"
    unfolding query_ok_def
  proof (intro conjI allI impI)
    show "dist_ok ?n (ds[nat u := ?d])" using ds J by (intro dist_ok_upd) (simp_all add: min_int64)
    fix \<tau> assume sol: "solution \<tau> s"
    have w: "bnd \<tau> v u vu" "bnd \<tau> u v uv" using sol vu uv unfolding solution_def sat_def by blast+
    have Q: "query_sound \<tau> fr to ?n ds" using q sol by (simp add: query_ok_def)
    then have dv: "bnd \<tau> fr v (ds_forward (ds ! nat v))" "bnd \<tau> v to (ds_backward (ds ! nat v))"
      and du: "bnd \<tau> fr u (ds_forward (ds ! nat u))" "bnd \<tau> u to (ds_backward (ds ! nat u))"
      using D(1,2) by (simp_all add: query_sound_def)
    have "bnd \<tau> u to (pathSum (ds_backward (ds ! nat v)) uv)"
      using bnd_pathSum [OF w(2) dv(2) I(2) J(2)] by (simp add: pathSum_commute [OF J(2) I(2)])
    then have new: "bnd \<tau> fr u (ds_forward ?d)" "bnd \<tau> u to (ds_backward ?d)"
      using bnd_min [OF du(1) bnd_pathSum [OF dv(1) w(1) J(1) I(1)]] bnd_min [OF du(2)] by simp_all
    show "query_sound \<tau> fr to ?n (ds[nat u := ?d])"
      unfolding query_sound_def
    proof (intro allI impI)
      fix x assume x: "in_range ?n x"
      show "bnd \<tau> fr x (ds_forward (ds[nat u := ?d] ! nat x)) \<and> bnd \<tau> x to (ds_backward (ds[nat u := ?d] ! nat x))"
      proof (cases "x = u")
        case True
        then have "ds[nat u := ?d] ! nat x = ?d"
          using ds D(2) by (simp add: nth_upd dist_ok_def in_range_def nat_less_iff)
        then show ?thesis using new True by simp
      next
        case False
        then have "nat u \<noteq> nat x" using x D(2) by (simp add: in_range_def eq_nat_nat_iff)
        then show ?thesis using Q x by (simp add: query_sound_def)
      qed
    qed
  qed
  then show ?thesis
    using gets ranks [OF D(1)] ranks [OF D(2)] upd q dist_ok_nth(1) [OF ds D(1)] dist_ok_nth(1) [OF ds D(2)]
    by (simp add: upper_step_def)
qed

lemma upper_edges_ok:
  assumes "net_ok s" and "\<forall>u \<in> set us. edge (nw_adj s) v u \<noteq> None" and "query_ok s fr to ds"
  shows "\<exists>ds'. upper_edges s v us ds = Some ds' \<and> query_ok s fr to ds'"
  using assms
proof (induction us arbitrary: ds)
  case (Cons u us)
  have "edge (nw_adj s) v u \<noteq> None" using Cons.prems(2) by (auto simp del: not_None_eq)
  then obtain ds1 where "upper_step s v u ds = Some ds1" "query_ok s fr to ds1"
    using upper_step_ok [OF Cons.prems(1) _ Cons.prems(3)] by blast
  then show ?case using Cons by simp
qed simp

lemma upper_loop_ok:
  assumes ok: "net_ok s" and rng: "range_order rng" and "query_ok s fr to ds" and "\<forall>v \<in> set vs. vertex s v"
    and "in_int64 bound" and "\<forall>\<tau>. solution \<tau> s \<longrightarrow> bnd \<tau> fr to bound"
  shows "\<exists>b. upper_loop rng s vs bound ds = Some b \<and> in_int64 b \<and> (\<forall>\<tau>. solution \<tau> s \<longrightarrow> bnd \<tau> fr to b)"
  using assms(3-6)
proof (induction vs arbitrary: bound ds)
  case (Cons v vs)
  let ?n = "length (nw_adj s)"
  have v: "in_range ?n v" using Cons.prems(2) by (simp add: vertex_in_range)
  have ds: "dist_ok ?n ds" using Cons.prems(1) by (simp add: query_ok_def)
  note J = dist_ok_nth [OF ds v]
  let ?b = "min bound (pathSum (ds_forward (ds ! nat v)) (ds_backward (ds ! nat v)))"
  have "bnd \<tau> fr to (pathSum (ds_forward (ds ! nat v)) (ds_backward (ds ! nat v)))" if "solution \<tau> s" for \<tau>
    using Cons.prems(1) v that bnd_pathSum [OF _ _ J(2,3), of \<tau> fr v to] unfolding query_ok_def query_sound_def by blast
  then have b: "in_int64 ?b" "\<forall>\<tau>. solution \<tau> s \<longrightarrow> bnd \<tau> fr to ?b"
    using Cons.prems(3,4) by (simp_all add: min_int64 bnd_min)
  have m: "go_nth (nw_adj s) v = Some (nw_adj s ! nat v)" using v by (simp add: go_nth_def in_range_def)
  obtain ds1 where d1: "upper_edges s v (rng v (nw_adj s ! nat v)) ds = Some ds1" "query_ok s fr to ds1"
    using upper_edges_ok [OF ok _ Cons.prems(1)] range_order_edges(2) [OF rng v] by blast
  show ?case
    using Cons.IH [OF Cons.prems(1) _ b] Cons.IH [OF d1(2) _ b] Cons.prems(2) J(1) m d1(1) by (auto simp: Let_def)
qed simp

lemma stn_upper_sound:
  assumes ok: "net_ok s" and rng: "range_order rng" and "vertex s fr" and "vertex s to" and "fr \<noteq> to"
  shows "\<exists>b. stn_upper rng s fr to = Some b \<and> in_int64 b \<and> (\<forall>\<tau>. solution \<tau> s \<longrightarrow> bnd \<tau> fr to b)"
proof -
  let ?n = "length (nw_adj s)"
  have r: "in_range ?n fr" "in_range ?n to" using assms(3,4) by (simp_all add: vertex_in_range)
  have eq: "stn_upper rng s fr to = upper_loop rng s (nw_order s) Infinity (start_dist ?n fr to)"
    unfolding stn_upper_def Let_def by (rule start_dist_assigned [OF r assms(5)])
  have "query_ok s fr to (start_dist ?n fr to)"
    using start_dist_ok start_dist_nth [OF r assms(5)] by (simp add: query_ok_def query_sound_def bnd_def)
  moreover have "\<forall>v \<in> set (nw_order s). vertex s v" using ok by (simp add: net_ok_def)
  moreover have "\<forall>\<tau>. solution \<tau> s \<longrightarrow> bnd \<tau> fr to Infinity" by (simp add: bnd_def)
  ultimately show ?thesis
    unfolding eq by (intro upper_loop_ok [OF ok rng]) simp_all
qed

lemma bounds_sound:
  assumes ok: "net_ok s" and rng: "range_order rng" and v: "vertex s fr" "vertex s to" and ne: "fr \<noteq> to"
  shows "\<exists>f b. bounds rng s fr to = Some (f, b) \<and> in_int64 f \<and> in_int64 b \<and>
    (\<forall>\<tau>. solution \<tau> s \<longrightarrow> bnd \<tau> fr to f \<and> bnd \<tau> to fr b)"
proof -
  let ?n = "length (nw_adj s)"
  have adj: "graph_ok ?n (nw_adj s)" using ok by (simp add: net_ok_def)
  have r: "in_range ?n fr" "in_range ?n to" using v by (simp_all add: vertex_in_range)
  then have m: "go_nth (nw_adj s) fr = Some (nw_adj s ! nat fr)"
    and e: "edge (nw_adj s) fr to = fmlookup (nw_adj s ! nat fr) to"
    by (simp_all add: go_nth_def in_range_def edge_def)
  show ?thesis
  proof (cases "edge (nw_adj s) fr to")
    case None
    obtain f where f: "stn_upper rng s fr to = Some f" "in_int64 f" "\<forall>\<tau>. solution \<tau> s \<longrightarrow> bnd \<tau> fr to f"
      using stn_upper_sound [OF ok rng v ne] by blast
    obtain b where b: "stn_upper rng s to fr = Some b" "in_int64 b" "\<forall>\<tau>. solution \<tau> s \<longrightarrow> bnd \<tau> to fr b"
      using stn_upper_sound [OF ok rng v(2,1) ne [symmetric]] by blast
    show ?thesis using None m e f b by (simp add: bounds_def)
  next
    case (Some w)
    note D = graph_okD [OF adj Some]
    obtain w' where w': "edge (nw_adj s) to fr = Some w'" using D(4) by blast
    note I = D(5) graph_okD(5) [OF adj w']
    have "adj_get (nw_adj s) to fr = Some w'" using w' r(2) by (simp add: adj_get_edge)
    moreover have "bnd \<tau> fr to w \<and> bnd \<tau> to fr w'" if "solution \<tau> s" for \<tau>
      using that Some w' unfolding solution_def sat_def by blast
    ultimately show ?thesis using Some m e I by (simp add: bounds_def)
  qed
qed

lemma Upper_sound:
  assumes ok: "net_ok s" and rng: "range_order rng" and v: "vertex s fr" "vertex s to"
  shows "\<exists>b. Upper rng s fr to = Some (Inr b) \<and> in_int64 b \<and> (\<forall>\<tau>. solution \<tau> s \<longrightarrow> bnd \<tau> fr to b)"
proof (cases "fr = to")
  case True
  then show ?thesis using v by (simp add: Upper_def bnd_def int64_defs)
next
  case False
  have m: "go_nth (nw_adj s) fr = Some (nw_adj s ! nat fr)" using v by (simp add: vertex_def go_nth_def)
  obtain f b where "bounds rng s fr to = Some (f, b)" "in_int64 f" "\<forall>\<tau>. solution \<tau> s \<longrightarrow> bnd \<tau> fr to f"
    using bounds_sound [OF ok rng v False] by blast
  then show ?thesis
    using False v m by (auto simp: Upper_def bounds_def split: option.splits Option.bind_splits)
qed

end
