(* ===== verification/Stn_Topology.thy ===== *)
theory Stn_Topology
  imports Stn
begin

text \<open>
  The chordal topology of a network (stn/topology.go) and the operations that change it, \<open>New\<close> and
  \<open>Connect\<close>: recognition by maximum cardinality search, fill by minimum-degree elimination with an
  indexed binary heap. The heap functions are those of Go's container/heap on \<open>degreeQueue\<close>.
\<close>

section \<open>Recognition\<close>

fun mcs_tag :: "int list \<Rightarrow> cardinality \<Rightarrow> cardinality option" where
  "mcs_tag [] q = Some q"
| "mcs_tag (u # us) q = do {
     inq \<leftarrow> q_contains q u;
     q' \<leftarrow> (if inq then q_increment q u else Some q);
     mcs_tag us q'
   }"

text \<open>The loop runs down from \<open>i = n - 1\<close>; the first argument is \<open>i + 1\<close>.\<close>

fun mcs_loop ::
  "nat \<Rightarrow> range_fun \<Rightarrow> adjacency \<Rightarrow> int list \<Rightarrow> int list \<Rightarrow> cardinality \<Rightarrow> (int list \<times> int list) option" where
  "mcs_loop 0 rng adj order rank q = Some (order, rank)"
| "mcs_loop (Suc i) rng adj order rank q = do {
     vq \<leftarrow> q_maximum q;
     q1 \<leftarrow> q_remove (snd vq) (fst vq);
     order' \<leftarrow> go_upd order (int i) (fst vq);
     rank' \<leftarrow> go_upd rank (fst vq) (int i);
     m \<leftarrow> go_nth adj (fst vq);
     q2 \<leftarrow> mcs_tag (rng (fst vq) m) q1;
     mcs_loop i rng adj order' rank' q2
   }"

fun find_parent :: "int list \<Rightarrow> int list \<Rightarrow> int \<Rightarrow> int \<Rightarrow> int option" where
  "find_parent rank [] rv parent = Some parent"
| "find_parent rank (u # us) rv parent = do {
     ru \<leftarrow> go_nth rank u;
     better \<leftarrow> (if ru > rv
                then if parent < 0 then Some True else do { rp \<leftarrow> go_nth rank parent; Some (ru < rp) }
                else Some False);
     find_parent rank us rv (if better then u else parent)
   }"

fun check_parent :: "int list \<Rightarrow> adjacency \<Rightarrow> int \<Rightarrow> int \<Rightarrow> int list \<Rightarrow> bool option" where
  "check_parent rank adj parent rv [] = Some True"
| "check_parent rank adj parent rv (u # us) = do {
     ru \<leftarrow> go_nth rank u;
     if u \<noteq> parent \<and> ru > rv
     then do { has \<leftarrow> adj_has adj parent u; if has then check_parent rank adj parent rv us else Some False }
     else check_parent rank adj parent rv us
   }"

fun check_vertices :: "range_fun \<Rightarrow> adjacency \<Rightarrow> int list \<Rightarrow> int list \<Rightarrow> bool option" where
  "check_vertices rng adj rank [] = Some True"
| "check_vertices rng adj rank (v # vs) = do {
     m \<leftarrow> go_nth adj v;
     rv \<leftarrow> go_nth rank v;
     parent \<leftarrow> find_parent rank (rng v m) rv (- 1);
     good \<leftarrow> (if parent < 0 then Some True else check_parent rank adj parent rv (rng v m));
     if good then check_vertices rng adj rank vs else Some False
   }"

text \<open>A nil rank is \<open>None\<close>.\<close>

definition chordalOrder :: "range_fun \<Rightarrow> adjacency \<Rightarrow> (int list \<times> int list option) option" where
  "chordalOrder rng adj = do {
     let n = length adj;
     orank \<leftarrow> mcs_loop n rng adj (replicate n 0) (replicate n 0) (newCardinality n);
     good \<leftarrow> check_vertices rng adj (snd orank) (map int [0..<n]);
     Some (fst orank, if good then Some (snd orank) else None)
   }"

section \<open>The degree queue and container/heap\<close>

record degreeQueue =
  dq_vertices :: "int list"
  dq_position :: "int list"
  dq_degree :: "int list"

definition dq_Len :: "degreeQueue \<Rightarrow> int" where
  "dq_Len q = int (length (dq_vertices q))"

definition dq_Less :: "degreeQueue \<Rightarrow> int \<Rightarrow> int \<Rightarrow> bool option" where
  "dq_Less q i j = do {
     a \<leftarrow> go_nth (dq_vertices q) i;
     b \<leftarrow> go_nth (dq_vertices q) j;
     da \<leftarrow> go_nth (dq_degree q) a;
     db \<leftarrow> go_nth (dq_degree q) b;
     Some (da < db \<or> da = db \<and> a < b)
   }"

definition dq_Swap :: "degreeQueue \<Rightarrow> int \<Rightarrow> int \<Rightarrow> degreeQueue option" where
  "dq_Swap q i j = do {
     a \<leftarrow> go_nth (dq_vertices q) i;
     b \<leftarrow> go_nth (dq_vertices q) j;
     vs1 \<leftarrow> go_upd (dq_vertices q) i b;
     vs2 \<leftarrow> go_upd vs1 j a;
     vi \<leftarrow> go_nth vs2 i;
     vj \<leftarrow> go_nth vs2 j;
     ps1 \<leftarrow> go_upd (dq_position q) vi i;
     ps2 \<leftarrow> go_upd ps1 vj j;
     Some (q\<lparr>dq_vertices := vs2, dq_position := ps2\<rparr>)
   }"

definition dq_Pop :: "degreeQueue \<Rightarrow> (int \<times> degreeQueue) option" where
  "dq_Pop q = do {
     let i = dq_Len q - 1;
     v \<leftarrow> go_nth (dq_vertices q) i;
     ps \<leftarrow> go_upd (dq_position q) v (- 1);
     Some (v, q\<lparr>dq_vertices := take (nat i) (dq_vertices q), dq_position := ps\<rparr>)
   }"

function heap_down_loop :: "degreeQueue \<Rightarrow> int \<Rightarrow> int \<Rightarrow> (int \<times> degreeQueue) option" where
  "heap_down_loop q i n =
     (let j1 = 2 * i + 1 in
      if j1 \<ge> n \<or> j1 < 0 then Some (i, q)
      else do {
        right \<leftarrow> (if j1 + 1 < n then dq_Less q (j1 + 1) j1 else Some False);
        let j = (if right then j1 + 1 else j1);
        less \<leftarrow> dq_Less q j i;
        if \<not> less then Some (i, q)
        else do { q' \<leftarrow> dq_Swap q i j; heap_down_loop q' j n }
      })"
  by pat_completeness auto
termination
  by (relation "measure (\<lambda>(q, i, n). nat (n - i))") (auto split: if_splits)

declare heap_down_loop.simps [simp del]

definition heap_down :: "degreeQueue \<Rightarrow> int \<Rightarrow> int \<Rightarrow> (bool \<times> degreeQueue) option" where
  "heap_down q i0 n = do { iq \<leftarrow> heap_down_loop q i0 n; Some (fst iq > i0, snd iq) }"

text \<open>Go's \<open>/\<close> truncates, so the parent of index 0 is 0.\<close>

function heap_up :: "degreeQueue \<Rightarrow> int \<Rightarrow> degreeQueue option" where
  "heap_up q j =
     (let i = (if j < 1 then 0 else (j - 1) div 2) in
      if i = j then Some q
      else do {
        less \<leftarrow> dq_Less q j i;
        if \<not> less then Some q else do { q' \<leftarrow> dq_Swap q i j; heap_up q' i }
      })"
  by pat_completeness auto
termination
  by (relation "measure (\<lambda>(q, j). nat j)") (auto simp: dq_Less_def go_nth_def split: if_splits Option.bind_splits)

declare heap_up.simps [simp del]

definition heap_Fix :: "degreeQueue \<Rightarrow> int \<Rightarrow> degreeQueue option" where
  "heap_Fix q i = do {
     mq \<leftarrow> heap_down q i (dq_Len q);
     if fst mq then Some (snd mq) else heap_up (snd mq) i
   }"

definition heap_Pop :: "degreeQueue \<Rightarrow> (int \<times> degreeQueue) option" where
  "heap_Pop q = do {
     let n = dq_Len q - 1;
     q1 \<leftarrow> dq_Swap q 0 n;
     mq \<leftarrow> heap_down q1 0 n;
     dq_Pop (snd mq)
   }"

fun heap_Init_loop :: "nat \<Rightarrow> degreeQueue \<Rightarrow> degreeQueue option" where
  "heap_Init_loop 0 q = Some q"
| "heap_Init_loop (Suc i) q = do { mq \<leftarrow> heap_down q (int i) (dq_Len q); heap_Init_loop i (snd mq) }"

definition heap_Init :: "degreeQueue \<Rightarrow> degreeQueue option" where
  "heap_Init q = heap_Init_loop (length (dq_vertices q) div 2) q"

section \<open>Fill\<close>

fun live_neighbors :: "int list \<Rightarrow> degreeQueue \<Rightarrow> int list \<Rightarrow> (int list \<times> degreeQueue) option" where
  "live_neighbors [] q ns = Some (ns, q)"
| "live_neighbors (u # us) q ns = do {
     p \<leftarrow> go_nth (dq_position q) u;
     if p < 0 then live_neighbors us q ns
     else do {
       d \<leftarrow> go_nth (dq_degree q) u;
       ds \<leftarrow> go_upd (dq_degree q) u (d - 1);
       q' \<leftarrow> heap_Fix (q\<lparr>dq_degree := ds\<rparr>) p;
       live_neighbors us q' (ns @ [u])
     }
   }"

definition raise_degree :: "int \<Rightarrow> degreeQueue \<Rightarrow> degreeQueue option" where
  "raise_degree u q = do {
     d \<leftarrow> go_nth (dq_degree q) u;
     ds \<leftarrow> go_upd (dq_degree q) u (d + 1);
     Some (q\<lparr>dq_degree := ds\<rparr>)
   }"

definition fix_at :: "int \<Rightarrow> degreeQueue \<Rightarrow> degreeQueue option" where
  "fix_at u q = do { p \<leftarrow> go_nth (dq_position q) u; heap_Fix q p }"

type_synonym add_fun = "int \<Rightarrow> int \<Rightarrow> network \<Rightarrow> network option"

fun fill_with :: "add_fun \<Rightarrow> int \<Rightarrow> int list \<Rightarrow> network \<times> degreeQueue \<Rightarrow> (network \<times> degreeQueue) option" where
  "fill_with add u [] sq = Some sq"
| "fill_with add u (w # ws) sq = do {
     has \<leftarrow> adj_has (nw_adj (fst sq)) u w;
     if has then fill_with add u ws sq
     else do {
       s' \<leftarrow> add u w (fst sq);
       q1 \<leftarrow> raise_degree u (snd sq);
       q2 \<leftarrow> raise_degree w q1;
       q3 \<leftarrow> fix_at u q2;
       q4 \<leftarrow> fix_at w q3;
       fill_with add u ws (s', q4)
     }
   }"

fun fill_pairs :: "add_fun \<Rightarrow> int list \<Rightarrow> network \<times> degreeQueue \<Rightarrow> (network \<times> degreeQueue) option" where
  "fill_pairs add [] sq = Some sq"
| "fill_pairs add (u # us) sq = do { sq' \<leftarrow> fill_with add u us sq; fill_pairs add us sq' }"

partial_function (option) eliminate ::
  "range_fun \<Rightarrow> add_fun \<Rightarrow> network \<Rightarrow> degreeQueue \<Rightarrow> int list \<Rightarrow> (network \<times> int list) option" where
  "eliminate rng add s q order =
     (if dq_Len q = 0 then Some (s, order)
      else do {
        vq \<leftarrow> heap_Pop q;
        m \<leftarrow> go_nth (nw_adj s) (fst vq);
        nq \<leftarrow> live_neighbors (rng (fst vq) m) (snd vq) [];
        sq \<leftarrow> fill_pairs add (fst nq) (s, snd nq);
        eliminate rng add (fst sq) (snd sq) (order @ [fst vq])
      })"

fun set_ranks :: "nat \<Rightarrow> int list \<Rightarrow> int list \<Rightarrow> int list option" where
  "set_ranks i [] rank = Some rank"
| "set_ranks i (v # vs) rank = do { rank' \<leftarrow> go_upd rank v (int i); set_ranks (Suc i) vs rank' }"

definition triangulate :: "range_fun \<Rightarrow> add_fun \<Rightarrow> network \<Rightarrow> network option" where
  "triangulate rng add s = do {
     co \<leftarrow> chordalOrder rng (nw_adj s);
     case snd co of
       Some rank \<Rightarrow> Some (s\<lparr>nw_order := fst co, nw_rank := rank\<rparr>)
     | None \<Rightarrow> do {
         let n = length (nw_adj s);
         let q = \<lparr>dq_vertices = map int [0..<n], dq_position = map int [0..<n],
                  dq_degree = map (\<lambda>m. int (fcard (fmdom m))) (nw_adj s)\<rparr>;
         q1 \<leftarrow> heap_Init q;
         so \<leftarrow> eliminate rng add s q1 [];
         rank \<leftarrow> set_ranks 0 (snd so) (replicate (length (snd so)) 0);
         Some ((fst so)\<lparr>nw_order := snd so, nw_rank := rank\<rparr>)
       }
   }"

section \<open>New and Connect\<close>

definition link_net :: add_fun where
  "link_net a b s = do { adj \<leftarrow> stn_link a b (nw_adj s); Some (s\<lparr>nw_adj := adj\<rparr>) }"

fun link_pairs :: "(int \<times> int) list \<Rightarrow> network \<Rightarrow> (stn_error + network) option" where
  "link_pairs [] s = Some (Inr s)"
| "link_pairs ((a, b) # ps) s =
     (if \<not> vertex s a \<or> \<not> vertex s b then Some (Inl ErrVertex)
      else if a \<noteq> b then do { s' \<leftarrow> link_net a b s; link_pairs ps s' }
      else link_pairs ps s)"

definition stn_New :: "range_fun \<Rightarrow> int \<Rightarrow> (int \<times> int) list \<Rightarrow> (stn_error + network) option" where
  "stn_New rng n topology =
     (if n < 0 \<or> n > 2 ^ 20 then Some (Inl ErrVertex)
      else do {
        r \<leftarrow> link_pairs topology
          \<lparr>nw_adj = replicate (nat n) fmempty, nw_limit = 2 ^ 60 div (n + 1), nw_maxInput = 0,
           nw_order = [], nw_rank = []\<rparr>;
        case r of
          Inl err \<Rightarrow> Some (Inl err)
        | Inr s \<Rightarrow> do { s' \<leftarrow> triangulate rng link_net s; Some (Inr s') }
      })"

text \<open>\<open>Connect\<close>'s \<open>add\<close>: a new edge starts with the bounds the network already implies.\<close>

definition add_bounds :: "range_fun \<Rightarrow> add_fun" where
  "add_bounds rng u v s = do {
     fb \<leftarrow> bounds rng s u v;
     adj1 \<leftarrow> adj_set (nw_adj s) u v (fst fb);
     adj2 \<leftarrow> adj_set adj1 v u (snd fb);
     Some (s\<lparr>nw_adj := adj2\<rparr>)
   }"

definition Connect :: "range_fun \<Rightarrow> int \<Rightarrow> int \<Rightarrow> network \<Rightarrow> (stn_error + network) option" where
  "Connect rng a b s =
     (if \<not> vertex s a \<or> \<not> vertex s b then Some (Inl ErrVertex)
      else if a = b then Some (Inr s)
      else do {
        has \<leftarrow> adj_has (nw_adj s) a b;
        if has then Some (Inr s)
        else do {
          s1 \<leftarrow> add_bounds rng a b s;
          s2 \<leftarrow> triangulate rng (add_bounds rng) s1;
          Some (Inr s2)
        }
      })"

end
