(* ===== verification/Stn_Order.thy ===== *)
theory Stn_Order
  imports Stn_Query Stn_Topology
begin

text \<open>
  Recognition of chordal graphs: \<open>chordalOrder\<close> always returns an order of the vertices with its
  inverse, and when it accepts, the order is a perfect elimination order.
\<close>

section \<open>Orders\<close>

definition linked :: "adjacency \<Rightarrow> int \<Rightarrow> int \<Rightarrow> bool" where
  "linked adj a b \<longleftrightarrow> edge adj a b \<noteq> None"

lemma linkedD:
  assumes "graph_ok n adj" and "linked adj a b"
  shows "in_range n a" "in_range n b" "a \<noteq> b" "linked adj b a"
proof -
  obtain w where "edge adj a b = Some w" using assms(2) by (auto simp: linked_def)
  from graph_okD(1-4) [OF assms(1) this] show "in_range n a" "in_range n b" "a \<noteq> b" "linked adj b a"
    by (simp_all add: linked_def)
qed

lemma adj_has_linked: "in_range (length adj) a \<Longrightarrow> adj_has adj a b = Some (linked adj a b)"
  by (simp add: adj_has_edge linked_def)

lemma go_nth_range: "in_range (length xs) v \<Longrightarrow> go_nth xs v = Some (xs ! nat v)"
  by (simp add: go_nth_def in_range_def)

lemma go_upd_range: "in_range (length xs) v \<Longrightarrow> go_upd xs v x = Some (xs[nat v := x])"
  by (simp add: go_upd_def in_range_def)

lemma in_range_int [simp]: "in_range n (int v) \<longleftrightarrow> v < n"
  by (simp add: in_range_def)

lemma range_order_linked:
  assumes "range_order rng" and "in_range (length adj) v"
  shows "distinct (rng v (adj ! nat v))" "u \<in> set (rng v (adj ! nat v)) \<longleftrightarrow> linked adj v u"
  using range_order_edges [OF assms] by (simp_all add: linked_def)

text \<open>\<open>rank\<close> is the inverse of \<open>order\<close>, which lists the vertices below \<open>n\<close>.\<close>

definition ranked :: "nat \<Rightarrow> int list \<Rightarrow> int list \<Rightarrow> bool" where
  "ranked n order rank \<longleftrightarrow> length order = n \<and> length rank = n \<and> (\<forall>j<n. in_range n (order ! j)) \<and>
     (\<forall>v. in_range n v \<longrightarrow> in_range n (rank ! nat v) \<and> order ! nat (rank ! nat v) = v)"

lemma rankedD:
  assumes "ranked n order rank"
  shows "length order = n" "length rank = n" "v \<in> set order \<Longrightarrow> in_range n v"
    "in_range n v \<Longrightarrow> in_range n (rank ! nat v)"
  using assms by (auto simp: ranked_def in_set_conv_nth)

lemma ranked_inj:
  assumes "ranked n order rank" and "in_range n u" and "in_range n v" and "rank ! nat u = rank ! nat v"
  shows "u = v"
  using assms unfolding ranked_def by metis

text \<open>In a perfect elimination order the higher neighbours of each vertex are pairwise adjacent.\<close>

definition perfect :: "adjacency \<Rightarrow> int list \<Rightarrow> bool" where
  "perfect adj rank \<longleftrightarrow> (\<forall>v u w. linked adj v u \<longrightarrow> linked adj v w \<longrightarrow> u \<noteq> w \<longrightarrow>
     rank ! nat v < rank ! nat u \<longrightarrow> rank ! nat v < rank ! nat w \<longrightarrow> linked adj u w)"

section \<open>Maximum cardinality search\<close>

lemma mcs_tag_ok:
  assumes "q_rep n q m" and "distinct us" and "\<forall>u \<in> set us. in_range n u" and "budget n 1 m (nat ` set us)"
  shows "\<exists>q' m'. mcs_tag us q = Some q' \<and> q_rep n q' m' \<and> dom m' = dom m \<and> budget n 0 m' {}"
  using assms
proof (induction us arbitrary: q m)
  case Nil
  then show ?case by (auto simp: budget_def)
next
  case (Cons u us)
  have u: "u = int (nat u)" "nat u < n" using Cons.prems(3) by (auto simp: in_range_def)
  have cont: "q_contains q u = Some (m (nat u) \<noteq> None)"
    using mcs.contains_rep [OF Cons.prems(1) u(2)] u(1) by simp
  have nin: "nat u \<notin> nat ` set us"
    using Cons.prems(2,3) by (auto simp: in_range_def eq_nat_nat_iff)
  show ?case
  proof (cases "m (nat u)")
    case None
    have "budget n 1 m (nat ` set us)" using Cons.prems(4) by (auto simp: budget_def split: if_splits)
    then show ?thesis using Cons.IH [OF Cons.prems(1)] Cons.prems(2,3) cont None by auto
  next
    case (Some c)
    have fin: "finite (dom m)"
      using mcs.rep_dom [OF Cons.prems(1)] by (rule finite_subset) simp
    have "0 < card (dom m)" using Some fin by (auto simp: card_gt_0_iff)
    moreover have "c + card (dom m) + 1 \<le> n" using Cons.prems(4) Some by (auto simp: budget_def split: if_splits)
    ultimately obtain q1 where q1: "q_increment q u = Some q1" "q_rep n q1 (m(nat u := Some (c + 1)))"
      using mcs.increment_rep [OF Cons.prems(1) Some] u(1) by auto
    have dom: "dom (m(nat u := Some (c + 1))) = dom m" using Some by auto
    have us: "distinct us" "\<forall>u \<in> set us. in_range n u" using Cons.prems(2,3) by simp_all
    have b: "budget n 1 (m(nat u := Some (c + 1))) (nat ` set us)"
      using Cons.prems(4) Some nin unfolding budget_def dom by (auto split: if_splits)
    obtain q' m' where "mcs_tag us q1 = Some q'" "q_rep n q' m'" "dom m' = dom m" "budget n 0 m' {}"
      using Cons.IH [OF q1(2) us b] unfolding dom by blast
    then show ?thesis using cont Some q1(1) by auto
  qed
qed

text \<open>Positions from \<open>i\<close> on are filled with the vertices that left the queue.\<close>

definition placed :: "nat \<Rightarrow> nat \<Rightarrow> (nat \<rightharpoonup> nat) \<Rightarrow> int list \<Rightarrow> int list \<Rightarrow> bool" where
  "placed n i m order rank \<longleftrightarrow> length order = n \<and> length rank = n \<and>
     (\<forall>j. i \<le> j \<and> j < n \<longrightarrow> in_range n (order ! j)) \<and>
     (\<forall>v<n. v \<notin> dom m \<longrightarrow> (\<exists>j. i \<le> j \<and> j < n \<and> order ! j = int v \<and> rank ! v = int j))"

lemma placed_step:
  assumes "placed n (Suc i) m order rank" and "v < n" and "i < n" and "v \<in> dom m" and "dom m' = dom m - {v}"
  shows "placed n i m' (order[i := int v]) (rank[v := int i])"
proof -
  have P: "length order = n" "length rank = n" "\<And>j. Suc i \<le> j \<Longrightarrow> j < n \<Longrightarrow> in_range n (order ! j)"
    "\<And>x. x < n \<Longrightarrow> x \<notin> dom m \<Longrightarrow> \<exists>j. Suc i \<le> j \<and> j < n \<and> order ! j = int x \<and> rank ! x = int j"
    using assms(1) unfolding placed_def by blast+
  have "in_range n (order[i := int v] ! j)" if "i \<le> j" "j < n" for j
    using P(1,3) that assms(2) by (cases "j = i") simp_all
  moreover have "\<exists>j. i \<le> j \<and> j < n \<and> order[i := int v] ! j = int x \<and> rank[v := int i] ! x = int j"
    if x: "x < n" "x \<notin> dom m'" for x
  proof (cases "x = v")
    case True
    then show ?thesis using P(1,2) assms(2,3) by (intro exI [of _ i]) simp
  next
    case False
    then obtain j where "Suc i \<le> j" "j < n" "order ! j = int x" "rank ! x = int j"
      using P(4) x assms(5) by blast
    then show ?thesis using False by (intro exI [of _ j]) simp
  qed
  ultimately show ?thesis using P(1,2) by (simp add: placed_def)
qed

lemma placed_ranked:
  assumes "placed n 0 m order rank" and "dom m = {}"
  shows "ranked n order rank"
proof -
  have P: "length order = n" "length rank = n" "\<forall>j<n. in_range n (order ! j)"
    "\<And>x. x < n \<Longrightarrow> \<exists>j<n. order ! j = int x \<and> rank ! x = int j"
    using assms unfolding placed_def by auto
  have "in_range n (rank ! nat v) \<and> order ! nat (rank ! nat v) = v" if "in_range n v" for v
  proof -
    have "nat v < n" "v = int (nat v)" using that by (auto simp: in_range_def)
    then obtain j where "j < n" "order ! j = v" "rank ! nat v = int j" using P(4) by metis
    then show ?thesis by simp
  qed
  then show ?thesis using P(1-3) by (simp add: ranked_def)
qed

lemma mcs_loop_ok:
  assumes adj: "graph_ok n adj" and rng: "range_order rng" and "q_rep n q m" and "budget n 0 m {}"
    and "i = card (dom m)" and "placed n i m order rank"
  shows "\<exists>order' rank'. mcs_loop i rng adj order rank q = Some (order', rank') \<and> ranked n order' rank'"
  using assms(3-6)
proof (induction i arbitrary: q m order rank)
  case 0
  have "finite (dom m)" using mcs.rep_dom [OF 0(1)] by (rule finite_subset) simp
  then show ?case using 0 placed_ranked by simp
next
  case (Suc i)
  have dn: "dom m \<subseteq> {..<n}" by (rule mcs.rep_dom [OF Suc.prems(1)])
  have fin: "finite (dom m)" using dn by (rule finite_subset) simp
  have "dom m \<noteq> {}" using Suc.prems(3) by auto
  moreover have "0 < n" using dn calculation by auto
  ultimately obtain v c q1 where v: "q_maximum q = Some (int v, q1)" "q_rep n q1 m" "m v = Some c"
    using mcs.maximum_rep [OF Suc.prems(1)] by force
  have vn: "v < n" using dn v(3) by auto
  have len: "length adj = n" using adj by (simp add: graph_ok_def)
  obtain q2 where q2: "q_remove q1 (int v) = Some q2" "q_rep n q2 (m(v := None))"
    using mcs.remove_rep [OF v(2,3)] by blast
  let ?us = "rng (int v) (adj ! v)" and ?m = "m(v := None)"
  have dom: "dom ?m = dom m - {v}" by auto
  have card: "card (dom m) = card (dom ?m) + 1"
    using v(3) dom fin by (metis Suc_eq_plus1 card_Suc_Diff1 domI)
  have b1: "budget n 1 ?m (nat ` set ?us)"
    unfolding budget_def
  proof (intro allI impI)
    fix x d assume "?m x = Some d"
    then have "m x = Some d" by (simp split: if_splits)
    then have "d + card (dom m) \<le> n" using Suc.prems(2) by (auto simp: budget_def)
    then show "d + card (dom ?m) + (if x \<in> nat ` set ?us then 1 else 0) \<le> n" unfolding card by simp
  qed
  have us: "distinct ?us" "\<forall>u \<in> set ?us. in_range n u"
    using range_order_linked [OF rng, of adj "int v"] linkedD(2) [OF adj] vn len by auto
  obtain q3 m3 where q3: "mcs_tag ?us q2 = Some q3" "q_rep n q3 m3" "dom m3 = dom ?m" "budget n 0 m3 {}"
    using mcs_tag_ok [OF q2(2) us b1] by blast
  have i: "i < n" using card_mono [OF finite_lessThan dn] Suc.prems(3) by simp
  have "placed n i m3 (order[i := int v]) (rank[v := int i])"
    using placed_step [OF Suc.prems(4) vn i, of m3] v(3) q3(3) dom by auto
  moreover have "i = card (dom m3)" using q3(3) card Suc.prems(3) by simp
  ultimately obtain order' rank' where
    "mcs_loop i rng adj (order[i := int v]) (rank[v := int i]) q3 = Some (order', rank')" "ranked n order' rank'"
    using Suc.IH [OF q3(2,4)] by blast
  moreover have "length order = n" "length rank = n" using Suc.prems(4) by (simp_all add: placed_def)
  ultimately show ?case using v(1) q2(1) q3(1) vn i len by simp
qed

section \<open>The check\<close>

text \<open>\<open>parent\<close> is the lowest of the higher neighbours seen so far, or -1.\<close>

definition least_above :: "int list \<Rightarrow> int \<Rightarrow> int set \<Rightarrow> int \<Rightarrow> bool" where
  "least_above rank rv us p \<longleftrightarrow>
     (if p < 0 then \<forall>u \<in> us. rank ! nat u \<le> rv
      else p \<in> us \<and> rv < rank ! nat p \<and> (\<forall>u \<in> us. rv < rank ! nat u \<longrightarrow> rank ! nat p \<le> rank ! nat u))"

lemma find_parent_ok:
  assumes "length rank = n" and "\<forall>u \<in> set us \<union> seen. in_range n u" and "least_above rank rv seen p"
  shows "\<exists>p'. find_parent rank us rv p = Some p' \<and> least_above rank rv (seen \<union> set us) p'"
  using assms(2,3)
proof (induction us arbitrary: p seen)
  case (Cons u us)
  have u: "in_range (length rank) u" "0 \<le> u" using Cons.prems(1) assms(1) by (auto simp: in_range_def)
  have p: "in_range (length rank) p" if "\<not> p < 0"
    using Cons.prems that assms(1) by (auto simp: least_above_def)
  define p1 where "p1 = (if rank ! nat u > rv \<and> (p < 0 \<or> rank ! nat u < rank ! nat p) then u else p)"
  have "least_above rank rv (insert u seen) p1"
    using Cons.prems(2) u(2) unfolding least_above_def p1_def by (auto split: if_splits)
  then obtain p' where "find_parent rank us rv p1 = Some p'" "least_above rank rv (insert u seen \<union> set us) p'"
    using Cons.IH [of "insert u seen" p1] Cons.prems(1) by auto
  moreover have "find_parent rank (u # us) rv p = find_parent rank us rv p1"
    using u(1) p by (auto simp: p1_def go_nth_range)
  ultimately show ?case by simp
qed simp

lemma check_parent_ok:
  assumes "length rank = n" and "\<forall>u \<in> set us. in_range n u" and "in_range (length adj) p"
  shows "check_parent rank adj p rv us =
    Some (\<forall>u \<in> set us. u \<noteq> p \<longrightarrow> rank ! nat u > rv \<longrightarrow> linked adj p u)"
  using assms by (induction us) (auto simp: go_nth_range adj_has_linked)

text \<open>What an accepting check has established of a vertex.\<close>

definition parent_clique :: "adjacency \<Rightarrow> int list \<Rightarrow> int \<Rightarrow> bool" where
  "parent_clique adj rank v \<longleftrightarrow>
     (\<forall>u. linked adj v u \<longrightarrow> rank ! nat u \<le> rank ! nat v) \<or>
     (\<exists>p. linked adj v p \<and> rank ! nat v < rank ! nat p \<and>
        (\<forall>u. linked adj v u \<longrightarrow> rank ! nat v < rank ! nat u \<longrightarrow>
           rank ! nat p \<le> rank ! nat u \<and> (u \<noteq> p \<longrightarrow> linked adj p u)))"

lemma check_vertices_ok:
  assumes adj: "graph_ok n adj" and rng: "range_order rng" and rank: "length rank = n"
    and "\<forall>v \<in> set vs. in_range n v"
  shows "\<exists>b. check_vertices rng adj rank vs = Some b \<and> (b \<longrightarrow> (\<forall>v \<in> set vs. parent_clique adj rank v))"
  using assms(4)
proof (induction vs)
  case (Cons v vs)
  have len: "length adj = n" using adj by (simp add: graph_ok_def)
  have v: "in_range n v" "in_range (length adj) v" using Cons.prems len by simp_all
  let ?us = "rng v (adj ! nat v)"
  have us: "u \<in> set ?us \<longleftrightarrow> linked adj v u" for u using range_order_linked(2) [OF rng v(2)] .
  then have r: "\<forall>u \<in> set ?us. in_range n u" using linkedD(2) [OF adj] by blast
  have "least_above rank (rank ! nat v) {} (- 1)" by (simp add: least_above_def)
  then obtain p where p: "find_parent rank ?us (rank ! nat v) (- 1) = Some p"
    "least_above rank (rank ! nat v) (set ?us) p"
    using find_parent_ok [OF rank, of ?us "{}" "rank ! nat v" "- 1"] r by auto
  have gets: "go_nth adj v = Some (adj ! nat v)" "go_nth rank v = Some (rank ! nat v)"
    using v rank by (simp_all add: go_nth_range)
  obtain b where b: "check_vertices rng adj rank vs = Some b" "b \<longrightarrow> (\<forall>v \<in> set vs. parent_clique adj rank v)"
    using Cons by auto
  show ?case
  proof (cases "p < 0")
    case True
    then have "parent_clique adj rank v" using p(2) us by (simp add: least_above_def parent_clique_def)
    then show ?thesis using True gets p(1) b by simp
  next
    case False
    then have p': "in_range (length adj) p" using p(2) r len by (simp add: least_above_def)
    define good where "good \<longleftrightarrow> (\<forall>u \<in> set ?us. u \<noteq> p \<longrightarrow> rank ! nat u > rank ! nat v \<longrightarrow> linked adj p u)"
    have "parent_clique adj rank v" if good
      using p(2) False that us unfolding least_above_def parent_clique_def good_def by auto
    moreover have "check_parent rank adj p (rank ! nat v) ?us = Some good"
      unfolding good_def by (rule check_parent_ok [OF rank r p'])
    ultimately show ?thesis
      using False gets p(1) b by (cases good) auto
  qed
qed auto

text \<open>Checking one parent per vertex is enough: the clique property follows from the top downwards.\<close>

lemma parent_clique_perfect:
  assumes adj: "graph_ok n adj" and rk: "ranked n order rank"
    and good: "\<And>v. in_range n v \<Longrightarrow> parent_clique adj rank v"
  shows "perfect adj rank"
proof -
  have "linked adj u w"
    if "linked adj v u" "linked adj v w" "u \<noteq> w" "rank ! nat v < rank ! nat u" "rank ! nat v < rank ! nat w" for v u w
    using that
  proof (induction "nat (int n - rank ! nat v)" arbitrary: v u w rule: less_induct)
    case less
    note R = linkedD(1,2) [OF adj less.prems(1)] linkedD(2) [OF adj less.prems(2)]
    obtain p where p: "linked adj v p" "rank ! nat v < rank ! nat p"
      "\<And>u. linked adj v u \<Longrightarrow> rank ! nat v < rank ! nat u \<Longrightarrow> rank ! nat p \<le> rank ! nat u"
      "\<And>u. linked adj v u \<Longrightarrow> rank ! nat v < rank ! nat u \<Longrightarrow> u \<noteq> p \<Longrightarrow> linked adj p u"
      using good [OF R(1)] less.prems(1,4) unfolding parent_clique_def by (metis not_le)
    have pr: "in_range n p" using linkedD(2) [OF adj p(1)] .
    show ?case
    proof (cases "u = p \<or> w = p")
      case True
      then show ?thesis using p(4) less.prems linkedD(4) [OF adj] by blast
    next
      case False
      have "rank ! nat p \<noteq> rank ! nat u" "rank ! nat p \<noteq> rank ! nat w"
        using ranked_inj [OF rk pr] R False by blast+
      then have lt: "rank ! nat p < rank ! nat u" "rank ! nat p < rank ! nat w"
        using p(3) less.prems by (meson le_less)+
      have "rank ! nat p < int n" "rank ! nat v < int n"
        using rankedD(4) [OF rk] pr R(1) by (auto simp: in_range_def)
      then have "nat (int n - rank ! nat p) < nat (int n - rank ! nat v)" using p(2) by simp
      then show ?thesis
        using less.hyps [OF _ _ _ less.prems(3) lt] p(4) less.prems False by blast
    qed
  qed
  then show ?thesis unfolding perfect_def by blast
qed

lemma chordalOrder_ok:
  assumes adj: "graph_ok n adj" and rng: "range_order rng"
  shows "\<exists>order rank. chordalOrder rng adj = Some (order, rank) \<and> length order = n \<and>
    (\<forall>r. rank = Some r \<longrightarrow> ranked n order r \<and> perfect adj r)"
proof -
  have len: "length adj = n" using adj by (simp add: graph_ok_def)
  let ?m = "\<lambda>v. if v < n then Some (0 :: nat) else None"
  have dom: "dom ?m = {..<n}" by (auto split: if_splits)
  have "budget n 0 ?m {}" unfolding budget_def dom by simp
  moreover have "placed n n ?m (replicate n 0) (replicate n 0)" by (auto simp: placed_def dom)
  ultimately obtain order rank where r:
    "mcs_loop n rng adj (replicate n 0) (replicate n 0) (newCardinality n) = Some (order, rank)" "ranked n order rank"
    using mcs_loop_ok [OF adj rng mcs.create_rep] dom by fastforce
  obtain b where b: "check_vertices rng adj rank (map int [0..<n]) = Some b"
    "b \<longrightarrow> (\<forall>v \<in> set (map int [0..<n]). parent_clique adj rank v)"
    using check_vertices_ok [OF adj rng rankedD(2) [OF r(2)], of "map int [0..<n]"] by auto
  have "in_range n v \<Longrightarrow> v \<in> set (map int [0..<n])" for v
    by (auto simp: in_range_def image_iff intro!: bexI [of _ "nat v"])
  then have "perfect adj rank" if b
    using parent_clique_perfect [OF adj r(2)] b(2) that by blast
  then show ?thesis
    using r b(1) rankedD(1) [OF r(2)] by (simp add: chordalOrder_def len)
qed

end
