(* ===== verification/Stn_Fill.thy ===== *)
theory Stn_Fill
  imports Stn_Order
begin

text \<open>
  Chordal completion: the degree queue keeps its index arrays consistent, elimination visits every
  vertex once, the fill makes the elimination order perfect, and neither \<open>New\<close> nor \<open>Connect\<close> changes
  the set of solutions.
\<close>

section \<open>The degree queue\<close>

definition dq_ok :: "nat \<Rightarrow> degreeQueue \<Rightarrow> bool" where
  "dq_ok n q \<longleftrightarrow> length (dq_position q) = n \<and> length (dq_degree q) = n \<and> distinct (dq_vertices q) \<and>
     (\<forall>v \<in> set (dq_vertices q). in_range n v) \<and>
     (\<forall>i < length (dq_vertices q). dq_position q ! nat (dq_vertices q ! i) = int i) \<and>
     (\<forall>v. in_range n v \<longrightarrow> v \<notin> set (dq_vertices q) \<longrightarrow> dq_position q ! nat v = - 1)"

lemma dq_okD:
  assumes "dq_ok n q"
  shows "length (dq_position q) = n" "length (dq_degree q) = n" "distinct (dq_vertices q)"
    "v \<in> set (dq_vertices q) \<Longrightarrow> in_range n v"
    "i < length (dq_vertices q) \<Longrightarrow> in_range n (dq_vertices q ! i)"
    "i < length (dq_vertices q) \<Longrightarrow> dq_position q ! nat (dq_vertices q ! i) = int i"
    "in_range n v \<Longrightarrow> v \<notin> set (dq_vertices q) \<Longrightarrow> dq_position q ! nat v = - 1"
  using assms by (simp_all add: dq_ok_def)

definition dq_same :: "degreeQueue \<Rightarrow> degreeQueue \<Rightarrow> bool" where
  "dq_same q q' \<longleftrightarrow> set (dq_vertices q') = set (dq_vertices q) \<and> length (dq_vertices q') = length (dq_vertices q)"

lemma dq_same_refl [simp]: "dq_same q q"
  by (simp add: dq_same_def)

lemma dq_same_trans: "dq_same a b \<Longrightarrow> dq_same b c \<Longrightarrow> dq_same a c"
  by (simp add: dq_same_def)

text \<open>An operation that returns and keeps the queue's contents.\<close>

definition dq_keeps :: "nat \<Rightarrow> degreeQueue \<Rightarrow> degreeQueue option \<Rightarrow> bool" where
  "dq_keeps n q r \<longleftrightarrow> (\<exists>q'. r = Some q' \<and> dq_ok n q' \<and> dq_same q q')"

lemma dq_keepsI: "dq_ok n q' \<Longrightarrow> dq_same q q' \<Longrightarrow> dq_keeps n q (Some q')"
  by (simp add: dq_keeps_def)

lemma dq_keeps_trans: "dq_same q q1 \<Longrightarrow> dq_keeps n q1 r \<Longrightarrow> dq_keeps n q r"
  unfolding dq_keeps_def using dq_same_trans by blast

lemma dq_keeps_bind:
  assumes "dq_keeps n q r" and "\<And>q'. dq_ok n q' \<Longrightarrow> dq_same q q' \<Longrightarrow> dq_keeps n q' (f q')"
  shows "dq_keeps n q (do { q' \<leftarrow> r; f q' })"
  using assms dq_keeps_trans unfolding dq_keeps_def by fastforce

lemma dq_Less_ok:
  assumes "dq_ok n q" and "in_range (length (dq_vertices q)) i" and "in_range (length (dq_vertices q)) j"
  shows "\<exists>b. dq_Less q i j = Some b"
proof -
  have "nat i < length (dq_vertices q)" "nat j < length (dq_vertices q)"
    using assms(2,3) by (simp_all add: in_range_def nat_less_iff)
  then have "in_range (length (dq_degree q)) (dq_vertices q ! nat i)" "in_range (length (dq_degree q)) (dq_vertices q ! nat j)"
    using dq_okD(2,5) [OF assms(1)] by simp_all
  then show ?thesis using assms by (simp add: dq_Less_def go_nth_range)
qed

lemma dq_Swap_ok:
  assumes ok: "dq_ok n q" and "in_range (length (dq_vertices q)) i" and "in_range (length (dq_vertices q)) j"
  shows "dq_keeps n q (dq_Swap q i j)"
proof -
  let ?vs = "dq_vertices q" and ?ps = "dq_position q"
  define a b where "a = nat i" and "b = nat j"
  have ij: "i = int a" "j = int b" "a < length ?vs" "b < length ?vs"
    using assms(2,3) by (auto simp: in_range_def a_def b_def)
  define vs where "vs = ?vs[a := ?vs ! b, b := ?vs ! a]"
  define ps where "ps = ?ps[nat (vs ! a) := i, nat (vs ! b) := j]"
  have len: "length vs = length ?vs" by (simp add: vs_def)
  have set: "set vs = set ?vs" "distinct vs" using dq_okD(3) [OF ok] ij by (simp_all add: vs_def set_swap distinct_swap)
  have r: "in_range n (vs ! k)" if "k < length vs" for k
    using dq_okD(4) [OF ok] set(1) that by (metis nth_mem)
  have p: "length ?ps = n" using dq_okD(1) [OF ok] .
  have ra: "in_range (length ?ps) (vs ! a)" "in_range (length ?ps) (vs ! b)" using r ij len p by simp_all
  have "dq_Swap q i j = Some (q\<lparr>dq_vertices := vs, dq_position := ps\<rparr>)"
    using ra ij unfolding dq_Swap_def by (simp add: vs_def ps_def go_upd_range)
  moreover have "ps ! nat (vs ! k) = int k" if k: "k < length vs" for k
  proof -
    have eq: "nat (vs ! x) = nat (vs ! k) \<longleftrightarrow> x = k" if "x < length vs" for x
      using r [OF that] r [OF k] nth_eq_iff_index_eq [OF set(2) that k] by (simp add: in_range_def eq_nat_nat_iff)
    have "nat (vs ! k) < n" using r [OF k] by (simp add: in_range_def nat_less_iff)
    moreover have "?ps ! nat (vs ! k) = int k" if "k \<noteq> a" "k \<noteq> b"
      using dq_okD(6) [OF ok] that k len by (simp add: vs_def)
    ultimately show ?thesis using eq ij len p by (auto simp: ps_def nth_upd)
  qed
  moreover have "ps ! nat v = - 1" if v: "in_range n v" "v \<notin> set ?vs" for v
  proof -
    have "vs ! a \<noteq> v" "vs ! b \<noteq> v" using v(2) set(1) ij len by (metis nth_mem)+
    then have "nat (vs ! a) \<noteq> nat v" "nat (vs ! b) \<noteq> nat v"
      using ra p v(1) by (simp_all add: in_range_def eq_nat_nat_iff)
    then show ?thesis using dq_okD(7) [OF ok v] by (simp add: ps_def)
  qed
  moreover have "length ps = n" using p by (simp add: ps_def)
  ultimately show ?thesis
    using set len dq_okD(2,4) [OF ok] by (auto simp: dq_keeps_def dq_ok_def dq_same_def)
qed

lemma heap_down_loop_ok:
  assumes "dq_ok n q" and "0 \<le> i" and "m \<le> int (length (dq_vertices q))"
  shows "\<exists>i' q'. heap_down_loop q i m = Some (i', q') \<and> dq_ok n q' \<and> dq_same q q'"
  using assms
proof (induction "nat (m - i)" arbitrary: q i rule: less_induct)
  case less
  let ?k = "length (dq_vertices q)"
  show ?case
  proof (cases "2 * i + 1 \<ge> m \<or> 2 * i + 1 < 0")
    case True
    then show ?thesis using less.prems by (subst heap_down_loop.simps) (simp add: Let_def)
  next
    case False
    define j1 where "j1 = 2 * i + 1"
    have j1: "i < j1" "j1 < m" using False less.prems(2) by (simp_all add: j1_def)
    then have "\<exists>b. dq_Less q (j1 + 1) j1 = Some b" if "j1 + 1 < m"
      using dq_Less_ok [OF less.prems(1), of "j1 + 1" j1] less.prems(2,3) that by (simp add: in_range_def)
    then obtain right where rt: "(if j1 + 1 < m then dq_Less q (j1 + 1) j1 else Some False) = Some right"
      "right \<Longrightarrow> j1 + 1 < m"
      by (cases "j1 + 1 < m") auto
    define j where "j = (if right then j1 + 1 else j1)"
    have j: "i < j" "j < m" using rt(2) j1 by (simp_all add: j_def)
    then have r: "in_range ?k i" "in_range ?k j" using less.prems(2,3) by (simp_all add: in_range_def)
    obtain ls where ls: "dq_Less q j i = Some ls" using dq_Less_ok [OF less.prems(1) r(2,1)] by blast
    obtain q1 where q1: "dq_Swap q i j = Some q1" "dq_ok n q1" "dq_same q q1"
      using dq_Swap_ok [OF less.prems(1) r] by (auto simp: dq_keeps_def)
    have "heap_down_loop q i m = (if ls then heap_down_loop q1 j m else Some (i, q))"
      using False rt(1) ls q1(1) unfolding j_def j1_def by (subst heap_down_loop.simps) (simp add: Let_def)
    moreover obtain i' q' where "heap_down_loop q1 j m = Some (i', q')" "dq_ok n q'" "dq_same q1 q'"
      using less.hyps [of j q1] less.prems(2,3) j q1(2,3) unfolding dq_same_def by auto
    ultimately show ?thesis using less.prems(1) dq_same_trans [OF q1(3)] by auto
  qed
qed

lemma heap_down_ok:
  assumes "dq_ok n q" and "0 \<le> i" and "m \<le> int (length (dq_vertices q))"
  shows "\<exists>moved q'. heap_down q i m = Some (moved, q') \<and> dq_ok n q' \<and> dq_same q q'"
  using heap_down_loop_ok [OF assms] by (auto simp: heap_down_def)

lemma heap_up_ok:
  assumes "dq_ok n q" and "in_range (length (dq_vertices q)) j"
  shows "dq_keeps n q (heap_up q j)"
  using assms
proof (induction "nat j" arbitrary: q j rule: less_induct)
  case less
  let ?i = "if j < 1 then 0 else (j - 1) div 2"
  show ?case
  proof (cases "?i = j")
    case True
    then show ?thesis using less.prems(1) by (subst heap_up.simps) (simp add: Let_def dq_keepsI)
  next
    case False
    then have i: "0 \<le> ?i" "?i < j" using less.prems(2) by (auto simp: in_range_def)
    then have r: "in_range (length (dq_vertices q)) ?i" using less.prems(2) by (simp add: in_range_def)
    obtain ls where ls: "dq_Less q j ?i = Some ls" using dq_Less_ok [OF less.prems(1,2) r] by blast
    obtain q1 where q1: "dq_Swap q ?i j = Some q1" "dq_ok n q1" "dq_same q q1"
      using dq_Swap_ok [OF less.prems(1) r less.prems(2)] by (auto simp: dq_keeps_def)
    have "heap_up q j = (if ls then heap_up q1 ?i else Some q)"
      using False ls q1(1) by (subst heap_up.simps) (simp add: Let_def)
    moreover have "dq_keeps n q1 (heap_up q1 ?i)"
      using less.hyps [of ?i q1] i r q1(2,3) unfolding dq_same_def by simp
    ultimately show ?thesis using less.prems(1) dq_keeps_trans [OF q1(3)] by (simp add: dq_keepsI)
  qed
qed

lemma heap_Fix_ok:
  assumes "dq_ok n q" and "in_range (length (dq_vertices q)) i"
  shows "dq_keeps n q (heap_Fix q i)"
proof -
  have "0 \<le> i" using assms(2) by (simp add: in_range_def)
  then obtain moved q1 where q1: "heap_down q i (dq_Len q) = Some (moved, q1)" "dq_ok n q1" "dq_same q q1"
    using heap_down_ok [OF assms(1), of i "dq_Len q"] by (auto simp: dq_Len_def)
  have "dq_keeps n q1 (heap_up q1 i)" using heap_up_ok [OF q1(2)] assms(2) q1(3) by (simp add: dq_same_def)
  then show ?thesis
    using q1 dq_keeps_trans [OF q1(3)] by (simp add: heap_Fix_def dq_keepsI)
qed

lemma dq_position_ok:
  assumes "dq_ok n q" and "v \<in> set (dq_vertices q)"
  shows "in_range (length (dq_vertices q)) (dq_position q ! nat v)"
  using assms dq_okD(6) [OF assms(1)] by (auto simp: in_set_conv_nth)

lemma dq_Pop_ok:
  assumes ok: "dq_ok n q" and ne: "dq_vertices q \<noteq> []"
  shows "\<exists>v q'. dq_Pop q = Some (v, q') \<and> dq_ok n q' \<and> v \<notin> set (dq_vertices q') \<and>
    set (dq_vertices q) = insert v (set (dq_vertices q')) \<and> length (dq_vertices q) = Suc (length (dq_vertices q'))"
proof -
  obtain vs v where q: "dq_vertices q = vs @ [v]" using ne by (metis append_butlast_last_id)
  have v: "in_range n v" using dq_okD(4) [OF ok] q by simp
  let ?ps = "(dq_position q)[nat v := - 1]"
  have eval: "dq_Pop q = Some (v, q\<lparr>dq_vertices := vs, dq_position := ?ps\<rparr>)"
    using dq_okD(1) [OF ok] v q by (simp add: dq_Pop_def dq_Len_def go_nth_def go_upd_range)
  have "?ps ! nat (vs ! i) = int i" if "i < length vs" for i
  proof -
    have "vs ! i \<noteq> v" using dq_okD(3) [OF ok] q that by (auto simp: in_set_conv_nth)
    moreover have "in_range n (vs ! i)" using dq_okD(4) [OF ok] q that by simp
    ultimately have "nat v \<noteq> nat (vs ! i)" using v by (simp add: in_range_def eq_nat_nat_iff)
    then show ?thesis using dq_okD(6) [OF ok, of i] q that by (simp add: nth_append)
  qed
  moreover have "?ps ! nat x = - 1" if "in_range n x" "x \<notin> set vs" for x
    using dq_okD(1,7) [OF ok] q that v by (cases "x = v") (auto simp: nth_upd in_range_def nat_less_iff)
  ultimately have "dq_ok n (q\<lparr>dq_vertices := vs, dq_position := ?ps\<rparr>)"
    using dq_okD(1-4) [OF ok] q by (simp add: dq_ok_def)
  then show ?thesis using eval dq_okD(3) [OF ok] q by simp
qed

lemma heap_Pop_ok:
  assumes ok: "dq_ok n q" and ne: "dq_vertices q \<noteq> []"
  shows "\<exists>v q'. heap_Pop q = Some (v, q') \<and> dq_ok n q' \<and> v \<notin> set (dq_vertices q') \<and>
    set (dq_vertices q) = insert v (set (dq_vertices q')) \<and> length (dq_vertices q) = Suc (length (dq_vertices q'))"
proof -
  let ?m = "dq_Len q - 1"
  have r: "in_range (length (dq_vertices q)) 0" "in_range (length (dq_vertices q)) ?m"
    using ne by (simp_all add: in_range_def dq_Len_def Suc_leI)
  obtain q1 where q1: "dq_Swap q 0 ?m = Some q1" "dq_ok n q1" "dq_same q q1"
    using dq_Swap_ok [OF ok r] by (auto simp: dq_keeps_def)
  have "?m \<le> int (length (dq_vertices q1))" using q1(3) by (simp add: dq_same_def dq_Len_def)
  then obtain moved q2 where q2: "heap_down q1 0 ?m = Some (moved, q2)" "dq_ok n q2" "dq_same q1 q2"
    using heap_down_ok [OF q1(2), of 0 ?m] by auto
  have s: "dq_same q q2" by (rule dq_same_trans [OF q1(3) q2(3)])
  then have "dq_vertices q2 \<noteq> []" using ne by (auto simp: dq_same_def)
  then show ?thesis
    using dq_Pop_ok [OF q2(2)] q1(1) q2(1) s by (simp add: heap_Pop_def Let_def dq_same_def)
qed

lemma heap_Init_ok:
  assumes "dq_ok n q"
  shows "dq_keeps n q (heap_Init q)"
proof -
  have "dq_keeps n q (heap_Init_loop k q)" for k
    using assms
  proof (induction k arbitrary: q)
    case (Suc k)
    obtain moved q1 where q1: "heap_down q (int k) (dq_Len q) = Some (moved, q1)" "dq_ok n q1" "dq_same q q1"
      using heap_down_ok [OF Suc.prems, of "int k" "dq_Len q"] by (auto simp: dq_Len_def)
    then show ?case using Suc.IH [OF q1(2)] dq_keeps_trans by simp
  qed (simp add: dq_keepsI)
  then show ?thesis by (simp add: heap_Init_def)
qed

lemma dq_degree_ok: "dq_ok n q \<Longrightarrow> dq_ok n (q\<lparr>dq_degree := (dq_degree q)[i := d]\<rparr>)"
  by (simp add: dq_ok_def)

lemma live_neighbors_ok:
  assumes "dq_ok n q" and "\<forall>u \<in> set us. in_range n u"
  shows "\<exists>q'. live_neighbors us q ns = Some (ns @ filter (\<lambda>u. u \<in> set (dq_vertices q)) us, q') \<and>
    dq_ok n q' \<and> dq_same q q'"
  using assms
proof (induction us arbitrary: q ns)
  case (Cons u us)
  have u: "in_range n u" using Cons.prems(2) by simp
  have p: "go_nth (dq_position q) u = Some (dq_position q ! nat u)"
    using dq_okD(1) [OF Cons.prems(1)] u by (simp add: go_nth_range)
  show ?case
  proof (cases "u \<in> set (dq_vertices q)")
    case False
    then show ?thesis using Cons p dq_okD(7) [OF Cons.prems(1) u] by simp
  next
    case True
    let ?q = "q\<lparr>dq_degree := (dq_degree q)[nat u := dq_degree q ! nat u - 1]\<rparr>"
    have pr: "in_range (length (dq_vertices ?q)) (dq_position q ! nat u)"
      using dq_position_ok [OF Cons.prems(1) True] by simp
    obtain q1 where q1: "heap_Fix ?q (dq_position q ! nat u) = Some q1" "dq_ok n q1" "dq_same ?q q1"
      using heap_Fix_ok [OF dq_degree_ok [OF Cons.prems(1)] pr] by (auto simp: dq_keeps_def)
    then have s: "dq_same q q1" by (simp add: dq_same_def)
    obtain q' where "live_neighbors us q1 (ns @ [u]) =
        Some ((ns @ [u]) @ filter (\<lambda>u. u \<in> set (dq_vertices q1)) us, q')" "dq_ok n q'" "dq_same q1 q'"
      using Cons.IH [OF q1(2)] Cons.prems(2) by fastforce
    then show ?thesis
      using True p pr q1(1) s dq_okD(2) [OF Cons.prems(1)] u dq_same_trans [OF s]
      by (auto simp: go_nth_range go_upd_range in_range_def dq_same_def)
  qed
qed simp

lemma raise_degree_ok:
  assumes "dq_ok n q" and "in_range n u"
  shows "dq_keeps n q (raise_degree u q)"
  using assms dq_okD(2) [OF assms(1)] dq_degree_ok [OF assms(1)]
  by (auto simp: raise_degree_def go_nth_range go_upd_range dq_keeps_def dq_same_def)

lemma fix_at_ok:
  assumes "dq_ok n q" and "u \<in> set (dq_vertices q)"
  shows "dq_keeps n q (fix_at u q)"
  using heap_Fix_ok [OF assms(1) dq_position_ok [OF assms]] dq_okD(1,4) [OF assms(1)] assms(2)
  by (simp add: fix_at_def go_nth_range)

lemma refile_ok:
  assumes "dq_ok n q" and "u \<in> set (dq_vertices q)" and "w \<in> set (dq_vertices q)"
  shows "dq_keeps n q (do { q1 \<leftarrow> raise_degree u q; q2 \<leftarrow> raise_degree w q1; q3 \<leftarrow> fix_at u q2; fix_at w q3 })"
  using assms dq_okD(4)
  by (intro dq_keeps_bind raise_degree_ok fix_at_ok) (auto simp: dq_same_def)

end
