(* ===== verification/Stn_Connect.thy ===== *)
theory Stn_Connect
  imports Stn_Fill
begin

text \<open>
  Filling, \<open>New\<close> and \<open>Connect\<close>. The two ways of adding an edge, unconstrained (\<open>New\<close>) and with the
  bounds already implied (\<open>Connect\<close>), meet one contract, under which chordal completion keeps the
  solutions and ends in a perfect elimination order.
\<close>

section \<open>The contract of an edge-adding function\<close>

text \<open>\<open>s'\<close> is \<open>s\<close> with the edges \<open>E\<close> added and the same solutions.\<close>

definition extends :: "network \<Rightarrow> (int \<times> int) set \<Rightarrow> network \<Rightarrow> bool" where
  "extends s E s' \<longleftrightarrow> (\<exists>adj. s' = s\<lparr>nw_adj := adj\<rparr> \<and> length adj = length (nw_adj s) \<and>
     (\<forall>a b. linked adj a b \<longleftrightarrow> linked (nw_adj s) a b \<or> (a, b) \<in> E) \<and>
     (\<forall>\<tau>. sat \<tau> adj \<longleftrightarrow> sat \<tau> (nw_adj s)))"

lemma extendsD:
  assumes "extends s E s'"
  shows "length (nw_adj s') = length (nw_adj s)" "vertex s' v \<longleftrightarrow> vertex s v"
    "linked (nw_adj s') a b \<longleftrightarrow> linked (nw_adj s) a b \<or> (a, b) \<in> E" "solution \<tau> s' \<longleftrightarrow> solution \<tau> s"
    "nw_limit s' = nw_limit s" "nw_maxInput s' = nw_maxInput s"
  using assms by (auto simp: extends_def vertex_def solution_def)

lemma extends_refl: "(\<And>a b. (a, b) \<in> E \<Longrightarrow> linked (nw_adj s) a b) \<Longrightarrow> extends s E s"
  unfolding extends_def by (intro exI [of _ "nw_adj s"]) auto

lemma extends_trans: "extends s E s1 \<Longrightarrow> extends s1 F s2 \<Longrightarrow> extends s (E \<union> F) s2"
  unfolding extends_def by force

lemma extends_cong: "extends s E s' \<Longrightarrow> E = F \<Longrightarrow> extends s F s'"
  by simp

locale net_fill =
  fixes add :: add_fun and inv :: "network \<Rightarrow> bool"
  assumes inv_graph: "inv s \<Longrightarrow> graph_ok (length (nw_adj s)) (nw_adj s)"
    and add_edge: "inv s \<Longrightarrow> vertex s u \<Longrightarrow> vertex s w \<Longrightarrow> u \<noteq> w \<Longrightarrow> \<not> linked (nw_adj s) u w \<Longrightarrow>
      \<exists>s'. add u w s = Some s' \<and> inv s' \<and> extends s {(u, w), (w, u)} s'"
begin

lemma fill_with_ok:
  assumes "inv s" and "dq_ok n q" and "n = length (nw_adj s)" and "distinct (u # ws)"
    and "set (u # ws) \<subseteq> set (dq_vertices q)"
  shows "\<exists>s' q'. fill_with add u ws (s, q) = Some (s', q') \<and> inv s' \<and> dq_ok n q' \<and> dq_same q q' \<and>
    extends s ({u} \<times> set ws \<union> set ws \<times> {u}) s'"
  using assms
proof (induction ws arbitrary: s q)
  case (Cons w ws)
  have rw: "in_range n u" "in_range n w" using dq_okD(4) [OF Cons.prems(2)] Cons.prems(5) by auto
  have has: "adj_has (nw_adj s) u w = Some (linked (nw_adj s) u w)"
    using rw(1) Cons.prems(3) by (simp add: adj_has_linked)
  let ?E = "\<lambda>ws. {u} \<times> set ws \<union> set ws \<times> {u}"
  show ?case
  proof (cases "linked (nw_adj s) u w")
    case True
    obtain s' q' where r: "fill_with add u ws (s, q) = Some (s', q')" "inv s'" "dq_ok n q'" "dq_same q q'"
      "extends s (?E ws) s'"
      using Cons.IH [OF Cons.prems(1-3)] Cons.prems(4,5) by auto
    have "linked (nw_adj s) w u" using linkedD(4) [OF inv_graph [OF Cons.prems(1)] True] .
    then have "extends s {(u, w), (w, u)} s" using True by (intro extends_refl) auto
    from extends_trans [OF this r(5)] have "extends s (?E (w # ws)) s'" by (rule extends_cong) auto
    then show ?thesis using r True has by auto
  next
    case False
    have "vertex s u" "vertex s w" using rw Cons.prems(3) by (simp_all add: vertex_in_range)
    then obtain s1 where s1: "add u w s = Some s1" "inv s1" "extends s {(u, w), (w, u)} s1"
      using add_edge [OF Cons.prems(1) _ _ _ False] Cons.prems(4) by auto
    obtain q1 where q1: "do { q1 \<leftarrow> raise_degree u q; q2 \<leftarrow> raise_degree w q1; q3 \<leftarrow> fix_at u q2; fix_at w q3 } = Some q1"
      "dq_ok n q1" "dq_same q q1"
      using refile_ok [OF Cons.prems(2), of u w] Cons.prems(5) unfolding dq_keeps_def by auto
    obtain s' q' where r: "fill_with add u ws (s1, q1) = Some (s', q')" "inv s'" "dq_ok n q'" "dq_same q1 q'"
      "extends s1 (?E ws) s'"
      using Cons.IH [OF s1(2) q1(2)] Cons.prems(3-5) extendsD(1) [OF s1(3)] q1(3) by (auto simp: dq_same_def)
    have "fill_with add u (w # ws) (s, q) = fill_with add u ws (s1, q1)"
      using False has s1(1) q1(1) by (auto split: Option.bind_splits)
    moreover have "extends s (?E (w # ws)) s'"
      using extends_trans [OF s1(3) r(5)] by (rule extends_cong) auto
    ultimately show ?thesis using r dq_same_trans [OF q1(3)] by auto
  qed
qed (auto intro!: extends_refl)

lemma fill_pairs_ok:
  assumes "inv s" and "dq_ok n q" and "n = length (nw_adj s)" and "distinct us" and "set us \<subseteq> set (dq_vertices q)"
  shows "\<exists>s' q'. fill_pairs add us (s, q) = Some (s', q') \<and> inv s' \<and> dq_ok n q' \<and> dq_same q q' \<and>
    extends s {(a, b). a \<in> set us \<and> b \<in> set us \<and> a \<noteq> b} s'"
  using assms
proof (induction us arbitrary: s q)
  case (Cons u us)
  obtain s1 q1 where r1: "fill_with add u us (s, q) = Some (s1, q1)" "inv s1" "dq_ok n q1" "dq_same q q1"
    "extends s ({u} \<times> set us \<union> set us \<times> {u}) s1"
    using fill_with_ok [OF Cons.prems] by blast
  obtain s' q' where r2: "fill_pairs add us (s1, q1) = Some (s', q')" "inv s'" "dq_ok n q'" "dq_same q1 q'"
    "extends s1 {(a, b). a \<in> set us \<and> b \<in> set us \<and> a \<noteq> b} s'"
    using Cons.IH [OF r1(2,3)] Cons.prems(3-5) extendsD(1) [OF r1(5)] r1(4) by (auto simp: dq_same_def)
  have "{u} \<times> set us \<union> set us \<times> {u} \<union> {(a, b). a \<in> set us \<and> b \<in> set us \<and> a \<noteq> b} =
      {(a, b). a \<in> set (u # us) \<and> b \<in> set (u # us) \<and> a \<noteq> b}"
    using Cons.prems(4) by auto
  from extends_cong [OF extends_trans [OF r1(5) r2(5)] this]
  have "extends s {(a, b). a \<in> set (u # us) \<and> b \<in> set (u # us) \<and> a \<noteq> b} s'" .
  then show ?case using r1(1) r2 dq_same_trans [OF r1(4)] by auto
qed (auto intro!: extends_refl)

end

section \<open>Elimination\<close>

text \<open>The vertices in \<open>order\<close> are eliminated, those in \<open>live\<close> are not: the neighbours an eliminated
  vertex had when it was eliminated are pairwise adjacent.\<close>

definition eliminated :: "adjacency \<Rightarrow> int list \<Rightarrow> int set \<Rightarrow> bool" where
  "eliminated adj order live \<longleftrightarrow> (\<forall>xs v ys u w. order = xs @ v # ys \<longrightarrow> u \<in> set ys \<union> live \<longrightarrow> w \<in> set ys \<union> live \<longrightarrow>
     linked adj v u \<longrightarrow> linked adj v w \<longrightarrow> u \<noteq> w \<longrightarrow> linked adj u w)"

lemma eliminated_step:
  assumes e: "eliminated (nw_adj s) order (insert v live)" and out: "v \<notin> live" "set order \<inter> live = {}"
    and ns: "\<And>u. u \<in> ns \<longleftrightarrow> linked (nw_adj s) v u \<and> u \<in> live"
    and ext: "extends s {(a, b). a \<in> ns \<and> b \<in> ns \<and> a \<noteq> b} s'"
  shows "eliminated (nw_adj s') (order @ [v]) live"
  unfolding eliminated_def
proof (intro allI impI)
  fix xs x ys u w
  assume a: "order @ [v] = xs @ x # ys" "u \<in> set ys \<union> live" "w \<in> set ys \<union> live"
    "linked (nw_adj s') x u" "linked (nw_adj s') x w" "u \<noteq> w"
  note L = extendsD(3) [OF ext]
  have nsl: "ns \<subseteq> live" using ns by blast
  show "linked (nw_adj s') u w"
  proof (cases ys rule: rev_cases)
    case Nil
    then have x: "x = v" "u \<in> live" "w \<in> live" using a by simp_all
    then have "linked (nw_adj s) v u" "linked (nw_adj s) v w" using a(4,5) L out(1) nsl by auto
    then show ?thesis using L ns x a(6) by auto
  next
    case (snoc zs z)
    then have o: "order = xs @ x # zs" "z = v" using a(1) by simp_all
    have "x \<notin> ns" using o(1) out(2) nsl by auto
    then have "linked (nw_adj s) x u" "linked (nw_adj s) x w" using a(4,5) L by auto
    moreover have "u \<in> set zs \<union> insert v live" "w \<in> set zs \<union> insert v live" using a(2,3) snoc o(2) by auto
    ultimately have "linked (nw_adj s) u w" using e o(1) a(6) unfolding eliminated_def by blast
    then show ?thesis using L by blast
  qed
qed

context net_fill
begin

lemma eliminate_ok:
  assumes rng: "range_order rng" and "inv s" and "dq_ok n q" and "n = length (nw_adj s)"
    and "eliminated (nw_adj s) order (set (dq_vertices q))" and "distinct order"
    and "set order \<inter> set (dq_vertices q) = {}"
  shows "\<exists>s' order' E. eliminate rng add s q order = Some (s', order') \<and> inv s' \<and> extends s E s' \<and>
    distinct order' \<and> set order' = set order \<union> set (dq_vertices q) \<and> eliminated (nw_adj s') order' {}"
  using assms(2-7)
proof (induction "length (dq_vertices q)" arbitrary: s q order)
  case 0
  then have "eliminate rng add s q order = Some (s, order)"
    by (subst eliminate.simps) (simp add: dq_Len_def)
  moreover have "extends s {} s" by (rule extends_refl) simp
  ultimately show ?case using 0 by auto
next
  case (Suc k)
  have ne: "dq_vertices q \<noteq> []" using Suc.hyps(2) by (metis length_greater_0_conv zero_less_Suc)
  obtain v q1 where q1: "heap_Pop q = Some (v, q1)" "dq_ok n q1" "v \<notin> set (dq_vertices q1)"
    "set (dq_vertices q) = insert v (set (dq_vertices q1))" "length (dq_vertices q) = Suc (length (dq_vertices q1))"
    using heap_Pop_ok [OF Suc.prems(2) ne] by blast
  have v: "in_range n v" using dq_okD(4) [OF Suc.prems(2)] q1(4) by simp
  let ?us = "rng v (nw_adj s ! nat v)" and ?live = "set (dq_vertices q1)"
  have us: "distinct ?us" "\<And>u. u \<in> set ?us \<longleftrightarrow> linked (nw_adj s) v u"
    using range_order_linked [OF rng] v Suc.prems(3) by auto
  have "\<forall>u \<in> set ?us. in_range n u" using us(2) linkedD(2) [OF inv_graph [OF Suc.prems(1)]] Suc.prems(3) by blast
  then obtain q2 where q2: "live_neighbors ?us q1 [] = Some (filter (\<lambda>u. u \<in> ?live) ?us, q2)" "dq_ok n q2" "dq_same q1 q2"
    using live_neighbors_ok [OF q1(2), of ?us "[]"] by auto
  define ns where "ns = filter (\<lambda>u. u \<in> ?live) ?us"
  have ns: "distinct ns" "set ns \<subseteq> set (dq_vertices q2)" "\<And>u. u \<in> set ns \<longleftrightarrow> linked (nw_adj s) v u \<and> u \<in> ?live"
    using us q2(3) by (auto simp: ns_def dq_same_def)
  obtain s3 q3 where r3: "fill_pairs add ns (s, q2) = Some (s3, q3)" "inv s3" "dq_ok n q3" "dq_same q2 q3"
    "extends s {(a, b). a \<in> set ns \<and> b \<in> set ns \<and> a \<noteq> b} s3"
    using fill_pairs_ok [OF Suc.prems(1) q2(2) Suc.prems(3) ns(1,2)] by blast
  have live: "set (dq_vertices q3) = ?live" "length (dq_vertices q3) = length (dq_vertices q1)"
    using q2(3) r3(4) by (simp_all add: dq_same_def)
  have "eliminated (nw_adj s3) (order @ [v]) (set (dq_vertices q3))"
    unfolding live using eliminated_step [OF _ q1(3) _ ns(3) r3(5)] Suc.prems(4,6) q1(4) by auto
  moreover have "n = length (nw_adj s3)" using extendsD(1) [OF r3(5)] Suc.prems(3) by simp
  moreover have "distinct (order @ [v])" "set (order @ [v]) \<inter> set (dq_vertices q3) = {}"
    unfolding live using Suc.prems(5,6) q1(3,4) by auto
  moreover have "k = length (dq_vertices q3)" using Suc.hyps(2) q1(5) live(2) by simp
  ultimately obtain s' order' E where r: "eliminate rng add s3 q3 (order @ [v]) = Some (s', order')" "inv s'"
    "extends s3 E s'" "distinct order'" "set order' = set (order @ [v]) \<union> set (dq_vertices q3)"
    "eliminated (nw_adj s') order' {}"
    using Suc.hyps(1) [OF _ r3(2,3)] by blast
  have "go_nth (nw_adj s) v = Some (nw_adj s ! nat v)" using v Suc.prems(3) by (simp add: go_nth_range)
  moreover have "dq_Len q \<noteq> 0" using ne by (simp add: dq_Len_def)
  ultimately have "eliminate rng add s q order = Some (s', order')"
    using q1(1) q2(1) r3(1) r(1) by (subst eliminate.simps) (simp add: ns_def)
  moreover have "set order' = set order \<union> set (dq_vertices q)" using r(5) live(1) q1(4) by auto
  ultimately show ?case using r(2,4,6) extends_trans [OF r3(5) r(3)] by blast
qed

end

lemma set_ranks_ok:
  assumes "distinct vs" and "\<forall>v \<in> set vs. in_range n v" and "length rank = n"
  shows "\<exists>rank'. set_ranks i vs rank = Some rank' \<and> length rank' = n \<and>
    (\<forall>k < length vs. rank' ! nat (vs ! k) = int (i + k)) \<and>
    (\<forall>v. in_range n v \<longrightarrow> v \<notin> set vs \<longrightarrow> rank' ! nat v = rank ! nat v)"
  using assms
proof (induction vs arbitrary: i rank)
  case (Cons v vs)
  have v: "in_range n v" "v \<notin> set vs" using Cons.prems by simp_all
  obtain r where r: "set_ranks (Suc i) vs (rank[nat v := int i]) = Some r" "length r = n"
    "\<And>k. k < length vs \<Longrightarrow> r ! nat (vs ! k) = int (Suc i + k)"
    "\<And>x. in_range n x \<Longrightarrow> x \<notin> set vs \<Longrightarrow> r ! nat x = rank[nat v := int i] ! nat x"
    using Cons.IH [of "rank[nat v := int i]" "Suc i"] Cons.prems by auto
  have "r ! nat ((v # vs) ! k) = int (i + k)" if "k < length (v # vs)" for k
    using that r(3,4) v Cons.prems(3) by (cases k) (simp_all add: in_range_def nat_less_iff)
  moreover have "r ! nat x = rank ! nat x" if "in_range n x" "x \<notin> set (v # vs)" for x
  proof -
    have "nat v \<noteq> nat x" using that v(1) by (auto simp: in_range_def eq_nat_nat_iff)
    then show ?thesis using r(4) that by simp
  qed
  ultimately show ?case using r(1,2) v(1) Cons.prems(3) by (simp add: go_upd_range)
qed simp

lemma set_ranks_perfect:
  assumes e: "eliminated adj order {}" and d: "distinct order" and s: "set order = {v. in_range n v}"
    and adj: "graph_ok n adj"
  shows "\<exists>rank. set_ranks 0 order (replicate (length order) 0) = Some rank \<and> ranked n order rank \<and> perfect adj rank"
proof -
  have "{v. in_range n v} = int ` {..<n}"
    by (auto simp: in_range_def image_iff intro!: bexI [of _ "nat _"])
  then have len: "length order = n"
    using distinct_card [OF d] s by (simp add: card_image)
  obtain rank where r: "set_ranks 0 order (replicate (length order) 0) = Some rank" "length rank = n"
    "\<And>k. k < n \<Longrightarrow> rank ! nat (order ! k) = int k"
    using set_ranks_ok [OF d, of n "replicate (length order) 0" 0] s len by auto
  have pos: "\<exists>k<n. order ! k = v \<and> rank ! nat v = int k" if "in_range n v" for v
    using that s r(3) len by (metis in_set_conv_nth mem_Collect_eq)
  have "ranked n order rank"
    using len r(2) pos s nth_mem by (fastforce simp: ranked_def)
  moreover have "perfect adj rank"
    unfolding perfect_def
  proof (intro allI impI)
    fix v u w assume a: "linked adj v u" "linked adj v w" "u \<noteq> w" "rank ! nat v < rank ! nat u" "rank ! nat v < rank ! nat w"
    obtain i where i: "i < n" "order ! i = v" "rank ! nat v = int i" using pos linkedD(1) [OF adj a(1)] by blast
    have late: "x \<in> set (drop (Suc i) order)" if x: "linked adj v x" "rank ! nat v < rank ! nat x" for x
    proof -
      obtain k where k: "k < n" "order ! k = x" "rank ! nat x = int k" using pos linkedD(2) [OF adj x(1)] by blast
      then have "drop (Suc i) order ! (k - Suc i) = x" "k - Suc i < length (drop (Suc i) order)"
        using x(2) i(3) len by auto
      then show ?thesis by (metis nth_mem)
    qed
    have "order = take i order @ v # drop (Suc i) order" using i len by (metis id_take_nth_drop)
    then show "linked adj u w"
      using e a(1-3) late [OF a(1,4)] late [OF a(2,5)] unfolding eliminated_def by blast
  qed
  ultimately show ?thesis using r(1) by blast
qed

context net_fill
begin

lemma triangulate_ok:
  assumes rng: "range_order rng" and s: "inv s"
  shows "\<exists>s1 E order rank. triangulate rng add s = Some (s1\<lparr>nw_order := order, nw_rank := rank\<rparr>) \<and> inv s1 \<and>
    extends s E s1 \<and> ranked (length (nw_adj s)) order rank \<and> perfect (nw_adj s1) rank"
proof -
  let ?n = "length (nw_adj s)"
  have adj: "graph_ok ?n (nw_adj s)" by (rule inv_graph [OF s])
  obtain order rk where co: "chordalOrder rng (nw_adj s) = Some (order, rk)"
    "\<And>r. rk = Some r \<Longrightarrow> ranked ?n order r \<and> perfect (nw_adj s) r"
    using chordalOrder_ok [OF adj rng] by blast
  show ?thesis
  proof (cases rk)
    case (Some r)
    have "extends s {} s" by (rule extends_refl) simp
    then show ?thesis using co Some s by (auto simp: triangulate_def)
  next
    case None
    let ?q = "\<lparr>dq_vertices = map int [0..<?n], dq_position = map int [0..<?n],
      dq_degree = map (\<lambda>m. int (fcard (fmdom m))) (nw_adj s)\<rparr>"
    have all: "set (map int [0..<?n]) = {v. in_range ?n v}"
      by (auto simp: in_range_def image_iff intro!: bexI [of _ "nat _"])
    have "dq_ok ?n ?q" using all by (auto simp: dq_ok_def distinct_map)
    then obtain q1 where q1: "heap_Init ?q = Some q1" "dq_ok ?n q1" "dq_same ?q q1"
      using heap_Init_ok by (auto simp: dq_keeps_def)
    have live: "set (dq_vertices q1) = {v. in_range ?n v}" using q1(3) all by (simp add: dq_same_def)
    obtain s1 order' E where e: "eliminate rng add s q1 [] = Some (s1, order')" "inv s1" "extends s E s1"
      "distinct order'" "set order' = {v. in_range ?n v}" "eliminated (nw_adj s1) order' {}"
      using eliminate_ok [OF rng s q1(2), of "[]"] live by (auto simp: eliminated_def)
    have "graph_ok ?n (nw_adj s1)" using inv_graph [OF e(2)] extendsD(1) [OF e(3)] by simp
    then obtain rank where "set_ranks 0 order' (replicate (length order') 0) = Some rank" "ranked ?n order' rank"
      "perfect (nw_adj s1) rank"
      using set_ranks_perfect [OF e(6,4,5)] by blast
    then show ?thesis using co(1) None q1(1) e(1-3) by (auto simp: triangulate_def Let_def)
  qed
qed

end

section \<open>The two edge-adding functions\<close>

lemma set_edge_pair:
  assumes adj: "graph_ok n adj" and u: "in_range n u" and w: "in_range n w" and ne: "u \<noteq> w" "\<not> linked adj u w"
    and i: "in_int64 f" "in_int64 b"
  shows "\<exists>adj'. do { adj1 \<leftarrow> adj_set adj u w f; adj_set adj1 w u b } = Some adj' \<and> graph_ok n adj' \<and>
    (\<forall>x y. linked adj' x y \<longleftrightarrow> linked adj x y \<or> (x, y) \<in> {(u, w), (w, u)}) \<and>
    (\<forall>\<tau>. sat \<tau> adj' \<longleftrightarrow> sat \<tau> adj \<and> bnd \<tau> u w f \<and> bnd \<tau> w u b)"
proof -
  have len: "length adj = n" using adj by (simp add: graph_ok_def)
  have out: "edge adj u w = None" "edge adj w u = None"
    using ne(2) linkedD(4) [OF adj, of w u] unfolding linked_def by blast+
  obtain a1 where a1: "adj_set adj u w f = Some a1" "length a1 = length adj"
    "\<And>x y. edge a1 x y = (if x = u \<and> y = w then Some f else edge adj x y)"
    using adj_set_edge [of adj u w f] u len by blast
  obtain a2 where a2: "adj_set a1 w u b = Some a2" "length a2 = length a1"
    "\<And>x y. edge a2 x y = (if x = w \<and> y = u then Some b else edge a1 x y)"
    using adj_set_edge [of a1 w u b] w a1(2) len by metis
  have e: "edge a2 x y = (if x = w \<and> y = u then Some b else if x = u \<and> y = w then Some f else edge adj x y)" for x y
    using a1(3) a2(3) by simp
  have L: "linked a2 x y \<longleftrightarrow> linked adj x y \<or> (x, y) \<in> {(u, w), (w, u)}" for x y
    by (auto simp: linked_def e)
  have "in_range n y \<and> x \<noteq> y \<and> linked a2 y x \<and> in_int64 z" if z: "edge a2 x y = Some z" for x y z
  proof (cases "(x, y) \<in> {(u, w), (w, u)}")
    case True
    then show ?thesis using z L e u w ne(1) i by (auto split: if_splits)
  next
    case False
    then have "edge adj x y = Some z" using z e by (auto split: if_splits)
    then show ?thesis using graph_okD(2,3,5) [OF adj] L linkedD(4) [OF adj, of x y] by (auto simp: linked_def)
  qed
  then have "graph_ok n a2" using a1(2) a2(2) len unfolding graph_ok_def linked_def by simp
  moreover have "sat \<tau> a2 \<longleftrightarrow> sat \<tau> adj \<and> bnd \<tau> u w f \<and> bnd \<tau> w u b" for \<tau>
  proof
    assume sat: "sat \<tau> a2"
    have "bnd \<tau> x y z" if "edge adj x y = Some z" for x y z
      using sat out that e [of x y] unfolding sat_def by (metis option.distinct(1))
    moreover have "edge a2 u w = Some f" "edge a2 w u = Some b" using e ne(1) by simp_all
    ultimately show "sat \<tau> adj \<and> bnd \<tau> u w f \<and> bnd \<tau> w u b" using sat unfolding sat_def by blast
  qed (auto simp: sat_def e split: if_splits)
  ultimately show ?thesis using a1(1) a2(1) L by simp
qed

interpretation new_fill: net_fill link_net "\<lambda>s. graph_ok (length (nw_adj s)) (nw_adj s)"
proof
  fix s u w
  assume s: "graph_ok (length (nw_adj s)) (nw_adj s)" and v: "vertex s u" "vertex s w" "u \<noteq> w" "\<not> linked (nw_adj s) u w"
  have r: "in_range (length (nw_adj s)) u" "in_range (length (nw_adj s)) w" using v by (simp_all add: vertex_in_range)
  obtain a where "do { a1 \<leftarrow> adj_set (nw_adj s) u w Infinity; adj_set a1 w u Infinity } = Some a"
    "graph_ok (length (nw_adj s)) a" "\<forall>x y. linked a x y \<longleftrightarrow> linked (nw_adj s) x y \<or> (x, y) \<in> {(u, w), (w, u)}"
    "\<forall>\<tau>. sat \<tau> a \<longleftrightarrow> sat \<tau> (nw_adj s)"
    using set_edge_pair [OF s r v(3,4) Infinity_int64 Infinity_int64] by (auto simp: bnd_def)
  then show "\<exists>s'. link_net u w s = Some s' \<and> graph_ok (length (nw_adj s')) (nw_adj s') \<and> extends s {(u, w), (w, u)} s'"
    using r v(4) by (auto simp: link_net_def stn_link_def adj_has_linked extends_def graph_ok_def)
qed

interpretation connect_fill: net_fill "add_bounds rng" "\<lambda>s. net_ok s \<and> range_order rng" for rng
proof
  fix s assume "net_ok s \<and> range_order rng"
  then show "graph_ok (length (nw_adj s)) (nw_adj s)" by (simp add: net_ok_def)
next
  fix s u w
  assume s: "net_ok s \<and> range_order rng" and v: "vertex s u" "vertex s w" "u \<noteq> w" "\<not> linked (nw_adj s) u w"
  have adj: "graph_ok (length (nw_adj s)) (nw_adj s)" using s by (simp add: net_ok_def)
  have r: "in_range (length (nw_adj s)) u" "in_range (length (nw_adj s)) w" using v by (simp_all add: vertex_in_range)
  obtain f b where b: "bounds rng s u w = Some (f, b)" "in_int64 f" "in_int64 b"
    "\<forall>\<tau>. solution \<tau> s \<longrightarrow> bnd \<tau> u w f \<and> bnd \<tau> w u b"
    using bounds_sound [OF _ _ v(1-3)] s by blast
  obtain a where a: "do { a1 \<leftarrow> adj_set (nw_adj s) u w f; adj_set a1 w u b } = Some a"
    "graph_ok (length (nw_adj s)) a" "\<forall>x y. linked a x y \<longleftrightarrow> linked (nw_adj s) x y \<or> (x, y) \<in> {(u, w), (w, u)}"
    "\<forall>\<tau>. sat \<tau> a \<longleftrightarrow> sat \<tau> (nw_adj s)"
    using set_edge_pair [OF adj r v(3,4) b(2,3)] b(4) unfolding solution_def by blast
  then have "add_bounds rng u w s = Some (s\<lparr>nw_adj := a\<rparr>)"
    using b(1) by (auto simp: add_bounds_def split: Option.bind_splits)
  moreover have "length a = length (nw_adj s)" using a(2) by (simp add: graph_ok_def)
  ultimately show "\<exists>s'. add_bounds rng u w s = Some s' \<and> (net_ok s' \<and> range_order rng) \<and> extends s {(u, w), (w, u)} s'"
    using s a by (auto simp: extends_def net_ok_def vertex_def)
qed

section \<open>New and Connect\<close>

definition topology_ok :: "network \<Rightarrow> bool" where
  "topology_ok s \<longleftrightarrow> ranked (length (nw_adj s)) (nw_order s) (nw_rank s) \<and> perfect (nw_adj s) (nw_rank s)"

lemma net_ok_ranked:
  assumes "graph_ok (length (nw_adj s)) (nw_adj s)" and "nw_limit s < Infinity"
    and "ranked (length (nw_adj s)) order rank"
  shows "net_ok (s\<lparr>nw_order := order, nw_rank := rank\<rparr>)"
  using assms rankedD(2,3) [OF assms(3)] by (simp add: net_ok_def vertex_def in_range_def)

lemma link_net_ok:
  assumes "graph_ok (length (nw_adj s)) (nw_adj s)" and "vertex s a" and "vertex s b" and "a \<noteq> b"
  shows "\<exists>s'. link_net a b s = Some s' \<and> graph_ok (length (nw_adj s')) (nw_adj s') \<and> extends s {(a, b), (b, a)} s'"
proof (cases "linked (nw_adj s) a b")
  case True
  then have "extends s {(a, b), (b, a)} s" using linkedD(4) [OF assms(1)] by (intro extends_refl) auto
  then show ?thesis
    using True assms by (simp add: link_net_def stn_link_def adj_has_linked vertex_in_range)
next
  case False
  then show ?thesis using new_fill.add_edge [OF assms] by blast
qed

text \<open>The edges \<open>New\<close> is asked for, in both directions.\<close>

definition topology_edges :: "(int \<times> int) list \<Rightarrow> (int \<times> int) set" where
  "topology_edges ps = {(a, b). a \<noteq> b \<and> ((a, b) \<in> set ps \<or> (b, a) \<in> set ps)}"

lemma link_pairs_ok:
  assumes "graph_ok (length (nw_adj s)) (nw_adj s)"
  shows "if \<forall>(a, b) \<in> set ps. vertex s a \<and> vertex s b
    then \<exists>s'. link_pairs ps s = Some (Inr s') \<and> graph_ok (length (nw_adj s')) (nw_adj s') \<and> extends s (topology_edges ps) s'
    else link_pairs ps s = Some (Inl ErrVertex)"
  using assms
proof (induction ps arbitrary: s)
  case Nil
  then show ?case by (auto simp: topology_edges_def intro!: extends_refl)
next
  case (Cons p ps)
  obtain a b where p: "p = (a, b)" by (cases p)
  show ?case
  proof (cases "vertex s a \<and> vertex s b \<and> a \<noteq> b")
    case True
    then obtain s1 where s1: "link_net a b s = Some s1" "graph_ok (length (nw_adj s1)) (nw_adj s1)"
      "extends s {(a, b), (b, a)} s1"
      using link_net_ok [OF Cons.prems] by blast
    have E: "{(a, b), (b, a)} \<union> topology_edges ps = topology_edges (p # ps)"
      using True p by (auto simp: topology_edges_def)
    have "extends s (topology_edges (p # ps)) s'" if "extends s1 (topology_edges ps) s'" for s'
      using extends_cong [OF extends_trans [OF s1(3) that] E] .
    then show ?thesis
      using Cons.IH [OF s1(2)] True s1(1) p unfolding extendsD(2) [OF s1(3)] by (auto split: if_splits)
  next
    case False
    have "topology_edges (p # ps) = topology_edges ps" if "a = b" using p that by (auto simp: topology_edges_def)
    then show ?thesis using Cons.IH [OF Cons.prems] False p by (auto split: if_splits)
  qed
qed

lemma stn_New_ok:
  assumes rng: "range_order rng" and n: "0 \<le> n" "n \<le> 2 ^ 20" and ps: "\<forall>(a, b) \<in> set ps. in_range (nat n) a \<and> in_range (nat n) b"
  shows "\<exists>s. stn_New rng n ps = Some (Inr s) \<and> net_ok s \<and> topology_ok s \<and> length (nw_adj s) = nat n \<and>
    (\<forall>(a, b) \<in> topology_edges ps. linked (nw_adj s) a b) \<and> (\<forall>\<tau>. solution \<tau> s)"
proof -
  let ?s = "\<lparr>nw_adj = replicate (nat n) fmempty, nw_limit = 2 ^ 60 div (n + 1), nw_maxInput = 0,
           nw_order = [], nw_rank = []\<rparr>"
  have e: "edge (nw_adj ?s) a b = None" for a b using n(1) by (simp add: edge_def nat_less_iff)
  have adj: "graph_ok (length (nw_adj ?s)) (nw_adj ?s)" "sat \<tau> (nw_adj ?s)" for \<tau> unfolding graph_ok_def sat_def e by simp_all
  have "\<forall>(a, b) \<in> set ps. vertex ?s a \<and> vertex ?s b" using ps by (auto simp: vertex_in_range)
  then obtain s1 where s1: "link_pairs ps ?s = Some (Inr s1)" "graph_ok (length (nw_adj s1)) (nw_adj s1)"
    "extends ?s (topology_edges ps) s1"
    using link_pairs_ok [OF adj(1), of ps] by auto
  obtain s2 E order rank where t: "triangulate rng link_net s1 = Some (s2\<lparr>nw_order := order, nw_rank := rank\<rparr>)"
    "graph_ok (length (nw_adj s2)) (nw_adj s2)" "extends s1 E s2" "ranked (length (nw_adj s1)) order rank" "perfect (nw_adj s2) rank"
    using new_fill.triangulate_ok [OF rng s1(2)] by blast
  have len: "length (nw_adj s2) = nat n" "length (nw_adj s1) = nat n"
    using extendsD(1) [OF t(3)] extendsD(1) [OF s1(3)] by simp_all
  have "(2 :: int) ^ 60 div (n + 1) \<le> 2 ^ 60" using zdiv_mono2 [of "2 ^ 60" 1 "n + 1"] n(1) by simp
  then have "nw_limit s2 < Infinity"
    using extendsD(5) [OF t(3)] extendsD(5) [OF s1(3)] by (simp add: Infinity_def int64_defs)
  then have "net_ok (s2\<lparr>nw_order := order, nw_rank := rank\<rparr>)" using net_ok_ranked [OF t(2)] t(4) len by simp
  moreover have "topology_ok (s2\<lparr>nw_order := order, nw_rank := rank\<rparr>)"
    using t(4,5) len by (simp add: topology_ok_def)
  moreover have "stn_New rng n ps = Some (Inr (s2\<lparr>nw_order := order, nw_rank := rank\<rparr>))"
    using n s1(1) t(1) by (simp add: stn_New_def)
  moreover have "solution \<tau> (s2\<lparr>nw_order := order, nw_rank := rank\<rparr>)" for \<tau>
    using extendsD(4) [OF t(3)] extendsD(4) [OF s1(3)] adj(2) by (simp add: solution_def)
  moreover have "linked (nw_adj s2) a b" if "(a, b) \<in> topology_edges ps" for a b
    using extendsD(3) [OF t(3)] extendsD(3) [OF s1(3)] that by blast
  ultimately show ?thesis using len by auto
qed

lemma Connect_ok:
  assumes ok: "net_ok s" and rng: "range_order rng" and v: "vertex s a" "vertex s b"
  shows "\<exists>s'. Connect rng a b s = Some (Inr s') \<and> net_ok s' \<and> (topology_ok s \<longrightarrow> topology_ok s') \<and>
    length (nw_adj s') = length (nw_adj s) \<and> nw_limit s' = nw_limit s \<and> nw_maxInput s' = nw_maxInput s \<and>
    (a \<noteq> b \<longrightarrow> linked (nw_adj s') a b) \<and> (\<forall>x y. linked (nw_adj s) x y \<longrightarrow> linked (nw_adj s') x y) \<and>
    (\<forall>\<tau>. solution \<tau> s' \<longleftrightarrow> solution \<tau> s)"
proof (cases "a = b \<or> linked (nw_adj s) a b")
  case True
  then show ?thesis using ok v by (auto simp: Connect_def adj_has_linked vertex_in_range)
next
  case False
  obtain s1 where s1: "add_bounds rng a b s = Some s1" "net_ok s1" "extends s {(a, b), (b, a)} s1"
    using connect_fill.add_edge [of s rng a b] ok rng v False by blast
  obtain s2 E order rank where t: "triangulate rng (add_bounds rng) s1 = Some (s2\<lparr>nw_order := order, nw_rank := rank\<rparr>)"
    "net_ok s2" "extends s1 E s2" "ranked (length (nw_adj s1)) order rank" "perfect (nw_adj s2) rank"
    using connect_fill.triangulate_ok [OF rng, of s1 rng] s1(2) rng by blast
  note D1 = extendsD [OF s1(3)] and D2 = extendsD [OF t(3)]
  let ?s = "s2\<lparr>nw_order := order, nw_rank := rank\<rparr>"
  have "net_ok ?s" using net_ok_ranked [of s2 order rank] t(2,4) D2(1) by (simp add: net_ok_def)
  moreover have "topology_ok ?s" using t(4,5) D2(1) by (simp add: topology_ok_def)
  moreover have "Connect rng a b s = Some (Inr ?s)"
    using False v s1(1) t(1) by (simp add: Connect_def adj_has_linked vertex_in_range)
  moreover have "linked (nw_adj ?s) a b" "linked (nw_adj s) x y \<Longrightarrow> linked (nw_adj ?s) x y" for x y
    using D1(3) D2(3) by simp_all
  moreover have "solution \<tau> ?s \<longleftrightarrow> solution \<tau> s" for \<tau> using D1(4) D2(4) by (simp add: solution_def)
  ultimately show ?thesis using D1(1,5,6) D2(1,5,6) by auto
qed



text \<open>A path of three vertices whose end points are not adjacent.\<close>

definition ex_path :: network where
  "ex_path =
     \<lparr>nw_adj = [fmap_of_list [(1, 5)], fmap_of_list [(0, Infinity), (2, 7)], fmap_of_list [(1, Infinity)]],
      nw_limit = 1000, nw_maxInput = 7, nw_order = [0, 1, 2], nw_rank = [0, 1, 2]\<rparr>"

lemma ex_path_edge:
  "edge (nw_adj ex_path) a b =
     (if a = 0 \<and> b = 1 then Some 5 else if a = 1 \<and> b = 0 then Some Infinity
      else if a = 1 \<and> b = 2 then Some 7 else if a = 2 \<and> b = 1 then Some Infinity else None)"
proof -
  consider "a = 0" | "a = 1" | "a = 2" | "a < 0 \<or> a > 2" by linarith
  then show ?thesis by cases (auto simp: edge_def ex_path_def fmlookup_of_list)
qed

lemma ex_path_ok: "net_ok ex_path"
proof -
  have "length (nw_adj ex_path) = 3" by (simp add: ex_path_def)
  moreover have "graph_ok 3 (nw_adj ex_path)"
    unfolding graph_ok_def ex_path_edge
    by (auto simp: in_range_def ex_path_def Infinity_def int64_defs split: if_splits)
  ultimately show ?thesis by (auto simp: net_ok_def vertex_def ex_path_def Infinity_def int64_defs numeral_3_eq_3)
qed

text \<open>C22: \<open>Connect\<close> returns, rejects only invalid vertices, links the two vertices, keeps every
  existing edge and changes no solution; a perfect elimination order stays one.\<close>

theorem connect_preserves:
  assumes "net_ok s" and "range_order rng"
  shows "case Connect rng a b s of
      None \<Rightarrow> False
    | Some (Inl e) \<Rightarrow> e = ErrVertex \<and> \<not> (vertex s a \<and> vertex s b)
    | Some (Inr s') \<Rightarrow> net_ok s' \<and> (topology_ok s \<longrightarrow> topology_ok s') \<and> (a \<noteq> b \<longrightarrow> linked (nw_adj s') a b) \<and>
        (\<forall>x y. linked (nw_adj s) x y \<longrightarrow> linked (nw_adj s') x y) \<and> (\<forall>\<tau>. solution \<tau> s' \<longleftrightarrow> solution \<tau> s)"
proof (cases "vertex s a \<and> vertex s b")
  case True
  then show ?thesis using Connect_ok [OF assms, of a b] by auto
next
  case False
  then show ?thesis by (auto simp: Connect_def)
qed

theorem connect_preserves_witness:
  "\<not> linked (nw_adj ex_path) 0 2 \<and>
   (\<exists>s'. Connect key_order 0 2 ex_path = Some (Inr s') \<and> linked (nw_adj s') 0 2 \<and>
     (\<forall>\<tau>. solution \<tau> s' \<longleftrightarrow> solution \<tau> ex_path))"
proof -
  have "vertex ex_path 0" "vertex ex_path 2" by (simp_all add: vertex_def ex_path_def)
  then show ?thesis
    using connect_preserves [OF ex_path_ok key_order, of 0 2] by (auto simp: linked_def ex_path_edge split: option.splits sum.splits)
qed

end
