(* ===== verification/Stn_Clocks.thy ===== *)
theory Stn_Clocks
  imports Stn_Connect
begin

text \<open>
  Clock systems (stn/clocks.go): difference constraints between clock anchors, gained from causal
  observations. If every clock's rate error is within the configured bound and the observations
  are true, the interval \<open>Difference\<close> returns contains the true time difference.

  Ticks are \<open>int64\<close> values, modelled as integers in that range; every Go addition, subtraction and
  negation that could leave the range is wrapped explicitly. \<open>Before\<close> returns the receiver together
  with an error, so its result is a pair.
\<close>

section \<open>The model\<close>

record sample =
  sm_Domain :: uint64
  sm_Tick :: int

record clockAnchor =
  ca_vertex :: int
  ca_tick :: int

record clocks =
  ck_network :: network
  ck_anchors :: "(uint64, clockAnchor) fmap"
  ck_ppm :: int

datatype clocks_error = InvalidRateBound int | StnError stn_error

definition NewClocks :: "range_fun \<Rightarrow> int \<Rightarrow> (clocks_error + clocks) option" where
  "NewClocks rng rateErrorPPM =
     (if rateErrorPPM < 0 \<or> rateErrorPPM \<ge> 1000000 then Some (Inl (InvalidRateBound rateErrorPPM))
      else do {
        r \<leftarrow> stn_New rng 0 [];
        Some (case r of
            Inl err \<Rightarrow> Inl (StnError err)
          | Inr n \<Rightarrow> Inr \<lparr>ck_network = n, ck_anchors = fmempty, ck_ppm = rateErrorPPM\<rparr>)
      })"

definition clock_anchor :: "clocks \<Rightarrow> sample \<Rightarrow> stn_error + (clockAnchor \<times> clocks)" where
  "clock_anchor c s =
     (case fmlookup (ck_anchors c) (sm_Domain s) of
        Some a \<Rightarrow> Inr (a, c)
      | None \<Rightarrow>
          (case AddPoint (ck_network c) of
             Inl err \<Rightarrow> Inl err
           | Inr (v, n) \<Rightarrow>
               let a = \<lparr>ca_vertex = v, ca_tick = sm_Tick s\<rparr> in
               Inr (a, c\<lparr>ck_network := n, ck_anchors := fmupd (sm_Domain s) a (ck_anchors c)\<rparr>)))"

definition checkedSubtract :: "int \<Rightarrow> int \<Rightarrow> stn_error + int" where
  "checkedSubtract a b =
     (if b > 0 \<and> a < MinInt64 + b \<or> b < 0 \<and> a > MaxInt64 + b then Inl ErrWeight
      else Inr (wrap64 (a - b)))"

text \<open>The closure \<open>scale\<close> of \<open>elapsed\<close>; \<open>d\<close> is not negative and the denominator is positive, so Go's
  truncating division is \<open>div\<close>.\<close>

definition scale :: "int \<Rightarrow> int \<Rightarrow> bool \<Rightarrow> stn_error + int" where
  "scale d denominator ceil =
     (let q = d div denominator; r = d mod denominator;
          fraction = wrap64 (r * 1000000) div denominator
            + (if ceil \<and> wrap64 (r * 1000000) mod denominator \<noteq> 0 then 1 else 0)
      in if q > (MaxInt64 - fraction) div 1000000 then Inl ErrWeight
         else Inr (wrap64 (q * 1000000 + fraction)))"

definition elapsed :: "clocks \<Rightarrow> int \<Rightarrow> int \<Rightarrow> stn_error + (int \<times> int)" where
  "elapsed c tick anchor =
     (case checkedSubtract tick anchor of
        Inl err \<Rightarrow> Inl ErrWeight
      | Inr d0 \<Rightarrow>
          if d0 = MinInt64 then Inl ErrWeight
          else let negative = d0 < 0; d = (if negative then wrap64 (- d0) else d0) in
            case scale d (1000000 + ck_ppm c) False of
              Inl err \<Rightarrow> Inl err
            | Inr lower \<Rightarrow>
                (case scale d (1000000 - ck_ppm c) True of
                   Inl err \<Rightarrow> Inl err
                 | Inr upper \<Rightarrow> if negative then Inr (wrap64 (- upper), wrap64 (- lower)) else Inr (lower, upper)))"

definition sum_overflows :: "int \<Rightarrow> int \<Rightarrow> bool" where
  "sum_overflows a v \<longleftrightarrow> v > 0 \<and> a > MaxInt64 - v \<or> v < 0 \<and> a < MinInt64 - v"

fun outward_loop :: "int \<Rightarrow> int list \<Rightarrow> int" where
  "outward_loop a [] = a"
| "outward_loop a (v # vs) = (if sum_overflows a v then Infinity else outward_loop (wrap64 (a + v)) vs)"

definition outwardSum :: "int \<Rightarrow> int \<Rightarrow> int \<Rightarrow> int" where
  "outwardSum a b c = outward_loop a [b, c]"

text \<open>The bound a causal observation puts on the anchors, from the elapsed times since them.\<close>

definition observed_upper :: "clocks \<Rightarrow> sample \<Rightarrow> sample \<Rightarrow> int \<Rightarrow> int \<Rightarrow> stn_error + int" where
  "observed_upper c p e ptick etick =
     (case elapsed c (sm_Tick p) ptick of
        Inl err \<Rightarrow> Inl err
      | Inr (pl, _) \<Rightarrow>
          (case elapsed c (sm_Tick e) etick of
             Inl err \<Rightarrow> Inl err
           | Inr (_, eu) \<Rightarrow> checkedSubtract eu pl))"

text \<open>The part of \<open>Before\<close> that builds the next version.\<close>

definition next_version ::
  "range_fun \<Rightarrow> clocks \<Rightarrow> sample \<Rightarrow> sample \<Rightarrow> int \<Rightarrow> (stn_error + clocks) option" where
  "next_version rng c p e upper =
     (case clock_anchor c p of
        Inl err \<Rightarrow> Some (Inl err)
      | Inr (pa, c1) \<Rightarrow>
          (case clock_anchor c1 e of
             Inl err \<Rightarrow> Some (Inl err)
           | Inr (ea, c2) \<Rightarrow> do {
               r \<leftarrow> Connect rng (ca_vertex ea) (ca_vertex pa) (ck_network c2);
               case r of
                 Inl err \<Rightarrow> Some (Inl err)
               | Inr n1 \<Rightarrow> do {
                   r2 \<leftarrow> Constrain rng n1 (ca_vertex ea) (ca_vertex pa) upper;
                   Some (case r2 of Inl err \<Rightarrow> Inl err | Inr n2 \<Rightarrow> Inr (c2\<lparr>ck_network := n2\<rparr>))
                 }
             }))"

definition Before :: "range_fun \<Rightarrow> clocks \<Rightarrow> sample \<Rightarrow> sample \<Rightarrow> (clocks \<times> stn_error option) option" where
  "Before rng c p e =
     (if sm_Domain p = sm_Domain e
      then Some (c, if sm_Tick p > sm_Tick e then Some ErrInconsistent else None)
      else
        let po = fmlookup (ck_anchors c) (sm_Domain p);
            eo = fmlookup (ck_anchors c) (sm_Domain e);
            ptick = (case po of None \<Rightarrow> sm_Tick p | Some a \<Rightarrow> ca_tick a);
            etick = (case eo of None \<Rightarrow> sm_Tick e | Some a \<Rightarrow> ca_tick a)
        in case observed_upper c p e ptick etick of
             Inl err \<Rightarrow> Some (c, Some err)
           | Inr upper \<Rightarrow> do {
               known \<leftarrow>
                 (case (po, eo) of
                    (Some pa, Some ea) \<Rightarrow> do {
                      old \<leftarrow> Upper rng (ck_network c) (ca_vertex ea) (ca_vertex pa);
                      Some (case old of Inl err \<Rightarrow> Some (Some err) | Inr w \<Rightarrow> if upper \<ge> w then Some None else None)
                    }
                  | _ \<Rightarrow> Some None);
               case known of
                 Some result \<Rightarrow> Some (c, result)
               | None \<Rightarrow> do {
                   r \<leftarrow> next_version rng c p e upper;
                   Some (case r of Inl err \<Rightarrow> (c, Some err) | Inr c' \<Rightarrow> (c', None))
                 }
             })"

definition Difference :: "range_fun \<Rightarrow> clocks \<Rightarrow> sample \<Rightarrow> sample \<Rightarrow> (stn_error + (int \<times> int)) option" where
  "Difference rng c a b =
     (if sm_Domain a = sm_Domain b then Some (elapsed c (sm_Tick b) (sm_Tick a))
      else
        case (fmlookup (ck_anchors c) (sm_Domain a), fmlookup (ck_anchors c) (sm_Domain b)) of
          (Some aa, Some ba) \<Rightarrow>
            (case elapsed c (sm_Tick a) (ca_tick aa) of
               Inl err \<Rightarrow> Some (Inl err)
             | Inr (al, au) \<Rightarrow>
                 (case elapsed c (sm_Tick b) (ca_tick ba) of
                    Inl err \<Rightarrow> Some (Inl err)
                  | Inr (bl, bu) \<Rightarrow> do {
                      fb \<leftarrow> bounds rng (ck_network c) (ca_vertex aa) (ca_vertex ba);
                      let upper = (if fst fb \<noteq> Infinity then outwardSum (fst fb) bu (wrap64 (- al)) else Infinity);
                      let lower = (if snd fb \<noteq> Infinity then wrap64 (- outwardSum (snd fb) au (wrap64 (- bl)))
                                   else - Infinity);
                      Some (Inr (lower, upper))
                    }))
        | _ \<Rightarrow> Some (Inr (- Infinity, Infinity)))"

section \<open>Elapsed time\<close>

lemma checkedSubtract_exact:
  assumes "in_int64 a" and "in_int64 b"
  shows "checkedSubtract a b = (if in_int64 (a - b) then Inr (a - b) else Inl ErrWeight)"
  using assms by (auto simp: checkedSubtract_def wrap64_id int64_defs)

lemma wrap64_small: "\<bar>x\<bar> \<le> MaxInt64 \<Longrightarrow> wrap64 x = x" "\<bar>x\<bar> \<le> MaxInt64 \<Longrightarrow> wrap64 (- x) = - x"
  by (auto intro!: wrap64_id simp: int64_defs)

definition div_up :: "int \<Rightarrow> int \<Rightarrow> int" where
  "div_up a b = a div b + (if a mod b \<noteq> 0 then 1 else 0)"

lemma div_split:
  assumes "0 < (b :: int)"
  shows "d * k div b = (d div b) * k + (d mod b) * k div b" "d * k mod b = (d mod b) * k mod b"
proof -
  have "d * k = (d mod b) * k + b * ((d div b) * k)"
    by (metis add.commute distrib_right mult.assoc mult_div_mod_eq)
  then show "d * k div b = (d div b) * k + (d mod b) * k div b" "d * k mod b = (d mod b) * k mod b"
    using assms by simp_all
qed

lemma scale_exact:
  assumes "0 \<le> d" and "0 < b" and "b \<le> 2000000"
  shows "scale d b ceil =
    (let v = (if ceil then div_up (d * 1000000) b else d * 1000000 div b)
     in if v > MaxInt64 then Inl ErrWeight else Inr v)"
proof -
  let ?r = "d mod b * 1000000"
  have r: "0 \<le> d mod b" "d mod b < b" using assms(2) by simp_all
  then have small: "wrap64 ?r = ?r" using assms(3) by (intro wrap64_id) (simp_all add: int64_defs)
  define f where "f = ?r div b + (if ceil \<and> ?r mod b \<noteq> 0 then 1 else 0)"
  have v: "(if ceil then div_up (d * 1000000) b else d * 1000000 div b) = (d div b) * 1000000 + f"
    using div_split [OF assms(2), of d 1000000] by (simp add: div_up_def f_def)
  have "0 \<le> f" using r assms(2) by (simp add: f_def pos_imp_zdiv_nonneg_iff)
  moreover have "0 \<le> d div b" using assms by (simp add: pos_imp_zdiv_nonneg_iff)
  moreover have "(d div b > (MaxInt64 - f) div 1000000) = ((d div b) * 1000000 + f > MaxInt64)" by linarith
  ultimately show ?thesis
    unfolding v by (auto simp: scale_def Let_def small f_def [symmetric] wrap64_small)
qed

lemma div_up_mono: "0 < c \<Longrightarrow> c \<le> b \<Longrightarrow> 0 \<le> a \<Longrightarrow> a div b \<le> div_up a c"
  using zdiv_mono2 [of a c b] by (simp add: div_up_def)

lemma elapsed_eq:
  assumes "in_int64 tick" and "in_int64 anchor" and "0 \<le> ck_ppm c" and "ck_ppm c < 1000000"
  shows "elapsed c tick anchor =
    (let d = tick - anchor;
         lo = \<bar>d\<bar> * 1000000 div (1000000 + ck_ppm c);
         hi = div_up (\<bar>d\<bar> * 1000000) (1000000 - ck_ppm c)
     in if \<bar>d\<bar> > MaxInt64 \<or> hi > MaxInt64 then Inl ErrWeight
        else if d < 0 then Inr (- hi, - lo) else Inr (lo, hi))"
proof -
  let ?lo = "\<lambda>d. d * 1000000 div (1000000 + ck_ppm c)" and ?hi = "\<lambda>d. div_up (d * 1000000) (1000000 - ck_ppm c)"
  have lo: "?lo d \<le> ?hi d" "0 \<le> ?lo d" if "0 \<le> d" for d
    using div_up_mono [of "1000000 - ck_ppm c" "1000000 + ck_ppm c" "d * 1000000"] assms(3,4) that
    by (simp_all add: pos_imp_zdiv_nonneg_iff)
  have sc: "scale d (1000000 + ck_ppm c) False = (if ?lo d > MaxInt64 then Inl ErrWeight else Inr (?lo d))"
    "scale d (1000000 - ck_ppm c) True = (if ?hi d > MaxInt64 then Inl ErrWeight else Inr (?hi d))" if "0 \<le> d" for d
    using that assms(3,4) by (simp_all add: scale_exact Let_def)
  define d a where "d = tick - anchor" and "a = \<bar>d\<bar>"
  have a: "0 \<le> a" by (simp add: a_def)
  note eval = elapsed_def checkedSubtract_exact [OF assms(1,2)] d_def [symmetric] a_def [symmetric] Let_def
  show ?thesis
  proof (cases "a > MaxInt64")
    case True
    then have "\<not> in_int64 d \<or> d = MinInt64" by (auto simp: a_def int64_defs)
    then show ?thesis using True by (auto simp: eval)
  next
    case False
    then have d: "in_int64 d" "d \<noteq> MinInt64" "(if d < 0 then wrap64 (- d) else d) = a"
      by (auto simp: a_def int64_defs intro!: wrap64_id)
    show ?thesis
    proof (cases "d < 0")
      case True
      then have "wrap64 (- d) = a" using d(3) by simp
      then show ?thesis using True d(1,2) False lo [OF a] by (simp add: eval sc [OF a] wrap64_small)
    next
      case nonneg: False
      then have "d = a" using d(3) by simp
      then show ?thesis using nonneg d(1,2) False lo [OF a] by (simp add: eval sc [OF a])
    qed
  qed
qed

text \<open>C23: \<open>elapsed\<close> never wraps: it fails with \<open>ErrWeight\<close> exactly when the tick difference or the
  rounded-up duration does not fit an \<open>int64\<close>, and otherwise returns the duration divided by one plus
  and one minus the rate error, rounded outwards.\<close>

theorem elapsed_exact:
  assumes "in_int64 tick" and "in_int64 anchor" and "0 \<le> ck_ppm c" and "ck_ppm c < 1000000"
  shows "elapsed c tick anchor =
    (let d = tick - anchor;
         lo = \<bar>d\<bar> * 1000000 div (1000000 + ck_ppm c);
         hi = div_up (\<bar>d\<bar> * 1000000) (1000000 - ck_ppm c)
     in if \<bar>d\<bar> > MaxInt64 \<or> hi > MaxInt64 then Inl ErrWeight
        else if d < 0 then Inr (- hi, - lo) else Inr (lo, hi))"
  using assms by (rule elapsed_eq)

theorem elapsed_exact_witness:
  "elapsed \<lparr>ck_network = ex_path, ck_anchors = fmempty, ck_ppm = 100\<rparr> 20000 30000 = Inr (- 10002, - 9999)"
  using elapsed_exact [of 20000 30000 "\<lparr>ck_network = ex_path, ck_anchors = fmempty, ck_ppm = 100\<rparr>"]
  by (simp add: int64_defs div_up_def Let_def)

text \<open>What a clock's rate error bound says of the true times of its ticks.\<close>

definition rate_bounded :: "int \<Rightarrow> (uint64 \<Rightarrow> int \<Rightarrow> real) \<Rightarrow> bool" where
  "rate_bounded ppm T \<longleftrightarrow> (\<forall>d s t. s \<le> t \<longrightarrow>
     real_of_int (t - s) * 1000000 / real_of_int (1000000 + ppm) \<le> T d t - T d s \<and>
     T d t - T d s \<le> real_of_int (t - s) * 1000000 / real_of_int (1000000 - ppm))"

lemma div_real:
  assumes "0 < b"
  shows "real_of_int (a div b) \<le> real_of_int a / real_of_int b" "real_of_int a / real_of_int b \<le> real_of_int (div_up a b)"
proof -
  show "real_of_int (a div b) \<le> real_of_int a / real_of_int b" by (rule real_of_int_div4)
  define m where "m = a mod b"
  have "b * (a div b) + m = a" "m < b" using assms by (simp_all add: m_def)
  moreover have "div_up a b * b = b * (a div b) + (if m \<noteq> 0 then b else 0)"
    by (simp add: div_up_def m_def algebra_simps)
  ultimately have "a \<le> div_up a b * b" by (simp split: if_splits)
  then have "real_of_int a \<le> real_of_int (div_up a b) * real_of_int b" by (metis of_int_le_iff of_int_mult)
  then show "real_of_int a / real_of_int b \<le> real_of_int (div_up a b)" using assms by (simp add: pos_divide_le_eq)
qed

lemma rate_bounded_int:
  assumes "rate_bounded ppm T" and "0 \<le> ppm" "ppm < 1000000" and "s \<le> t"
  shows "real_of_int ((t - s) * 1000000 div (1000000 + ppm)) \<le> T d t - T d s"
    "T d t - T d s \<le> real_of_int (div_up ((t - s) * 1000000) (1000000 - ppm))"
proof -
  have "real_of_int (t - s) * 1000000 / real_of_int (1000000 + ppm) \<le> T d t - T d s"
    "T d t - T d s \<le> real_of_int (t - s) * 1000000 / real_of_int (1000000 - ppm)"
    using assms(1,4) unfolding rate_bounded_def by blast+
  then show "real_of_int ((t - s) * 1000000 div (1000000 + ppm)) \<le> T d t - T d s"
    "T d t - T d s \<le> real_of_int (div_up ((t - s) * 1000000) (1000000 - ppm))"
    using div_real(1) [of "1000000 + ppm" "(t - s) * 1000000"] div_real(2) [of "1000000 - ppm" "(t - s) * 1000000"] assms(2,3)
    by simp_all
qed

end
