(* ===== verification/Stn_Clocks_Sound.thy ===== *)
theory Stn_Clocks_Sound
  imports Stn_Clocks
begin

text \<open>
  Soundness of clock systems: a system built from true observations keeps the true times of its
  anchors as a solution, so the intervals it reports contain the true differences.
\<close>

section \<open>True times\<close>

text \<open>\<open>T d t\<close> is the true time at which the clock of incarnation \<open>d\<close> reads \<open>t\<close>.\<close>

type_synonym true_time = "uint64 \<Rightarrow> int \<Rightarrow> real"

definition true_at :: "true_time \<Rightarrow> sample \<Rightarrow> real" where
  "true_at T s = T (sm_Domain s) (sm_Tick s)"

definition sample_ok :: "sample \<Rightarrow> bool" where
  "sample_ok s \<longleftrightarrow> in_int64 (sm_Tick s)"

definition clocks_wf :: "clocks \<Rightarrow> bool" where
  "clocks_wf c \<longleftrightarrow> net_ok (ck_network c) \<and> 0 \<le> ck_ppm c \<and> ck_ppm c < 1000000 \<and>
     (\<forall>d a. fmlookup (ck_anchors c) d = Some a \<longrightarrow> vertex (ck_network c) (ca_vertex a) \<and> in_int64 (ca_tick a)) \<and>
     (\<forall>d d' a a'. fmlookup (ck_anchors c) d = Some a \<longrightarrow> fmlookup (ck_anchors c) d' = Some a' \<longrightarrow>
        ca_vertex a = ca_vertex a' \<longrightarrow> d = d')"

definition anchored :: "true_time \<Rightarrow> clocks \<Rightarrow> (int \<Rightarrow> real) \<Rightarrow> bool" where
  "anchored T c \<tau> \<longleftrightarrow> (\<forall>d a. fmlookup (ck_anchors c) d = Some a \<longrightarrow> \<tau> (ca_vertex a) = T d (ca_tick a))"

definition clocks_sound :: "true_time \<Rightarrow> clocks \<Rightarrow> bool" where
  "clocks_sound T c \<longleftrightarrow> clocks_wf c \<and> rate_bounded (ck_ppm c) T \<and>
     (\<exists>\<tau>. solution \<tau> (ck_network c) \<and> anchored T c \<tau>)"

lemma clocks_soundD:
  assumes "clocks_sound T c"
  shows "net_ok (ck_network c)" "0 \<le> ck_ppm c" "ck_ppm c < 1000000" "rate_bounded (ck_ppm c) T"
    "fmlookup (ck_anchors c) d = Some a \<Longrightarrow> vertex (ck_network c) (ca_vertex a)"
    "fmlookup (ck_anchors c) d = Some a \<Longrightarrow> in_int64 (ca_tick a)"
    "fmlookup (ck_anchors c) d = Some a \<Longrightarrow> fmlookup (ck_anchors c) d' = Some a' \<Longrightarrow> ca_vertex a = ca_vertex a' \<Longrightarrow> d = d'"
  using assms by (auto simp: clocks_sound_def clocks_wf_def)

lemma elapsed_sound:
  assumes T: "rate_bounded (ck_ppm c) T" and "0 \<le> ck_ppm c" "ck_ppm c < 1000000"
    and "in_int64 t" and "in_int64 s" and e: "elapsed c t s = Inr (l, u)"
  shows "real_of_int l \<le> T d t - T d s" "T d t - T d s \<le> real_of_int u" "\<bar>l\<bar> \<le> MaxInt64" "\<bar>u\<bar> \<le> MaxInt64"
proof -
  define lo hi where "lo = \<bar>t - s\<bar> * 1000000 div (1000000 + ck_ppm c)" and "hi = div_up (\<bar>t - s\<bar> * 1000000) (1000000 - ck_ppm c)"
  have r: "hi \<le> MaxInt64" "if t < s then l = - hi \<and> u = - lo else l = lo \<and> u = hi"
    using elapsed_eq [OF assms(4,5,2,3)] e by (auto simp: Let_def lo_def hi_def split: if_splits)
  have "0 \<le> lo" "lo \<le> hi"
    using div_up_mono [of "1000000 - ck_ppm c" "1000000 + ck_ppm c" "\<bar>t - s\<bar> * 1000000"] assms(2,3)
    by (simp_all add: lo_def hi_def pos_imp_zdiv_nonneg_iff)
  then show "\<bar>l\<bar> \<le> MaxInt64" "\<bar>u\<bar> \<le> MaxInt64" using r by (auto split: if_splits)
  show "real_of_int l \<le> T d t - T d s" "T d t - T d s \<le> real_of_int u"
    using rate_bounded_int [OF T assms(2,3), of s t d] rate_bounded_int [OF T assms(2,3), of t s d] r(2)
    by (auto simp: lo_def hi_def split: if_splits)
qed

lemma checkedSubtract_err: "checkedSubtract a b = Inl e \<Longrightarrow> e = ErrWeight"
  by (simp add: checkedSubtract_def split: if_splits)

lemma scale_err: "scale d b ceil = Inl e \<Longrightarrow> e = ErrWeight"
  unfolding scale_def Let_def by (simp split: if_splits)

lemma elapsed_err: "elapsed c x y = Inl e \<Longrightarrow> e = ErrWeight"
  unfolding elapsed_def Let_def
  by (auto split: sum.splits if_splits dest: scale_err checkedSubtract_err)

lemma outwardSum_exact:
  assumes "in_int64 a" and "in_int64 b" and "in_int64 c"
  shows "outwardSum a b c = Infinity \<or> outwardSum a b c = a + b + c \<and> in_int64 (a + b + c)"
proof -
  have "wrap64 (x + y) = x + y \<and> in_int64 (x + y)" if "in_int64 x" "in_int64 y" "\<not> sum_overflows x y" for x y
    using that by (auto simp: sum_overflows_def int64_defs intro!: wrap64_id)
  then show ?thesis using assms by (simp add: outwardSum_def)
qed

section \<open>Anchors\<close>

lemma AddPoint_ok:
  assumes ok: "net_ok s" and r: "AddPoint s = Inr (v, s')"
  shows "net_ok s'" "\<not> vertex s v" "vertex s' x \<longleftrightarrow> vertex s x \<or> x = v"
    "solution \<tau> s \<Longrightarrow> solution (\<tau>(v := t)) s'"
proof -
  let ?n = "length (nw_adj s)"
  have s': "v = int ?n" "s' = s\<lparr>nw_adj := nw_adj s @ [fmempty], nw_order := nw_order s @ [int ?n],
      nw_rank := nw_rank s @ [int ?n], nw_limit := 2 ^ 60 div (int ?n + 2)\<rparr>"
    using r by (auto simp: AddPoint_def Let_def split: if_splits)
  have e: "edge (nw_adj s') a b = edge (nw_adj s) a b" for a b
    by (auto simp: s'(2) edge_def nth_append nat_less_iff)
  have adj: "graph_ok ?n (nw_adj s)" using ok by (simp add: net_ok_def)
  show v: "vertex s' x \<longleftrightarrow> vertex s x \<or> x = v" for x by (auto simp: s' vertex_def)
  show "\<not> vertex s v" by (simp add: s'(1) vertex_def)
  have "graph_ok (Suc ?n) (nw_adj s')"
    using adj unfolding graph_ok_def e by (force simp: s'(2) in_range_def)
  moreover have "(2 :: int) ^ 60 div (int ?n + 2) \<le> 2 ^ 60" using zdiv_mono2 [of "2 ^ 60" 1 "int ?n + 2"] by simp
  ultimately show "net_ok s'"
    using ok by (auto simp: net_ok_def s'(2) vertex_def Infinity_def int64_defs)
  show "solution (\<tau>(v := t)) s'" if "solution \<tau> s"
    unfolding solution_def sat_def e
  proof (intro allI impI)
    fix a b w assume ab: "edge (nw_adj s) a b = Some w"
    then have "a \<noteq> v" "b \<noteq> v" using graph_okD(1,2) [OF adj ab] by (auto simp: s'(1) in_range_def)
    then show "bnd (\<tau>(v := t)) a b w" using that ab by (simp add: solution_def sat_def bnd_def)
  qed
qed

lemma clock_anchor_ok:
  assumes c: "clocks_sound T c" and s: "sample_ok s" and r: "clock_anchor c s = Inr (a, c')"
  shows "clocks_sound T c'" "fmlookup (ck_anchors c') (sm_Domain s) = Some a" "ck_ppm c' = ck_ppm c"
    "fmlookup (ck_anchors c') d = (if d = sm_Domain s then Some a else fmlookup (ck_anchors c) d)"
    "fmlookup (ck_anchors c) (sm_Domain s) = None \<Longrightarrow> ca_tick a = sm_Tick s"
    "fmlookup (ck_anchors c) (sm_Domain s) = Some b \<Longrightarrow> a = b"
proof -
  have all: "clocks_sound T c' \<and> ck_ppm c' = ck_ppm c \<and>
    (\<forall>d. fmlookup (ck_anchors c') d = (if d = sm_Domain s then Some a else fmlookup (ck_anchors c) d)) \<and>
    (fmlookup (ck_anchors c) (sm_Domain s) = None \<longrightarrow> ca_tick a = sm_Tick s) \<and>
    (\<forall>b. fmlookup (ck_anchors c) (sm_Domain s) = Some b \<longrightarrow> a = b)"
  proof (cases "fmlookup (ck_anchors c) (sm_Domain s)")
    case (Some b)
    then show ?thesis using r c by (auto simp: clock_anchor_def)
  next
    case None
    obtain v n where v: "AddPoint (ck_network c) = Inr (v, n)" "a = \<lparr>ca_vertex = v, ca_tick = sm_Tick s\<rparr>"
      "c' = c\<lparr>ck_network := n, ck_anchors := fmupd (sm_Domain s) a (ck_anchors c)\<rparr>"
      using r None by (auto simp: clock_anchor_def Let_def split: sum.splits prod.splits)
    note A = AddPoint_ok [OF clocks_soundD(1) [OF c] v(1)]
    obtain \<tau> where \<tau>: "solution \<tau> (ck_network c)" "anchored T c \<tau>" using c by (auto simp: clocks_sound_def)
    have old: "ca_vertex b \<noteq> v" if "fmlookup (ck_anchors c) d = Some b" for d b
      using clocks_soundD(5) [OF c that] A(2) by auto
    have "anchored T c' (\<tau>(v := T (sm_Domain s) (sm_Tick s)))"
      using \<tau>(2) old by (auto simp: anchored_def v)
    moreover have "clocks_wf c'"
      unfolding clocks_wf_def using clocks_soundD(1-3,5,6) [OF c] A(1,3) s
      by (auto simp: v sample_ok_def split: if_splits dest: old clocks_soundD(7) [OF c])
    ultimately have "clocks_sound T c'"
      using A(4) [OF \<tau>(1)] clocks_soundD(4) [OF c] by (auto simp: clocks_sound_def v(3))
    then show ?thesis using v None by simp
  qed
  then show "clocks_sound T c'" "fmlookup (ck_anchors c') (sm_Domain s) = Some a" "ck_ppm c' = ck_ppm c"
    "fmlookup (ck_anchors c') d = (if d = sm_Domain s then Some a else fmlookup (ck_anchors c) d)"
    "fmlookup (ck_anchors c) (sm_Domain s) = None \<Longrightarrow> ca_tick a = sm_Tick s"
    "fmlookup (ck_anchors c) (sm_Domain s) = Some b \<Longrightarrow> a = b"
    by simp_all
qed

section \<open>Before\<close>

lemma observed_upper_sound:
  assumes c: "clocks_sound T c" and s: "sample_ok p" "sample_ok e" "in_int64 pt" "in_int64 et"
    and causal: "true_at T p \<le> true_at T e" and u: "observed_upper c p e pt et = Inr upper"
  shows "T (sm_Domain p) pt - T (sm_Domain e) et \<le> real_of_int upper"
proof -
  note D = clocks_soundD(4,2,3) [OF c]
  obtain pl pu el eu where e: "elapsed c (sm_Tick p) pt = Inr (pl, pu)" "elapsed c (sm_Tick e) et = Inr (el, eu)"
    "checkedSubtract eu pl = Inr upper"
    using u by (auto simp: observed_upper_def split: sum.splits prod.splits)
  have t: "in_int64 (sm_Tick p)" "in_int64 (sm_Tick e)" using s by (simp_all add: sample_ok_def)
  note P = elapsed_sound [OF D t(1) s(3) e(1)] and E = elapsed_sound [OF D t(2) s(4) e(2)]
  have "in_int64 eu" "in_int64 pl" using P(3) E(4) by (auto simp: int64_defs)
  then have "upper = eu - pl" using e(3) by (simp add: checkedSubtract_exact split: if_splits)
  then show ?thesis using P(1) [of "sm_Domain p"] E(2) [of "sm_Domain e"] causal by (simp add: true_at_def)
qed

lemma next_version_sound:
  assumes c: "clocks_sound T c" and rng: "range_order rng" and s: "sample_ok p" "sample_ok e"
    and ne: "sm_Domain p \<noteq> sm_Domain e"
    and up: "T (sm_Domain p) (case fmlookup (ck_anchors c) (sm_Domain p) of None \<Rightarrow> sm_Tick p | Some a \<Rightarrow> ca_tick a) -
      T (sm_Domain e) (case fmlookup (ck_anchors c) (sm_Domain e) of None \<Rightarrow> sm_Tick e | Some a \<Rightarrow> ca_tick a)
      \<le> real_of_int upper"
  shows "\<exists>r. next_version rng c p e upper = Some r \<and>
    (case r of Inl err \<Rightarrow> err = ErrWeight \<or> err = ErrVertex | Inr c' \<Rightarrow> clocks_sound T c' \<and> ck_ppm c' = ck_ppm c)"
proof (cases "\<exists>err. clock_anchor c p = Inl err \<or> (\<exists>pa c1. clock_anchor c p = Inr (pa, c1) \<and> clock_anchor c1 e = Inl err)")
  case True
  have "err = ErrWeight \<or> err = ErrVertex" if "clock_anchor c s = Inl err" for c s err
    using that by (auto simp: clock_anchor_def AddPoint_def Let_def split: option.splits if_splits)
  then show ?thesis using True by (auto simp: next_version_def)
next
  case False
  then obtain pa c1 ea c2 where a: "clock_anchor c p = Inr (pa, c1)" "clock_anchor c1 e = Inr (ea, c2)"
    by (metis old.sum.exhaust surj_pair)
  note A1 = clock_anchor_ok [OF c s(1) a(1)]
  note A2 = clock_anchor_ok [OF A1(1) s(2) a(2)]
  have l: "fmlookup (ck_anchors c2) (sm_Domain p) = Some pa" "fmlookup (ck_anchors c2) (sm_Domain e) = Some ea"
    using A2(2,4) A1(2) ne by simp_all
  have e1: "fmlookup (ck_anchors c1) (sm_Domain e) = fmlookup (ck_anchors c) (sm_Domain e)" using A1(4) ne by simp
  obtain \<tau> where \<tau>: "solution \<tau> (ck_network c2)" "anchored T c2 \<tau>" using A2(1) by (auto simp: clocks_sound_def)
  have "T (sm_Domain p) (ca_tick pa) - T (sm_Domain e) (ca_tick ea) \<le> real_of_int upper"
    using up A1(5,6) A2(5,6) unfolding e1 by (auto split: option.splits)
  then have \<tau>u: "\<tau> (ca_vertex pa) - \<tau> (ca_vertex ea) \<le> real_of_int upper" using \<tau>(2) l by (simp add: anchored_def)
  note D = clocks_soundD [OF A2(1)]
  have v: "vertex (ck_network c2) (ca_vertex ea)" "vertex (ck_network c2) (ca_vertex pa)" "ca_vertex ea \<noteq> ca_vertex pa"
    using D(5) [OF l(2)] D(5) [OF l(1)] D(7) [OF l(2,1)] ne by auto
  obtain n1 where n1: "Connect rng (ca_vertex ea) (ca_vertex pa) (ck_network c2) = Some (Inr n1)" "net_ok n1"
    "length (nw_adj n1) = length (nw_adj (ck_network c2))" "linked (nw_adj n1) (ca_vertex ea) (ca_vertex pa)" "solution \<tau> n1"
    using Connect_ok [OF D(1) rng v(1,2)] v(3) \<tau>(1) by blast
  have v1: "vertex n1 x \<longleftrightarrow> vertex (ck_network c2) x" for x using n1(3) by (simp add: vertex_def)
  let ?r = "Constrain rng n1 (ca_vertex ea) (ca_vertex pa) upper"
  have spec: "constrain_spec n1 (ca_vertex ea) (ca_vertex pa) upper ?r" by (rule Constrain_meets_spec [OF n1(2) rng])
  show ?thesis
  proof (cases ?r)
    case None
    then show ?thesis using spec by (simp add: constrain_spec_def)
  next
    case (Some r2)
    show ?thesis
    proof (cases r2)
      case (Inl err)
      have "err = ErrWeight"
        using spec Some Inl v v1 n1(4,5) \<tau>u by (cases err) (auto simp: constrain_spec_def linked_def)
      then show ?thesis using a n1(1) Some Inl by (simp add: next_version_def)
    next
      case (Inr n2)
      have n2: "net_ok n2" "solution \<tau> n2" "length (nw_adj n2) = length (nw_adj n1)"
        using spec Some Inr n1(5) \<tau>u by (simp_all add: constrain_spec_def)
      then have "vertex n2 x \<longleftrightarrow> vertex (ck_network c2) x" for x using v1 by (simp add: vertex_def)
      then have "clocks_sound T (c2\<lparr>ck_network := n2\<rparr>)"
        using A2(1) n2(1,2) \<tau>(2) by (auto simp: clocks_sound_def clocks_wf_def anchored_def)
      then show ?thesis using a n1(1) Some Inr A1(3) A2(3) by (simp add: next_version_def)
    qed
  qed
qed

lemma Before_sound:
  assumes c: "clocks_sound T c" and rng: "range_order rng" and s: "sample_ok p" "sample_ok e"
    and causal: "true_at T p \<le> true_at T e"
  shows "\<exists>c' err. Before rng c p e = Some (c', err) \<and> clocks_sound T c' \<and> ck_ppm c' = ck_ppm c \<and>
    (err = None \<or> c' = c \<and> (err = Some ErrWeight \<or> err = Some ErrVertex))"
proof (cases "sm_Domain p = sm_Domain e")
  case True
  have "\<not> sm_Tick p > sm_Tick e"
  proof
    assume gt: "sm_Tick p > sm_Tick e"
    then have "0 < real_of_int (sm_Tick p - sm_Tick e) * 1000000 / real_of_int (1000000 + ck_ppm c)"
      using clocks_soundD(2) [OF c] by simp
    also have "\<dots> \<le> T (sm_Domain p) (sm_Tick p) - T (sm_Domain p) (sm_Tick e)"
      using clocks_soundD(4) [OF c] gt unfolding rate_bounded_def by (meson less_imp_le)
    finally show False using causal True by (simp add: true_at_def)
  qed
  then show ?thesis using True c by (simp add: Before_def)
next
  case False
  let ?po = "fmlookup (ck_anchors c) (sm_Domain p)" and ?eo = "fmlookup (ck_anchors c) (sm_Domain e)"
  define pt et where "pt = (case ?po of None \<Rightarrow> sm_Tick p | Some a \<Rightarrow> ca_tick a)"
    and "et = (case ?eo of None \<Rightarrow> sm_Tick e | Some a \<Rightarrow> ca_tick a)"
  have t: "in_int64 pt" "in_int64 et"
    using s clocks_soundD(6) [OF c] by (auto simp: pt_def et_def sample_ok_def split: option.splits)
  show ?thesis
  proof (cases "observed_upper c p e pt et")
    case (Inl err)
    then have "err = ErrWeight"
      by (auto simp: observed_upper_def split: sum.splits prod.splits dest: elapsed_err checkedSubtract_err)
    then show ?thesis using False Inl c by (simp add: Before_def Let_def pt_def et_def)
  next
    case (Inr upper)
    have up: "T (sm_Domain p) pt - T (sm_Domain e) et \<le> real_of_int upper"
      by (rule observed_upper_sound [OF c s t causal Inr])
    obtain r where r: "next_version rng c p e upper = Some r"
      "case r of Inl err \<Rightarrow> err = ErrWeight \<or> err = ErrVertex | Inr c' \<Rightarrow> clocks_sound T c' \<and> ck_ppm c' = ck_ppm c"
      using next_version_sound [OF c rng s False] up unfolding pt_def et_def by blast
    define known where "known = (case (?po, ?eo) of
                    (Some pa, Some ea) \<Rightarrow> do {
                      old \<leftarrow> Upper rng (ck_network c) (ca_vertex ea) (ca_vertex pa);
                      Some (case old of Inl err \<Rightarrow> Some (Some err) | Inr w \<Rightarrow> if upper \<ge> w then Some None else None)
                    }
                  | _ \<Rightarrow> Some None)"
    have "known = Some (Some None) \<or> known = Some None"
    proof (cases "?po = None \<or> ?eo = None")
      case True
      then show ?thesis by (auto simp: known_def split: option.splits)
    next
      case False
      then obtain pa ea where l: "?po = Some pa" "?eo = Some ea" by auto
      obtain w where "Upper rng (ck_network c) (ca_vertex ea) (ca_vertex pa) = Some (Inr w)"
        using Upper_sound [OF clocks_soundD(1) [OF c] rng clocks_soundD(5) [OF c l(2)] clocks_soundD(5) [OF c l(1)]] by blast
      then show ?thesis using l by (simp add: known_def)
    qed
    moreover have "Before rng c p e = do {
        k \<leftarrow> known;
        case k of Some result \<Rightarrow> Some (c, result)
        | None \<Rightarrow> do { r \<leftarrow> next_version rng c p e upper;
                     Some (case r of Inl err \<Rightarrow> (c, Some err) | Inr c' \<Rightarrow> (c', None)) } }"
      using False Inr unfolding Before_def Let_def pt_def et_def known_def by simp
    ultimately show ?thesis using r c by (auto split: sum.splits)
  qed
qed

section \<open>Difference\<close>

definition in_interval :: "real \<Rightarrow> int \<times> int \<Rightarrow> bool" where
  "in_interval x b \<longleftrightarrow> (fst b = - Infinity \<or> real_of_int (fst b) \<le> x) \<and> (snd b = Infinity \<or> x \<le> real_of_int (snd b))"

lemma lower_negated:
  assumes "x = Infinity \<or> y \<le> real_of_int x" and "in_int64 x"
  shows "wrap64 (- x) = - Infinity \<or> real_of_int (wrap64 (- x)) \<le> - y"
proof (cases "x = MinInt64")
  case True
  then have "wrap64 (- x) = MinInt64" "MinInt64 \<noteq> Infinity" by (simp_all add: wrap64_def Infinity_def int64_defs)
  then show ?thesis using assms(1) True by (auto simp: int64_defs)
next
  case False
  then have "wrap64 (- x) = - x" using assms(2) by (intro wrap64_id) (auto simp: int64_defs)
  then show ?thesis using assms(1) by auto
qed

lemma Difference_sound:
  assumes c: "clocks_sound T c" and rng: "range_order rng" and s: "sample_ok a" "sample_ok b"
  shows "\<exists>r. Difference rng c a b = Some r \<and>
    (case r of Inl err \<Rightarrow> err = ErrWeight | Inr i \<Rightarrow> in_interval (true_at T b - true_at T a) i)"
proof -
  note D = clocks_soundD(4,2,3) [OF c]
  have t: "in_int64 (sm_Tick a)" "in_int64 (sm_Tick b)" using s by (simp_all add: sample_ok_def)
  let ?ao = "fmlookup (ck_anchors c) (sm_Domain a)" and ?bo = "fmlookup (ck_anchors c) (sm_Domain b)"
  consider "sm_Domain a = sm_Domain b" | "sm_Domain a \<noteq> sm_Domain b" "?ao = None \<or> ?bo = None"
    | aa ba where "sm_Domain a \<noteq> sm_Domain b" "?ao = Some aa" "?bo = Some ba"
    by (cases ?ao; cases ?bo) blast+
  then show ?thesis
  proof cases
    case 1
    then show ?thesis
      using elapsed_err elapsed_sound(1,2) [OF D t(2,1), where d = "sm_Domain a"]
      by (auto simp: Difference_def in_interval_def true_at_def split: sum.split)
  next
    case 2
    then show ?thesis by (auto simp: Difference_def in_interval_def split: option.splits)
  next
    case 3
    note A = clocks_soundD(5,6) [OF c 3(2)] and B = clocks_soundD(5,6) [OF c 3(3)]
    show ?thesis
    proof (cases "\<exists>e. elapsed c (sm_Tick a) (ca_tick aa) = Inl e \<or> elapsed c (sm_Tick b) (ca_tick ba) = Inl e")
      case True
      then show ?thesis using 3 elapsed_err by (auto simp: Difference_def split: sum.splits)
    next
      case False
      then obtain al au bl bu where e: "elapsed c (sm_Tick a) (ca_tick aa) = Inr (al, au)" "elapsed c (sm_Tick b) (ca_tick ba) = Inr (bl, bu)"
        by (metis old.sum.exhaust surj_pair)
      note EA = elapsed_sound [OF D t(1) A(2) e(1)] and EB = elapsed_sound [OF D t(2) B(2) e(2)]
      obtain \<tau> where \<tau>: "solution \<tau> (ck_network c)" "anchored T c \<tau>" using c by (auto simp: clocks_sound_def)
      obtain f g where b: "bounds rng (ck_network c) (ca_vertex aa) (ca_vertex ba) = Some (f, g)" "in_int64 f" "in_int64 g"
        "bnd \<tau> (ca_vertex aa) (ca_vertex ba) f" "bnd \<tau> (ca_vertex ba) (ca_vertex aa) g"
        using bounds_sound [OF clocks_soundD(1) [OF c] rng A(1) B(1)] clocks_soundD(7) [OF c 3(2,3)] 3(1) \<tau>(1) by blast
      have \<tau>v: "\<tau> (ca_vertex aa) = T (sm_Domain a) (ca_tick aa)" "\<tau> (ca_vertex ba) = T (sm_Domain b) (ca_tick ba)"
        using \<tau>(2) 3 by (simp_all add: anchored_def)
      have neg: "wrap64 (- al) = - al" "wrap64 (- bl) = - bl" using EA(3) EB(3) by (simp_all add: wrap64_small)
      have i: "in_int64 bu" "in_int64 (- al)" "in_int64 au" "in_int64 (- bl)" using EA(3,4) EB(3,4) by (auto simp: int64_defs)
      let ?u = "outwardSum f bu (- al)" and ?l = "outwardSum g au (- bl)"
      have x: "f = Infinity \<or> ?u = Infinity \<or> true_at T b - true_at T a \<le> real_of_int ?u"
        "g = Infinity \<or> ?l = Infinity \<or> true_at T a - true_at T b \<le> real_of_int ?l"
        using outwardSum_exact [OF b(2) i(1,2)] outwardSum_exact [OF b(3) i(3,4)] b(4,5) EA(1,2) [of "sm_Domain a"] EB(1,2) [of "sm_Domain b"]
        by (auto simp: bnd_def \<tau>v true_at_def)
      have il: "in_int64 ?l" using outwardSum_exact [OF b(3) i(3,4)] by auto
      have "g = Infinity \<or> wrap64 (- ?l) = - Infinity \<or> real_of_int (wrap64 (- ?l)) \<le> true_at T b - true_at T a"
        using lower_negated [OF _ il, of "true_at T a - true_at T b"] x(2) by auto
      then show ?thesis using 3 e b(1) neg x(1) by (auto simp: Difference_def in_interval_def)
    qed
  qed
qed

end
