(* ===== verification/Temporal.thy ===== *)
theory Temporal
  imports Stn_Clocks_Sound Dag
begin

text \<open>
  Clock evidence from the effect log (effects/temporal.go): causal dependencies between resident
  effects, and local receipts, become observations of the engine's clock system. Published versions
  are immutable; concurrent writers publish by compare-and-swap and replay on failure.

  The resident pool maps an address to its effect and the flags of the evidence already taken from
  it; the wall clock's reading is an argument.
\<close>

section \<open>Merging observations\<close>

definition effectSample :: "effect \<Rightarrow> sample" where
  "effectSample eff = \<lparr>sm_Domain = eff_node_id eff, sm_Tick = sint (unix_nano (eff_hlc eff))\<rparr>"

type_synonym observation = "sample \<times> sample"

text \<open>The body of \<open>merge\<close>'s retry loop: a rejected observation supplies no evidence.\<close>

fun merge_observations :: "range_fun \<Rightarrow> observation list \<Rightarrow> clocks \<Rightarrow> clocks option" where
  "merge_observations rng [] c = Some c"
| "merge_observations rng ((before, after) # obs) c = do {
     r \<leftarrow> Before rng c before after;
     merge_observations rng obs (case snd r of None \<Rightarrow> fst r | Some _ \<Rightarrow> c)
   }"

text \<open>Concurrent \<open>merge\<close> calls. A published version carries the identity of its pointer, and a new
  version a fresh one. \<open>Before\<close> returns its receiver unless it builds a version that differs from it,
  so comparing \<open>next\<close> with \<open>base\<close> is comparing the clock systems.\<close>

type_synonym version = "nat \<times> clocks"

datatype merge_writer =
    Replaying version "observation list"
  | Swapping version clocks "observation list"
  | Merged "observation list"

record merge_state =
  ms_current :: version
  ms_fresh :: nat
  ms_writers :: "merge_writer list"

inductive merge_step :: "range_fun \<Rightarrow> merge_state \<Rightarrow> merge_state \<Rightarrow> bool" for rng :: range_fun where
  nothing_new: "i < length (ms_writers s) \<Longrightarrow> ms_writers s ! i = Replaying base obs \<Longrightarrow>
    merge_observations rng obs (snd base) = Some (snd base) \<Longrightarrow>
    merge_step rng s (s\<lparr>ms_writers := (ms_writers s)[i := Merged obs]\<rparr>)"
| replayed: "i < length (ms_writers s) \<Longrightarrow> ms_writers s ! i = Replaying base obs \<Longrightarrow>
    merge_observations rng obs (snd base) = Some c \<Longrightarrow> c \<noteq> snd base \<Longrightarrow>
    merge_step rng s (s\<lparr>ms_writers := (ms_writers s)[i := Swapping base c obs]\<rparr>)"
| swapped: "i < length (ms_writers s) \<Longrightarrow> ms_writers s ! i = Swapping base c obs \<Longrightarrow>
    fst (ms_current s) = fst base \<Longrightarrow>
    merge_step rng s (s\<lparr>ms_current := (ms_fresh s, c), ms_fresh := Suc (ms_fresh s),
                        ms_writers := (ms_writers s)[i := Merged obs]\<rparr>)"
| swap_failed: "i < length (ms_writers s) \<Longrightarrow> ms_writers s ! i = Swapping base c obs \<Longrightarrow>
    fst (ms_current s) \<noteq> fst base \<Longrightarrow>
    merge_step rng s (s\<lparr>ms_writers := (ms_writers s)[i := Replaying (ms_current s) obs]\<rparr>)"

inductive_cases merge_stepE: "merge_step rng s s'"

definition merge_start :: "clocks \<Rightarrow> observation list list \<Rightarrow> merge_state" where
  "merge_start c obss = \<lparr>ms_current = (0, c), ms_fresh = 1, ms_writers = map (Replaying (0, c)) obss\<rparr>"

section \<open>Observing effects\<close>

definition temporalDepsObserved :: "32 word" where
  "temporalDepsObserved = 1"

definition temporalReceiptObserved :: "32 word" where
  "temporalReceiptObserved = 2"

definition elapsedClockRatePPM :: int where
  "elapsedClockRatePPM = 1000"

record pool_vertex =
  vx_eff :: effect
  vx_temporal :: "32 word"

record temporal_engine =
  te_nodeID :: uint64
  te_pool :: "(tip, pool_vertex) fmap"
  te_current :: "clocks option"

definition clockEvidence :: "range_fun \<Rightarrow> temporal_engine \<Rightarrow> (clocks \<times> temporal_engine) option" where
  "clockEvidence rng e =
     (case te_current e of
        Some c \<Rightarrow> Some (c, e)
      | None \<Rightarrow> do {
          r \<leftarrow> NewClocks rng elapsedClockRatePPM;
          case r of Inl _ \<Rightarrow> None | Inr c \<Rightarrow> Some (c, e\<lparr>te_current := Some c\<rparr>)
        })"

text \<open>The loop over the dependencies: the observations of resident parents with a timestamp, and
  whether every parent was resident.\<close>

definition dep_observations :: "temporal_engine \<Rightarrow> effect \<Rightarrow> observation list \<times> bool" where
  "dep_observations e eff =
     (concat (map (\<lambda>ref. case fmlookup (te_pool e) ref of
          None \<Rightarrow> []
        | Some v \<Rightarrow> if eff_hlc (vx_eff v) \<noteq> None then [(effectSample (vx_eff v), effectSample eff)] else [])
        (allDeps eff)),
      list_all (\<lambda>ref. fmlookup (te_pool e) ref \<noteq> None) (allDeps eff))"

definition publish :: "range_fun \<Rightarrow> observation list \<Rightarrow> temporal_engine \<Rightarrow> temporal_engine option" where
  "publish rng obs e =
     (if obs = [] then Some e
      else do {
        ce \<leftarrow> clockEvidence rng e;
        c \<leftarrow> merge_observations rng obs (fst ce);
        Some ((snd ce)\<lparr>te_current := Some c\<rparr>)
      })"

definition mark_observed :: "tip \<Rightarrow> 32 word \<Rightarrow> temporal_engine \<Rightarrow> temporal_engine" where
  "mark_observed t completed e =
     (case fmlookup (te_pool e) t of
        None \<Rightarrow> e
      | Some v \<Rightarrow>
          if completed = 0 then e
          else e\<lparr>te_pool := fmupd t (v\<lparr>vx_temporal := or (vx_temporal v) completed\<rparr>) (te_pool e)\<rparr>)"

definition observeTemporal ::
  "range_fun \<Rightarrow> int \<Rightarrow> tip \<Rightarrow> effect \<Rightarrow> bool \<Rightarrow> temporal_engine \<Rightarrow> temporal_engine option" where
  "observeTemporal rng now t eff receipt0 e =
     (if eff_hlc eff = None then Some e
      else
        let observed = (case fmlookup (te_pool e) t of None \<Rightarrow> 0 | Some v \<Rightarrow> vx_temporal v);
            receipt = (receipt0 \<and> eff_node_id eff \<noteq> te_nodeID e \<and> and observed temporalReceiptObserved = 0);
            fresh_deps = (and observed temporalDepsObserved = 0)
        in if \<not> fresh_deps \<and> \<not> receipt then Some e
           else
             let (dobs, all_resident) = dep_observations e eff;
                 obs = (if fresh_deps then dobs else []) @
                   (if receipt then [(effectSample eff, \<lparr>sm_Domain = te_nodeID e, sm_Tick = now\<rparr>)] else []);
                 completed = or (if fresh_deps \<and> all_resident then temporalDepsObserved else 0)
                   (if receipt then temporalReceiptObserved else 0)
             in do { e' \<leftarrow> publish rng obs e; Some (mark_observed t completed e') })"

fun observeTemporalDag :: "range_fun \<Rightarrow> int \<Rightarrow> (tip \<times> effect) list \<Rightarrow> temporal_engine \<Rightarrow> temporal_engine option" where
  "observeTemporalDag rng now [] e = Some e"
| "observeTemporalDag rng now ((t, eff) # topo) e = do {
     e' \<leftarrow> observeTemporal rng now t eff False e;
     observeTemporalDag rng now topo e'
   }"

section \<open>Evidence is sound\<close>

definition true_obs :: "true_time \<Rightarrow> observation \<Rightarrow> bool" where
  "true_obs T ob \<longleftrightarrow> sample_ok (fst ob) \<and> sample_ok (snd ob) \<and> true_at T (fst ob) \<le> true_at T (snd ob)"

lemma effectSample_ok [simp]: "sample_ok (effectSample eff)"
  using sint_ge [of "unix_nano (eff_hlc eff)"] sint_lt [of "unix_nano (eff_hlc eff)"] by (simp add: sample_ok_def effectSample_def int64_defs)

lemma merge_observations_sound:
  assumes "clocks_sound T c" and rng: "range_order rng" and "\<forall>ob \<in> set obs. true_obs T ob"
  shows "\<exists>c'. merge_observations rng obs c = Some c' \<and> clocks_sound T c' \<and> ck_ppm c' = ck_ppm c"
  using assms(1,3)
proof (induction obs arbitrary: c)
  case (Cons ob obs)
  obtain p e where ob: "ob = (p, e)" by (cases ob)
  have t: "sample_ok p" "sample_ok e" "true_at T p \<le> true_at T e"
    using Cons.prems(2) by (simp_all add: ob true_obs_def)
  obtain c1 err where b: "Before rng c p e = Some (c1, err)" "clocks_sound T c1" "ck_ppm c1 = ck_ppm c"
    using Before_sound [OF Cons.prems(1) rng t] by blast
  let ?c = "case err of None \<Rightarrow> c1 | Some _ \<Rightarrow> c"
  have "clocks_sound T ?c" "ck_ppm ?c = ck_ppm c" using b Cons.prems(1) by (simp_all split: option.split)
  then show ?case using Cons.IH [of ?c] Cons.prems(2) b(1) ob by (cases err) auto
qed simp

lemma NewClocks_sound:
  assumes rng: "range_order rng" and "0 \<le> ppm" "ppm < 1000000" and T: "rate_bounded ppm T"
  shows "\<exists>c. NewClocks rng ppm = Some (Inr c) \<and> clocks_sound T c \<and> ck_ppm c = ppm"
proof -
  obtain n where "stn_New rng 0 [] = Some (Inr n)" "net_ok n" "\<forall>\<tau>. solution \<tau> n"
    using stn_New_ok [OF rng, of 0 "[]"] by auto
  then show ?thesis
    using assms(2,3) T by (simp add: NewClocks_def clocks_sound_def clocks_wf_def anchored_def)
qed

text \<open>The engine's evidence is sound for the true times, and the local clock's readings are in range.\<close>

definition evidence_sound :: "true_time \<Rightarrow> temporal_engine \<Rightarrow> bool" where
  "evidence_sound T e \<longleftrightarrow> rate_bounded elapsedClockRatePPM T \<and>
     (\<forall>c. te_current e = Some c \<longrightarrow> clocks_sound T c \<and> ck_ppm c = elapsedClockRatePPM)"

text \<open>An event agrees with the true times: parents precede the effect, which precedes its receipt.\<close>

definition causal_event :: "true_time \<Rightarrow> temporal_engine \<Rightarrow> int \<Rightarrow> effect \<Rightarrow> bool" where
  "causal_event T e now eff \<longleftrightarrow> in_int64 now \<and>
     (\<forall>ref \<in> set (allDeps eff). \<forall>v. fmlookup (te_pool e) ref = Some v \<longrightarrow>
        true_at T (effectSample (vx_eff v)) \<le> true_at T (effectSample eff)) \<and>
     true_at T (effectSample eff) \<le> T (te_nodeID e) now"

lemma publish_sound:
  assumes e: "evidence_sound T e" and rng: "range_order rng" and obs: "\<forall>ob \<in> set obs. true_obs T ob"
  shows "\<exists>e'. publish rng obs e = Some e' \<and> evidence_sound T e' \<and> te_pool e' = te_pool e \<and> te_nodeID e' = te_nodeID e"
proof -
  have rb: "rate_bounded elapsedClockRatePPM T" using e by (simp add: evidence_sound_def)
  obtain c e1 where ce: "clockEvidence rng e = Some (c, e1)" "clocks_sound T c" "ck_ppm c = elapsedClockRatePPM"
    "te_pool e1 = te_pool e" "te_nodeID e1 = te_nodeID e"
    using e NewClocks_sound [OF rng _ _ rb]
    by (cases "te_current e") (auto simp: clockEvidence_def evidence_sound_def elapsedClockRatePPM_def)
  obtain c' where "merge_observations rng obs c = Some c'" "clocks_sound T c'" "ck_ppm c' = ck_ppm c"
    using merge_observations_sound [OF ce(2) rng obs] by blast
  then show ?thesis using e ce rb by (simp add: publish_def evidence_sound_def)
qed

lemma mark_observed_keeps:
  "te_current (mark_observed t w e) = te_current e" "te_nodeID (mark_observed t w e) = te_nodeID e"
  "map_option vx_eff (fmlookup (te_pool (mark_observed t w e)) x) = map_option vx_eff (fmlookup (te_pool e) x)"
  by (simp_all add: mark_observed_def split: option.split)

lemma observeTemporal_sound:
  assumes e: "evidence_sound T e" and rng: "range_order rng" and ev: "causal_event T e now eff"
  shows "\<exists>e'. observeTemporal rng now t eff receipt e = Some e' \<and> evidence_sound T e' \<and> te_nodeID e' = te_nodeID e \<and>
    (\<forall>x. map_option vx_eff (fmlookup (te_pool e') x) = map_option vx_eff (fmlookup (te_pool e) x))"
proof -
  have d: "\<forall>ob \<in> set (fst (dep_observations e eff)). true_obs T ob"
    using ev by (auto simp: dep_observations_def true_obs_def causal_event_def split: option.splits)
  have r: "true_obs T (effectSample eff, \<lparr>sm_Domain = te_nodeID e, sm_Tick = now\<rparr>)"
  proof -
    have "sample_ok \<lparr>sm_Domain = te_nodeID e, sm_Tick = now\<rparr>" using ev by (simp add: sample_ok_def causal_event_def)
    then show ?thesis using ev by (simp add: true_obs_def causal_event_def true_at_def)
  qed
  have ok: "\<exists>e'. publish rng obs e = Some e' \<and> evidence_sound T e' \<and> te_pool e' = te_pool e \<and> te_nodeID e' = te_nodeID e"
    if "set obs \<subseteq> set (fst (dep_observations e eff)) \<union> {(effectSample eff, \<lparr>sm_Domain = te_nodeID e, sm_Tick = now\<rparr>)}" for obs
    using publish_sound [OF e rng, of obs] d r that by blast
  have mark: "evidence_sound T (mark_observed t w e1) = evidence_sound T e1" for w e1
    by (simp add: evidence_sound_def mark_observed_keeps)
  obtain dobs res where dep: "dep_observations e eff = (dobs, res)" by (cases "dep_observations e eff")
  show ?thesis
  proof (cases "observeTemporal rng now t eff receipt e = Some e")
    case True
    then show ?thesis using e by simp
  next
    case False
    then obtain obs w where "observeTemporal rng now t eff receipt e = do { e' \<leftarrow> publish rng obs e; Some (mark_observed t w e') }"
      "set obs \<subseteq> set dobs \<union> {(effectSample eff, \<lparr>sm_Domain = te_nodeID e, sm_Tick = now\<rparr>)}"
      unfolding observeTemporal_def dep by (auto simp: Let_def split: if_splits)
    then show ?thesis using ok [of obs] dep mark mark_observed_keeps by auto
  qed
qed

section \<open>Runs\<close>

text \<open>A sequence of effects arriving at the engine, each with the clock's reading and whether it is
  received or only revisited.\<close>

fun observe_run ::
  "range_fun \<Rightarrow> (int \<times> tip \<times> effect \<times> bool) list \<Rightarrow> temporal_engine \<Rightarrow> temporal_engine option" where
  "observe_run rng [] e = Some e"
| "observe_run rng ((now, t, eff, receipt) # evs) e = do {
     e' \<leftarrow> observeTemporal rng now t eff receipt e;
     observe_run rng evs e'
   }"

lemma causal_event_cong:
  assumes "te_nodeID e' = te_nodeID e"
    and "\<forall>x. map_option vx_eff (fmlookup (te_pool e') x) = map_option vx_eff (fmlookup (te_pool e) x)"
    and "causal_event T e now eff"
  shows "causal_event T e' now eff"
proof -
  have "\<exists>v. fmlookup (te_pool e) ref = Some v \<and> vx_eff v = vx_eff v'" if "fmlookup (te_pool e') ref = Some v'" for ref v'
    using assms(2) [rule_format, of ref] that by (cases "fmlookup (te_pool e) ref") auto
  then show ?thesis using assms(1,3) unfolding causal_event_def by metis
qed

lemma observe_run_sound:
  assumes "evidence_sound T e" and rng: "range_order rng"
    and "\<forall>(now, t, eff, receipt) \<in> set evs. causal_event T e now eff"
  shows "\<exists>e'. observe_run rng evs e = Some e' \<and> evidence_sound T e'"
  using assms(1,3)
proof (induction evs arbitrary: e)
  case (Cons ev evs)
  obtain now t eff receipt where ev: "ev = (now, t, eff, receipt)" by (cases ev)
  obtain e1 where e1: "observeTemporal rng now t eff receipt e = Some e1" "evidence_sound T e1" "te_nodeID e1 = te_nodeID e"
    "\<forall>x. map_option vx_eff (fmlookup (te_pool e1) x) = map_option vx_eff (fmlookup (te_pool e) x)"
    using observeTemporal_sound [OF Cons.prems(1) rng] Cons.prems(2) ev by force
  have "\<forall>(now, t, eff, receipt) \<in> set evs. causal_event T e1 now eff"
    using Cons.prems(2) causal_event_cong [OF e1(3,4)] by auto
  then show ?case using Cons.IH [OF e1(2)] e1(1) ev by auto
qed simp

text \<open>C24: Whatever effects an engine observes, in whatever order, if clocks keep their rate
  bound and causes precede their effects, the interval its evidence gives for any two samples
  contains their true time difference, and the only possible failure is an unrepresentable one.\<close>

theorem clock_intervals_true:
  assumes "range_order rng" and "evidence_sound T e"
    and "\<forall>(now, t, eff, receipt) \<in> set evs. causal_event T e now eff" and "sample_ok a" and "sample_ok b"
  shows "\<exists>e'. observe_run rng evs e = Some e' \<and>
    (case te_current e' of None \<Rightarrow> True
     | Some c \<Rightarrow> (case Difference rng c a b of None \<Rightarrow> False
        | Some (Inl err) \<Rightarrow> err = ErrWeight
        | Some (Inr i) \<Rightarrow> in_interval (true_at T b - true_at T a) i))"
proof -
  obtain e' where e': "observe_run rng evs e = Some e'" "evidence_sound T e'"
    using observe_run_sound [OF assms(2,1,3)] by blast
  show ?thesis
  proof (cases "te_current e'")
    case (Some c)
    then have "clocks_sound T c" using e'(2) by (simp add: evidence_sound_def)
    from Difference_sound [OF this assms(1,4,5)] obtain r where r: "Difference rng c a b = Some r"
      "case r of Inl err \<Rightarrow> err = ErrWeight | Inr i \<Rightarrow> in_interval (true_at T b - true_at T a) i" by blast
    then show ?thesis using e'(1) Some by (cases r) auto
  qed (use e' in simp)
qed

definition ex_effect :: "uint64 \<Rightarrow> int \<Rightarrow> tip list \<Rightarrow> effect" where
  "ex_effect node secs deps = \<lparr>eff_key = ''k'', eff_hlc = Some \<lparr>ts_seconds = secs, ts_nanos = 0\<rparr>, eff_node_id = node,
     eff_deps = deps, eff_txn_id = [], eff_fork_choice_hash = [], eff_virtual = [], eff_kind = None\<rparr>"

definition ex_engine :: temporal_engine where
  "ex_engine = \<lparr>te_nodeID = 3, te_pool = fmap_of_list [(Tip 1 1, \<lparr>vx_eff = ex_effect 1 5 [], vx_temporal = 0\<rparr>)],
     te_current = None\<rparr>"

lemma exact_clock_rate: "rate_bounded elapsedClockRatePPM (\<lambda>d t. real_of_int t)"
proof -
  have "x * 1000000 / real_of_int (1000000 + 1000) \<le> x" "x \<le> x * 1000000 / real_of_int (1000000 - 1000)" if "0 \<le> x" for x :: real
    using that by simp_all
  then show ?thesis by (auto simp: rate_bounded_def elapsedClockRatePPM_def)
qed

theorem clock_intervals_true_witness:
  "\<exists>e'. observe_run key_order [(9000000000, Tip 2 1, ex_effect 2 7 [Tip 1 1], True)] ex_engine = Some e' \<and>
    (case te_current e' of None \<Rightarrow> True
     | Some c \<Rightarrow> (case Difference key_order c \<lparr>sm_Domain = 1, sm_Tick = 5000000000\<rparr> \<lparr>sm_Domain = 2, sm_Tick = 7000000000\<rparr> of
          None \<Rightarrow> False
        | Some (Inl err) \<Rightarrow> err = ErrWeight
        | Some (Inr i) \<Rightarrow> in_interval 2000000000 i))"
proof -
  let ?T = "\<lambda>d t. real_of_int t" and ?evs = "[(9000000000, Tip 2 1, ex_effect 2 7 [Tip 1 1], True)]"
  let ?a = "\<lparr>sm_Domain = 1, sm_Tick = 5000000000\<rparr>" and ?b = "\<lparr>sm_Domain = 2, sm_Tick = 7000000000\<rparr>"
  have ev: "evidence_sound ?T ex_engine" using exact_clock_rate by (simp add: evidence_sound_def ex_engine_def)
  have "true_at ?T (effectSample (ex_effect 1 5 [])) = 5000000000" "true_at ?T (effectSample (ex_effect 2 7 [Tip 1 1])) = 7000000000"
    by (simp_all add: true_at_def effectSample_def ex_effect_def unix_nano_def)
  then have "causal_event ?T ex_engine 9000000000 (ex_effect 2 7 [Tip 1 1])"
    by (simp add: causal_event_def ex_engine_def allDeps_def bind_keys_def GetTxnBind_def int64_defs ex_effect_def
        fmlookup_of_list)
  then have ce: "\<forall>(now, t, eff, receipt) \<in> set ?evs. causal_event ?T ex_engine now eff" by simp
  have eq: "true_at ?T ?b - true_at ?T ?a = 2000000000" by (simp add: true_at_def)
  have ok: "sample_ok ?a" "sample_ok ?b" by (simp_all add: sample_ok_def int64_defs)
  show ?thesis using clock_intervals_true [OF key_order ev ce ok] unfolding eq .
qed

section \<open>Concurrent writers lose no evidence\<close>

definition evolves :: "range_fun \<Rightarrow> clocks \<Rightarrow> clocks \<Rightarrow> bool" where
  "evolves rng = (\<lambda>c c'. \<exists>obs. merge_observations rng obs c = Some c')\<^sup>*\<^sup>*"

lemma evolves_refl [simp]: "evolves rng c c"
  by (simp add: evolves_def)

lemma evolves_trans: "evolves rng a b \<Longrightarrow> evolves rng b c \<Longrightarrow> evolves rng a c"
  by (simp add: evolves_def)

lemma evolves_merge: "merge_observations rng obs c = Some c' \<Longrightarrow> evolves rng c c'"
  unfolding evolves_def by (rule r_into_rtranclp) blast

text \<open>What a writer knows: its base is a published version, older than or equal to the current one; a
  finished writer's observations were merged into a version the current one evolved from.\<close>

definition writer_ok :: "range_fun \<Rightarrow> clocks \<Rightarrow> version \<Rightarrow> nat \<Rightarrow> merge_writer \<Rightarrow> observation list \<Rightarrow> bool" where
  "writer_ok rng c0 cur fresh w obs \<longleftrightarrow>
     (case w of
        Replaying base ob \<Rightarrow> ob = obs \<and> fst base < fresh \<and> evolves rng c0 (snd base) \<and> evolves rng (snd base) (snd cur) \<and>
          (fst base = fst cur \<longrightarrow> snd base = snd cur)
      | Swapping base c ob \<Rightarrow> ob = obs \<and> fst base < fresh \<and> evolves rng c0 (snd base) \<and> evolves rng (snd base) (snd cur) \<and>
          (fst base = fst cur \<longrightarrow> snd base = snd cur) \<and> merge_observations rng obs (snd base) = Some c
      | Merged ob \<Rightarrow> ob = obs \<and>
          (\<exists>v c. evolves rng c0 v \<and> merge_observations rng obs v = Some c \<and> evolves rng c (snd cur)))"

definition merge_inv :: "range_fun \<Rightarrow> clocks \<Rightarrow> observation list list \<Rightarrow> merge_state \<Rightarrow> bool" where
  "merge_inv rng c0 obss s \<longleftrightarrow> length (ms_writers s) = length obss \<and> fst (ms_current s) < ms_fresh s \<and>
     evolves rng c0 (snd (ms_current s)) \<and>
     (\<forall>i < length obss. writer_ok rng c0 (ms_current s) (ms_fresh s) (ms_writers s ! i) (obss ! i))"

lemma merge_invD:
  assumes "merge_inv rng c0 obss s"
  shows "length (ms_writers s) = length obss" "fst (ms_current s) < ms_fresh s" "evolves rng c0 (snd (ms_current s))"
    "i < length obss \<Longrightarrow> writer_ok rng c0 (ms_current s) (ms_fresh s) (ms_writers s ! i) (obss ! i)"
  using assms by (simp_all add: merge_inv_def)

text \<open>Replacing one writer's state while the current version stays.\<close>

lemma merge_inv_writer:
  assumes "merge_inv rng c0 obss s" and "writer_ok rng c0 (ms_current s) (ms_fresh s) w (obss ! i)"
  shows "merge_inv rng c0 obss (s\<lparr>ms_writers := (ms_writers s)[i := w]\<rparr>)"
  using assms by (auto simp: merge_inv_def nth_upd)

lemma writer_ok_publish:
  assumes "writer_ok rng c0 cur fresh w obs" and "evolves rng (snd cur) c" and "fst cur < fresh"
  shows "writer_ok rng c0 (fresh, c) (Suc fresh) w obs"
  using assms evolves_trans [OF _ assms(2)]
  by (cases w) (auto simp: writer_ok_def)

lemma merge_step_inv:
  assumes step: "merge_step rng s s'" and inv: "merge_inv rng c0 obss s"
  shows "merge_inv rng c0 obss s'"
  using step
proof cases
  case (nothing_new i base obs)
  have "writer_ok rng c0 (ms_current s) (ms_fresh s) (Replaying base obs) (obss ! i)"
    using merge_invD(1,4) [OF inv] nothing_new by metis
  then have "writer_ok rng c0 (ms_current s) (ms_fresh s) (Merged obs) (obss ! i)"
    using nothing_new by (auto simp: writer_ok_def)
  then show ?thesis using merge_inv_writer [OF inv] nothing_new by simp
next
  case (replayed i base obs c)
  have "writer_ok rng c0 (ms_current s) (ms_fresh s) (Replaying base obs) (obss ! i)"
    using merge_invD(1,4) [OF inv] replayed by metis
  then have "writer_ok rng c0 (ms_current s) (ms_fresh s) (Swapping base c obs) (obss ! i)"
    using replayed by (simp add: writer_ok_def)
  then show ?thesis using merge_inv_writer [OF inv] replayed by simp
next
  case (swapped i base c obs)
  have w: "writer_ok rng c0 (ms_current s) (ms_fresh s) (Swapping base c obs) (obss ! i)"
    using merge_invD(1,4) [OF inv] swapped by metis
  then have b: "snd base = snd (ms_current s)" "merge_observations rng (obss ! i) (snd (ms_current s)) = Some c" "obs = obss ! i"
    using swapped by (auto simp: writer_ok_def)
  have ev: "evolves rng (snd (ms_current s)) c" by (rule evolves_merge [OF b(2)])
  have "writer_ok rng c0 (ms_fresh s, c) (Suc (ms_fresh s)) (Merged obs) (obss ! i)"
    using b merge_invD(3) [OF inv] by (auto simp: writer_ok_def)
  moreover have "writer_ok rng c0 (ms_fresh s, c) (Suc (ms_fresh s)) (ms_writers s ! j) (obss ! j)" if "j < length obss" for j
    using writer_ok_publish [OF merge_invD(4) [OF inv that] ev merge_invD(2) [OF inv]] .
  ultimately show ?thesis
    using swapped merge_invD(1) [OF inv] evolves_trans [OF merge_invD(3) [OF inv] ev]
    by (auto simp: merge_inv_def nth_list_update)
next
  case (swap_failed i base c obs)
  have "writer_ok rng c0 (ms_current s) (ms_fresh s) (Swapping base c obs) (obss ! i)"
    using merge_invD(1,4) [OF inv] swap_failed by metis
  then have "writer_ok rng c0 (ms_current s) (ms_fresh s) (Replaying (ms_current s) obs) (obss ! i)"
    using merge_invD(2,3) [OF inv] by (simp add: writer_ok_def)
  then show ?thesis using merge_inv_writer [OF inv] swap_failed by simp
qed

text \<open>C25: However concurrent \<open>merge\<close> calls interleave, every finished call's observations were
  applied, as one uninterrupted replay, to a published version from which the current version was
  reached by further merges: no writer overwrites another's constraints.\<close>

theorem merge_keeps_evidence:
  assumes "(merge_step rng)\<^sup>*\<^sup>* (merge_start c0 obss) s" and "i < length obss" and "ms_writers s ! i = Merged obs"
  shows "obs = obss ! i \<and>
    (\<exists>v c. evolves rng c0 v \<and> merge_observations rng obs v = Some c \<and> evolves rng c (snd (ms_current s)))"
proof -
  have "merge_inv rng c0 obss s"
    using assms(1)
  proof (induction rule: rtranclp_induct)
    case base
    show ?case by (auto simp: merge_inv_def merge_start_def writer_ok_def)
  qed (use merge_step_inv in blast)
  from merge_invD(4) [OF this assms(2)] show ?thesis unfolding assms(3) by (auto simp: writer_ok_def)
qed

theorem merge_keeps_evidence_witness:
  "\<exists>s c1 ob. (merge_step key_order)\<^sup>*\<^sup>* (merge_start c1 [[ob]]) s \<and> ms_writers s ! 0 = Merged [ob] \<and>
     (\<exists>v c. evolves key_order c1 v \<and> merge_observations key_order [ob] v = Some c \<and> evolves key_order c (snd (ms_current s)))"
proof -
  let ?c = "\<lparr>ck_network = ex_path, ck_anchors = fmempty, ck_ppm = 1000\<rparr>"
  let ?ob = "(\<lparr>sm_Domain = 1, sm_Tick = 5\<rparr>, \<lparr>sm_Domain = 1, sm_Tick = 7\<rparr>)"
  let ?s = "(merge_start ?c [[?ob]])\<lparr>ms_writers := [Merged [?ob]]\<rparr>"
  have "merge_observations key_order [?ob] ?c = Some ?c" by (simp add: Before_def)
  then have "merge_step key_order (merge_start ?c [[?ob]]) ?s"
    using merge_step.nothing_new [of 0 "merge_start ?c [[?ob]]" "(0, ?c)" "[?ob]" key_order] by (simp add: merge_start_def)
  then have r: "(merge_step key_order)\<^sup>*\<^sup>* (merge_start ?c [[?ob]]) ?s" by (rule r_into_rtranclp)
  have w: "ms_writers ?s ! 0 = Merged [?ob]" by simp
  have "0 < length [[?ob]]" by simp
  from merge_keeps_evidence [OF r this w] r w show ?thesis by blast
qed

end
