(* ===== verification/Mvcc.thy ===== *)
theory Mvcc
  imports Temporal Dag_Collect Stack_Walk
begin

text \<open>
  Transaction snapshots (effects/transaction_snapshot.go) and historical frontiers
  (effects/historical.go): which effects belong to the state a transaction reads. Membership is
  decided from clock intervals and dependencies, memoised, and shared by every key. Cancellation of
  the context, which only ends a call early with an error, is not modelled.

  The views of a snapshot are kept as the frontier and anchors of each frozen key, the only parts
  membership looks at. A decision survives a later error, so results are paired with the state.
\<close>

section \<open>The model\<close>

record transactionSnapshot =
  ts_at :: sample
  ts_clocks :: clocks
  ts_views :: "(bytes, tip list \<times> tip list) fmap"
  ts_decided :: "(tip, bool) fmap"
  ts_ambiguous :: nat

datatype mvcc_error = NotResident tip | CyclicHistory tip | ClockInterval tip stn_error

lemma prepare_from_log:
  assumes "prepare elog d tips = Inr d'"
  shows "from_log elog (dg_nodes d')"
proof (rule prepare_Inr [OF assms])
  fix nodes c
  assume b: "bfs_result elog (dg_key d) tips nodes c"
    and n: "dg_nodes d' = dg_nodes (trimAncestorsOfLCA (d\<lparr>dg_nodes := nodes, dg_lcaTip := c, dg_topoOrder := []\<rparr>))"
  have "fmlookup nodes t = Some e" if "fmlookup (dg_nodes d') t = Some e" for t e
    using that unfolding n by (auto simp: trimAncestorsOfLCA_def split: option.splits if_splits dest: trim_loop_le)
  then show ?thesis using b by (auto simp: bfs_result_def from_log_def)
qed

text \<open>The snapshots among the collected nodes that were not seen before; \<open>rngn\<close> is the order in which the
  node map is visited.\<close>

definition unseen_snapshots :: "(store \<Rightarrow> tip list) \<Rightarrow> store \<Rightarrow> tip set \<Rightarrow> tip list" where
  "unseen_snapshots rngn nodes known =
     filter (\<lambda>t. case fmlookup nodes t of None \<Rightarrow> False | Some eff \<Rightarrow> GetSnapshot eff \<noteq> None \<and> t \<notin> known) (rngn nodes)"

function contains_loop ::
  "(store \<Rightarrow> tip list) \<Rightarrow> store \<Rightarrow> bytes \<Rightarrow> tip \<Rightarrow> tip list \<Rightarrow> tip set \<Rightarrow> mvcc_error + bool" where
  "contains_loop rngn elog key target frontier known =
     (if frontier = [] then Inr False
      else case prepare elog (newDag key []) frontier of
        Inl t \<Rightarrow> Inl (NotResident t)
      | Inr d \<Rightarrow>
          if fmlookup (dg_nodes d) target \<noteq> None then Inr True
          else let fresh = unseen_snapshots rngn (dg_nodes d) known in
            contains_loop rngn elog key target (concat (map (\<lambda>t. eff_deps (node_at (dg_nodes d) t)) fresh)) (known \<union> set fresh))"
  by pat_completeness auto
termination
proof (relation "inv_image (less_than <*lex*> less_than)
    (\<lambda>(rngn, elog, key, target, frontier, known). (card (fset (fmdom elog) - known), length frontier))", goal_cases)
  case 1
  show ?case by (intro wf_inv_image wf_lex_prod wf_less_than)
next
  case (2 rngn elog key target frontier known d fresh)
  then have fresh: "fresh = unseen_snapshots rngn (dg_nodes d) known" and log: "from_log elog (dg_nodes d)"
    using prepare_from_log by simp_all
  show ?case
  proof (cases "fresh = []")
    case True
    then show ?thesis using 2(1) by simp
  next
    case False
    then obtain t where "t \<in> set fresh" by (meson list.set_sel(1))
    then have t: "t \<notin> known" "t \<in> fset (fmdom elog)"
      using log unfolding fresh by (auto simp: unseen_snapshots_def from_log_def fmlookup_dom_iff split: option.splits)
    then have "fset (fmdom elog) - (known \<union> set fresh) \<subset> fset (fmdom elog) - known" using \<open>t \<in> set fresh\<close> by blast
    then show ?thesis by (simp add: psubset_card_mono)
  qed
qed

declare contains_loop.simps [simp del]

definition ts_contains :: "(store \<Rightarrow> tip list) \<Rightarrow> store \<Rightarrow> transactionSnapshot \<Rightarrow> bytes \<Rightarrow> tip \<Rightarrow> mvcc_error + bool" where
  "ts_contains rngn elog s key target =
     (case fmlookup (ts_views s) key of
        None \<Rightarrow> Inr False
      | Some (resolved, anchors) \<Rightarrow> contains_loop rngn elog key target (resolved @ anchors) {})"

definition effect_keys :: "effect \<Rightarrow> bytes list" where
  "effect_keys eff = (case GetTxnBind eff of Some b \<Rightarrow> map kb_key (tb_keys b) | None \<Rightarrow> [eff_key eff])"

text \<open>The loop over the keys: a decision by a frozen key, or none if no key is frozen.\<close>

fun frozen_choice ::
  "(store \<Rightarrow> tip list) \<Rightarrow> store \<Rightarrow> transactionSnapshot \<Rightarrow> tip \<Rightarrow> bytes list \<Rightarrow> bool \<Rightarrow> mvcc_error + bool option" where
  "frozen_choice rngn elog s t [] knownPast = Inr (if knownPast then Some True else None)"
| "frozen_choice rngn elog s t (key # keys) knownPast =
     (if fmlookup (ts_views s) key = None then frozen_choice rngn elog s t keys knownPast
      else case ts_contains rngn elog s key t of
        Inl err \<Rightarrow> Inl err
      | Inr included \<Rightarrow> if \<not> included then Inr (Some False) else frozen_choice rngn elog s t keys True)"

definition ts_choose :: "tip \<Rightarrow> bool \<Rightarrow> transactionSnapshot \<Rightarrow> transactionSnapshot" where
  "ts_choose t include s = s\<lparr>ts_decided := fmupd t include (ts_decided s)\<rparr>"

type_synonym member_result = "((mvcc_error + bool) \<times> transactionSnapshot) option"

function (sequential) ts_member ::
    "range_fun \<Rightarrow> (store \<Rightarrow> tip list) \<Rightarrow> store \<Rightarrow> tip \<Rightarrow> effect \<Rightarrow> tip set \<Rightarrow> transactionSnapshot \<Rightarrow> member_result"
  and member_deps ::
    "range_fun \<Rightarrow> (store \<Rightarrow> tip list) \<Rightarrow> store \<Rightarrow> tip list \<Rightarrow> tip set \<Rightarrow> transactionSnapshot \<Rightarrow> member_result" where
  "ts_member rng rngn elog t eff visiting s =
     (case fmlookup (ts_decided s) t of
        Some chosen \<Rightarrow> Some (Inr chosen, s)
      | None \<Rightarrow>
          if t \<in> visiting then Some (Inl (CyclicHistory t), s)
          else case frozen_choice rngn elog s t (effect_keys eff) False of
            Inl err \<Rightarrow> Some (Inl err, s)
          | Inr (Some include) \<Rightarrow> Some (Inr include, ts_choose t include s)
          | Inr None \<Rightarrow> do {
              i \<leftarrow> Difference rng (ts_clocks s) (ts_at s) (effectSample eff);
              case i of
                Inl err \<Rightarrow> Some (Inl (ClockInterval t err), s)
              | Inr (lo, hi) \<Rightarrow>
                  if lo > 0 then Some (Inr False, ts_choose t False s)
                  else if state_snapshot eff \<and> hi \<le> 0 \<and> fm_is_empty (ts_views s) then Some (Inr True, ts_choose t True s)
                  else do {
                    r \<leftarrow> member_deps rng rngn elog (allDeps eff) (insert t visiting) s;
                    case r of
                      (Inl err, s1) \<Rightarrow> Some (Inl err, s1)
                    | (Inr False, s1) \<Rightarrow> Some (Inr False, ts_choose t False s1)
                    | (Inr True, s1) \<Rightarrow>
                        Some (Inr True, ts_choose t True (if hi \<le> 0 then s1 else s1\<lparr>ts_ambiguous := ts_ambiguous s1 + 1\<rparr>))
                  }
            })"
| "member_deps rng rngn elog [] visiting s = Some (Inr True, s)"
| "member_deps rng rngn elog (ref # refs) visiting s =
     (case fmlookup elog ref of
        None \<Rightarrow> Some (Inl (NotResident ref), s)
      | Some parent \<Rightarrow> do {
          r \<leftarrow> ts_member rng rngn elog ref parent visiting s;
          case r of
            (Inl err, s1) \<Rightarrow> Some (Inl err, s1)
          | (Inr False, s1) \<Rightarrow> Some (Inr False, s1)
          | (Inr True, s1) \<Rightarrow> member_deps rng rngn elog refs visiting s1
        })"
  by pat_completeness auto

definition member_measure :: "store \<Rightarrow> tip set \<Rightarrow> nat" where
  "member_measure elog visiting = 2 * card (fset (fmdom elog) - visiting)"

lemma member_measure_insert:
  assumes "t \<notin> visiting"
  shows "member_measure elog (insert t visiting) < member_measure elog visiting + (if fmlookup elog t = None then 1 else 0)"
proof (cases "fmlookup elog t")
  case None
  then have "fset (fmdom elog) - insert t visiting = fset (fmdom elog) - visiting" by (auto simp: fmlookup_dom_iff)
  then show ?thesis using None by (simp add: member_measure_def)
next
  case (Some e)
  then have "t \<in> fset (fmdom elog) - visiting" using assms by (simp add: fmlookup_dom_iff)
  moreover have "fset (fmdom elog) - insert t visiting = fset (fmdom elog) - visiting - {t}" by blast
  ultimately have "card (fset (fmdom elog) - insert t visiting) < card (fset (fmdom elog) - visiting)"
    by (simp only: card_Diff1_less finite_Diff finite_fset)
  then show ?thesis using Some by (simp add: member_measure_def)
qed

termination ts_member
proof (relation "inv_image (less_than <*lex*> less_than)
    (\<lambda>x. case x of
        Inl (rng, rngn, elog, t, eff, visiting, s) \<Rightarrow>
          (member_measure elog visiting + (if fmlookup elog t = None then 1 else 0), 0)
      | Inr (rng, rngn, elog, refs, visiting, s) \<Rightarrow> (member_measure elog visiting, Suc (length refs)))", goal_cases)
  case 1
  show ?case by (intro wf_inv_image wf_lex_prod wf_less_than)
next
  case (2 rng rngn elog t eff visiting s)
  show ?case using member_measure_insert [OF 2(2), of elog] by simp
next
  case (3 rng rngn elog ref refs visiting s)
  show ?case using 3 by simp
next
  case (4 rng rngn elog ref refs visiting s)
  show ?case by simp
qed

declare ts_member.simps [simp del]

section \<open>The cut\<close>

definition touches_frozen :: "transactionSnapshot \<Rightarrow> effect \<Rightarrow> bool" where
  "touches_frozen s eff \<longleftrightarrow> (\<exists>k \<in> set (effect_keys eff). fmlookup (ts_views s) k \<noteq> None)"

lemma frozen_choice_untouched:
  assumes "\<forall>k \<in> set keys. fmlookup (ts_views s) k = None"
  shows "frozen_choice rngn elog s t keys b = Inr (if b then Some True else None)"
  using assms by (induction keys) auto

lemma frozen_choice_touched:
  assumes "frozen_choice rngn elog s t (effect_keys eff) False = Inr (Some include)"
  shows "touches_frozen s eff"
proof (rule ccontr)
  assume "\<not> touches_frozen s eff"
  then have "\<forall>k \<in> set (effect_keys eff). fmlookup (ts_views s) k = None" unfolding touches_frozen_def by blast
  from frozen_choice_untouched [OF this] show False using assms by simp
qed

definition extends_cut :: "transactionSnapshot \<Rightarrow> transactionSnapshot \<Rightarrow> bool" where
  "extends_cut s s' \<longleftrightarrow> ts_at s' = ts_at s \<and> ts_clocks s' = ts_clocks s \<and> ts_views s' = ts_views s \<and>
     (\<forall>t b. fmlookup (ts_decided s) t = Some b \<longrightarrow> fmlookup (ts_decided s') t = Some b)"

lemma extends_cut_refl [simp]: "extends_cut s s"
  by (simp add: extends_cut_def)

lemma extends_cut_trans: "extends_cut a b \<Longrightarrow> extends_cut b c \<Longrightarrow> extends_cut a c"
  by (simp add: extends_cut_def)

lemma extends_choose: "fmlookup (ts_decided s) t = None \<Longrightarrow> extends_cut s (ts_choose t b s)"
  by (auto simp: extends_cut_def ts_choose_def)

lemma extends_ambiguous [simp]: "extends_cut s (s\<lparr>ts_ambiguous := n\<rparr>)"
  by (simp add: extends_cut_def)

lemma decided_choose [simp]:
  "fmlookup (ts_decided (ts_choose t b s)) x = (if x = t then Some b else fmlookup (ts_decided s) x)"
  by (simp add: ts_choose_def)

text \<open>Dependency paths in the log.\<close>

definition depends :: "store \<Rightarrow> tip \<Rightarrow> tip \<Rightarrow> bool" where
  "depends elog t d \<longleftrightarrow> (\<exists>eff. fmlookup elog t = Some eff \<and> d \<in> set (allDeps eff))"

text \<open>Reasons for a decision: an included effect is a state snapshot, was placed by a frozen key, or has
  all its dependencies included; an excluded one has an ancestor that truly lies after the boundary
  or was placed by a frozen key.\<close>

definition included_ok :: "store \<Rightarrow> transactionSnapshot \<Rightarrow> effect \<Rightarrow> bool" where
  "included_ok elog s eff \<longleftrightarrow> state_snapshot eff \<or> touches_frozen s eff \<or>
     (\<forall>d \<in> set (allDeps eff). fmlookup (ts_decided s) d = Some True)"

definition excluded_ok :: "true_time \<Rightarrow> store \<Rightarrow> transactionSnapshot \<Rightarrow> tip \<Rightarrow> bool" where
  "excluded_ok T elog s t \<longleftrightarrow> (\<exists>a eff. (depends elog)\<^sup>*\<^sup>* t a \<and> fmlookup elog a = Some eff \<and>
     (true_at T (ts_at s) < true_at T (effectSample eff) \<or> touches_frozen s eff))"

definition cut_ok :: "true_time \<Rightarrow> store \<Rightarrow> transactionSnapshot \<Rightarrow> bool" where
  "cut_ok T elog s \<longleftrightarrow> clocks_sound T (ts_clocks s) \<and> sample_ok (ts_at s) \<and>
     (\<forall>t eff. fmlookup (ts_decided s) t = Some True \<longrightarrow> fmlookup elog t = Some eff \<longrightarrow> included_ok elog s eff) \<and>
     (\<forall>t. fmlookup (ts_decided s) t = Some False \<longrightarrow> fmlookup elog t \<noteq> None \<longrightarrow> excluded_ok T elog s t)"

lemma included_ok_mono: "extends_cut s s' \<Longrightarrow> included_ok elog s eff \<Longrightarrow> included_ok elog s' eff"
  by (auto simp: extends_cut_def included_ok_def touches_frozen_def)

lemma excluded_ok_cong: "extends_cut s s' \<Longrightarrow> excluded_ok T elog s' t = excluded_ok T elog s t"
  by (simp add: extends_cut_def excluded_ok_def touches_frozen_def)

lemma cut_ok_choose:
  assumes ok: "cut_ok T elog s" and new: "fmlookup (ts_decided s) t = None" and eff: "fmlookup elog t = Some eff"
    and why: "if b then included_ok elog s eff else excluded_ok T elog s t"
  shows "cut_ok T elog (ts_choose t b s)"
proof -
  have e: "extends_cut s (ts_choose t b s)" by (rule extends_choose [OF new])
  then have same: "ts_clocks (ts_choose t b s) = ts_clocks s" "ts_at (ts_choose t b s) = ts_at s" by (simp_all add: extends_cut_def)
  have "included_ok elog (ts_choose t b s) x" if "fmlookup (ts_decided (ts_choose t b s)) u = Some True" "fmlookup elog u = Some x" for u x
    using ok why eff that included_ok_mono [OF e] by (auto simp: cut_ok_def split: if_splits)
  moreover have "excluded_ok T elog (ts_choose t b s) u"
    if "fmlookup (ts_decided (ts_choose t b s)) u = Some False" "fmlookup elog u \<noteq> None" for u
    using ok why that unfolding excluded_ok_cong [OF e] by (auto simp: cut_ok_def split: if_splits)
  ultimately show ?thesis using ok unfolding cut_ok_def same by blast
qed

lemma cut_ok_ambiguous: "cut_ok T elog s \<Longrightarrow> cut_ok T elog (s\<lparr>ts_ambiguous := n\<rparr>)"
  by (simp add: cut_ok_def included_ok_def excluded_ok_def touches_frozen_def)

text \<open>What a membership query promises; \<open>visiting\<close> is left undecided.\<close>

definition member_ok ::
  "true_time \<Rightarrow> store \<Rightarrow> tip set \<Rightarrow> transactionSnapshot \<Rightarrow> member_result \<Rightarrow>
    (bool \<Rightarrow> transactionSnapshot \<Rightarrow> bool) \<Rightarrow> bool" where
  "member_ok T elog visiting s res Q \<longleftrightarrow> (\<exists>r s'. res = Some (r, s') \<and> extends_cut s s' \<and> cut_ok T elog s' \<and>
     (\<forall>x \<in> visiting. fmlookup (ts_decided s') x = fmlookup (ts_decided s) x) \<and> (\<forall>b. r = Inr b \<longrightarrow> Q b s'))"

lemma member_okI:
  "extends_cut s s' \<Longrightarrow> cut_ok T elog s' \<Longrightarrow> (\<And>x. x \<in> visiting \<Longrightarrow> fmlookup (ts_decided s') x = fmlookup (ts_decided s) x) \<Longrightarrow>
    (\<And>b. r = Inr b \<Longrightarrow> Q b s') \<Longrightarrow> member_ok T elog visiting s (Some (r, s')) Q"
  by (simp add: member_ok_def)

lemma member_ok_choose:
  assumes "cut_ok T elog s1" and "extends_cut s s1" and "fmlookup (ts_decided s1) t = None" and "fmlookup elog t = Some eff"
    and "t \<notin> visiting" and "\<forall>x \<in> visiting. fmlookup (ts_decided s1) x = fmlookup (ts_decided s) x"
    and "if b then included_ok elog s1 eff else excluded_ok T elog s1 t"
  shows "member_ok T elog visiting s (Some (Inr b, ts_choose t b s1)) (\<lambda>b s'. fmlookup (ts_decided s') t = Some b)"
  using assms(6) assms(5) by (intro member_okI extends_cut_trans [OF assms(2) extends_choose [OF assms(3)]]
      cut_ok_choose [OF assms(1,3,4,7)]) auto

definition deps_result :: "store \<Rightarrow> tip list \<Rightarrow> bool \<Rightarrow> transactionSnapshot \<Rightarrow> bool" where
  "deps_result elog refs b s \<longleftrightarrow>
     (if b then \<forall>d \<in> set refs. fmlookup (ts_decided s) d = Some True
      else \<exists>d \<in> set refs. fmlookup elog d \<noteq> None \<and> fmlookup (ts_decided s) d = Some False)"

lemma late_interval:
  assumes "in_interval x (lo, hi)" and "lo > 0"
  shows "0 < x"
proof -
  have "lo \<noteq> - Infinity" using assms(2) by (auto simp: Infinity_def int64_defs)
  then show ?thesis using assms by (simp add: in_interval_def)
qed

lemma member_after_deps:
  assumes m: "member_ok T elog (insert t visiting) s (Some (rb, s1)) (deps_result elog (allDeps eff))"
    and new: "fmlookup (ts_decided s) t = None" and eff: "fmlookup elog t = Some eff" and out: "t \<notin> visiting"
  shows "member_ok T elog visiting s
    (case rb of Inl err \<Rightarrow> Some (Inl err, s1)
     | Inr False \<Rightarrow> Some (Inr False, ts_choose t False s1)
     | Inr True \<Rightarrow> Some (Inr True, ts_choose t True (if early then s1 else s1\<lparr>ts_ambiguous := ts_ambiguous s1 + 1\<rparr>)))
    (\<lambda>b s'. fmlookup (ts_decided s') t = Some b)"
proof -
  have e: "extends_cut s s1" "cut_ok T elog s1" "\<forall>x \<in> insert t visiting. fmlookup (ts_decided s1) x = fmlookup (ts_decided s) x"
    "\<And>b. rb = Inr b \<Longrightarrow> deps_result elog (allDeps eff) b s1"
    using m by (auto simp: member_ok_def)
  define s2 where "s2 = (if early then s1 else s1\<lparr>ts_ambiguous := ts_ambiguous s1 + 1\<rparr>)"
  have s2: "cut_ok T elog s2" "extends_cut s s2" "ts_decided s2 = ts_decided s1"
    using e extends_cut_trans [OF e(1)] cut_ok_ambiguous by (auto simp: s2_def)
  have "included_ok elog s2 eff" if "rb = Inr True"
    using e(4) [OF that] s2(3) by (simp add: included_ok_def deps_result_def)
  then have incl: "member_ok T elog visiting s (Some (Inr True, ts_choose t True s2)) (\<lambda>b s'. fmlookup (ts_decided s') t = Some b)"
    if "rb = Inr True"
    using that e(3) s2 new by (intro member_ok_choose [OF s2(1,2) _ eff out]) simp_all
  have "excluded_ok T elog s1 t" if rb: "rb = Inr False"
  proof -
    obtain d where d: "d \<in> set (allDeps eff)" "fmlookup elog d \<noteq> None" "fmlookup (ts_decided s1) d = Some False"
      using e(4) [OF rb] by (auto simp: deps_result_def)
    then obtain a x where "(depends elog)\<^sup>*\<^sup>* d a" "fmlookup elog a = Some x"
      "true_at T (ts_at s1) < true_at T (effectSample x) \<or> touches_frozen s1 x"
      using e(2) unfolding cut_ok_def excluded_ok_def by blast
    moreover have "depends elog t d" using eff d(1) by (auto simp: depends_def)
    ultimately show ?thesis unfolding excluded_ok_def by (meson converse_rtranclp_into_rtranclp)
  qed
  then have excl: "member_ok T elog visiting s (Some (Inr False, ts_choose t False s1)) (\<lambda>b s'. fmlookup (ts_decided s') t = Some b)"
    if "rb = Inr False"
    using that e(3) new by (intro member_ok_choose [OF e(2,1) _ eff out]) simp_all
  have "member_ok T elog visiting s (Some (Inl err, s1)) Q" for err Q
    using e by (intro member_okI) auto
  then show ?thesis using incl excl unfolding s2_def by (auto split: sum.split bool.split)
qed

text \<open>One query, given what the query of its dependencies promises.\<close>

lemma member_step:
  assumes rng: "range_order rng" and eff: "fmlookup elog t = Some eff" and ok: "cut_ok T elog s"
    and deps: "\<And>i x lo hi. fmlookup (ts_decided s) t = None \<Longrightarrow> t \<notin> visiting \<Longrightarrow>
      frozen_choice rngn elog s t (effect_keys eff) False = Inr None \<Longrightarrow>
      Difference rng (ts_clocks s) (ts_at s) (effectSample eff) = Some (Inr (lo, hi)) \<Longrightarrow> \<not> lo > 0 \<Longrightarrow>
      \<not> (state_snapshot eff \<and> hi \<le> 0 \<and> fm_is_empty (ts_views s)) \<Longrightarrow>
      member_ok T elog (insert t visiting) s (member_deps rng rngn elog (allDeps eff) (insert t visiting) s)
        (deps_result elog (allDeps eff))"
  shows "member_ok T elog visiting s (ts_member rng rngn elog t eff visiting s) (\<lambda>b s'. fmlookup (ts_decided s') t = Some b)"
proof -
  let ?fc = "frozen_choice rngn elog s t (effect_keys eff) False"
  have stop: "member_ok T elog visiting s (Some (Inl err, s)) Q" for err Q using ok by (intro member_okI) auto
  have cs: "clocks_sound T (ts_clocks s)" "sample_ok (ts_at s)" using ok by (simp_all add: cut_ok_def)
  obtain i where i: "Difference rng (ts_clocks s) (ts_at s) (effectSample eff) = Some i"
    "case i of Inl err \<Rightarrow> err = ErrWeight | Inr x \<Rightarrow> in_interval (true_at T (effectSample eff) - true_at T (ts_at s)) x"
    using Difference_sound [OF cs(1) rng cs(2) effectSample_ok] by blast
  consider (decided) b where "fmlookup (ts_decided s) t = Some b"
    | (undecided) "fmlookup (ts_decided s) t = None" "t \<in> visiting \<or> (\<exists>err. ?fc = Inl err) \<or> ?fc = Inr None \<and> (\<exists>err. i = Inl err)"
    | (frozen) b where "fmlookup (ts_decided s) t = None" "t \<notin> visiting" "?fc = Inr (Some b)"
    | (unfrozen) lo hi where "fmlookup (ts_decided s) t = None" "t \<notin> visiting" "?fc = Inr None" "i = Inr (lo, hi)"
    by (metis old.sum.exhaust option.exhaust surj_pair)
  then show ?thesis
  proof cases
    case decided
    then show ?thesis using ok by (subst ts_member.simps) (auto intro!: member_okI)
  next
    case undecided
    then show ?thesis using i(1) stop by (subst ts_member.simps) (auto split: sum.split)
  next
    case (frozen b)
    have "touches_frozen s eff" using frozen_choice_touched frozen(3) by blast
    then have "if b then included_ok elog s eff else excluded_ok T elog s t"
      using eff by (auto simp: included_ok_def excluded_ok_def)
    from member_ok_choose [OF ok extends_cut_refl frozen(1) eff frozen(2) _ this] show ?thesis
      using frozen by (subst ts_member.simps) simp
  next
    case (unfrozen lo hi)
    note self = member_ok_choose [OF ok extends_cut_refl unfrozen(1) eff unfrozen(2)]
    consider "lo > 0" | "\<not> lo > 0" "state_snapshot eff \<and> hi \<le> 0 \<and> fm_is_empty (ts_views s)"
      | "\<not> lo > 0" "\<not> (state_snapshot eff \<and> hi \<le> 0 \<and> fm_is_empty (ts_views s))" by blast
    then show ?thesis
    proof cases
      case 1
      have "excluded_ok T elog s t"
        using late_interval [OF _ 1, of "true_at T (effectSample eff) - true_at T (ts_at s)" hi] i(2) unfrozen(4) eff
        by (auto simp: excluded_ok_def)
      then show ?thesis using self [of False] unfrozen i(1) 1 by (subst ts_member.simps) simp
    next
      case 2
      then have "included_ok elog s eff" by (simp add: included_ok_def)
      then show ?thesis using self [of True] unfrozen i(1) 2 by (subst ts_member.simps) simp
    next
      case 3
      have D: "Difference rng (ts_clocks s) (ts_at s) (effectSample eff) = Some (Inr (lo, hi))" using i(1) unfrozen(4) by simp
      have m: "member_ok T elog (insert t visiting) s (member_deps rng rngn elog (allDeps eff) (insert t visiting) s)
          (deps_result elog (allDeps eff))"
        by (rule deps [OF unfrozen(1-3) D 3])
      then obtain rb s1 where r: "member_deps rng rngn elog (allDeps eff) (insert t visiting) s = Some (rb, s1)"
        by (auto simp: member_ok_def)
      show ?thesis
        using member_after_deps [OF m [unfolded r] unfrozen(1) eff unfrozen(2), of "hi \<le> 0"] unfrozen D 3 r
        by (subst ts_member.simps) (simp split: sum.split bool.split, blast)
    qed
  qed
qed

lemma deps_step:
  assumes ok: "cut_ok T elog s"
    and head: "\<And>parent. fmlookup elog ref = Some parent \<Longrightarrow>
      member_ok T elog visiting s (ts_member rng rngn elog ref parent visiting s) (\<lambda>b s'. fmlookup (ts_decided s') ref = Some b)"
    and tail: "\<And>parent s1. fmlookup elog ref = Some parent \<Longrightarrow> ts_member rng rngn elog ref parent visiting s = Some (Inr True, s1) \<Longrightarrow>
      cut_ok T elog s1 \<Longrightarrow> member_ok T elog visiting s1 (member_deps rng rngn elog refs visiting s1) (deps_result elog refs)"
  shows "member_ok T elog visiting s (member_deps rng rngn elog (ref # refs) visiting s) (deps_result elog (ref # refs))"
proof (cases "fmlookup elog ref")
  case None
  then show ?thesis using ok by (auto intro!: member_okI)
next
  case (Some parent)
  obtain rb s1 where h: "ts_member rng rngn elog ref parent visiting s = Some (rb, s1)" "extends_cut s s1" "cut_ok T elog s1"
    "\<forall>x \<in> visiting. fmlookup (ts_decided s1) x = fmlookup (ts_decided s) x"
    "\<And>b. rb = Inr b \<Longrightarrow> fmlookup (ts_decided s1) ref = Some b"
    using head [OF Some] by (auto simp: member_ok_def)
  consider "rb \<noteq> Inr True" | "rb = Inr True" by blast
  then show ?thesis
  proof cases
    case 1
    then show ?thesis
      using Some h by (cases rb) (auto simp: deps_result_def intro!: member_okI)
  next
    case 2
    obtain r s2 where t: "member_deps rng rngn elog refs visiting s1 = Some (r, s2)" "extends_cut s1 s2" "cut_ok T elog s2"
      "\<forall>x \<in> visiting. fmlookup (ts_decided s2) x = fmlookup (ts_decided s1) x" "\<And>b. r = Inr b \<Longrightarrow> deps_result elog refs b s2"
      using tail [OF Some h(1) [unfolded 2] h(3)] by (auto simp: member_ok_def)
    have "fmlookup (ts_decided s2) ref = Some True" using h(5) [OF 2] t(2) by (simp add: extends_cut_def)
    then show ?thesis
      using Some h(1,4) 2 t extends_cut_trans [OF h(2)]
      by (auto simp: deps_result_def intro!: member_okI split: if_splits)
  qed
qed

lemma member_sound:
  assumes "range_order rng"
  shows "fmlookup elog t = Some eff \<Longrightarrow> cut_ok T elog s \<Longrightarrow>
      member_ok T elog visiting s (ts_member rng rngn elog t eff visiting s) (\<lambda>b s'. fmlookup (ts_decided s') t = Some b)"
    and "cut_ok T elog s \<Longrightarrow> member_ok T elog visiting s (member_deps rng rngn elog refs visiting s) (deps_result elog refs)"
  using assms
proof (induction rng rngn elog t eff visiting s and rng rngn elog refs visiting s rule: ts_member_member_deps.induct)
  case (1 rng rngn elog t eff visiting s)
  show ?case
    by (rule member_step [OF 1(4,2,3)], rule 1(1)) (use 1(3,4) in auto)
next
  case (2 rng rngn elog visiting s)
  then show ?case by (auto simp: deps_result_def intro!: member_okI)
next
  case (3 rng rngn elog ref refs visiting s)
  show ?case
    by (rule deps_step [OF 3(3)], rule 3(1), use 3(3,4) in auto, rule 3(2)) (use 3(3,4) in auto)
qed

section \<open>Historical frontiers\<close>

text \<open>What lies below an excluded effect on a key: the tips a bind consumed, or the dependencies.\<close>

definition hist_refs :: "bytes \<Rightarrow> effect \<Rightarrow> tip list" where
  "hist_refs key eff =
     (case GetTxnBind eff of
        Some b \<Rightarrow> (case find (\<lambda>kb. kb_key kb = key) (tb_keys b) of Some kb \<Rightarrow> kb_consumed_tips kb | None \<Rightarrow> [])
      | None \<Rightarrow> eff_deps eff)"

type_synonym frontier_result = "((mvcc_error + tip list) \<times> transactionSnapshot) option"

function (sequential) hist_loop ::
  "range_fun \<Rightarrow> (store \<Rightarrow> tip list) \<Rightarrow> store \<Rightarrow> bytes \<Rightarrow> tip list \<Rightarrow> tip set \<Rightarrow> tip list \<Rightarrow>
    transactionSnapshot \<Rightarrow> frontier_result" where
  "hist_loop rng rngn elog key [] known frontier s = Some (Inr frontier, s)"
| "hist_loop rng rngn elog key (t # stack) known frontier s =
     (if t \<in> known then hist_loop rng rngn elog key stack known frontier s
      else case fmlookup elog t of
        None \<Rightarrow> Some (Inl (NotResident t), s)
      | Some eff \<Rightarrow> do {
          r \<leftarrow> ts_member rng rngn elog t eff {} s;
          (case r of
             (Inl err, s1) \<Rightarrow> Some (Inl err, s1)
           | (Inr True, s1) \<Rightarrow> hist_loop rng rngn elog key stack (insert t known) (frontier @ [t]) s1
           | (Inr False, s1) \<Rightarrow>
               hist_loop rng rngn elog key (rev (hist_refs key eff) @ stack) (insert t known) frontier s1)
        })"
  by pat_completeness auto
termination
proof (relation "inv_image (less_than <*lex*> less_than)
    (\<lambda>(rng, rngn, elog, key, stack, known, frontier, s). (card (fset (fmdom elog) - known), length stack))", goal_cases)
  case 1
  show ?case by (intro wf_inv_image wf_lex_prod wf_less_than)
next
  case (2 rng rngn elog key t stack known frontier s)
  show ?case by simp
next
  case (3 rng rngn elog key t stack known frontier s eff)
  then show ?case using member_measure_insert [of t known elog] by (simp add: member_measure_def)
next
  case (4 rng rngn elog key t stack known frontier s eff)
  then show ?case using member_measure_insert [of t known elog] by (simp add: member_measure_def)
qed

definition historicalFrontier ::
  "range_fun \<Rightarrow> (store \<Rightarrow> tip list) \<Rightarrow> store \<Rightarrow> bytes \<Rightarrow> tip list \<Rightarrow> transactionSnapshot \<Rightarrow> frontier_result" where
  "historicalFrontier rng rngn elog key tips s = hist_loop rng rngn elog key (rev tips) {} [] s"

text \<open>The walk goes on below excluded effects only.\<close>

definition hist_succ :: "store \<Rightarrow> bytes \<Rightarrow> transactionSnapshot \<Rightarrow> tip \<Rightarrow> tip list" where
  "hist_succ elog key s t =
     (case fmlookup elog t of
        Some eff \<Rightarrow> if fmlookup (ts_decided s) t = Some False then hist_refs key eff else []
      | None \<Rightarrow> [])"

definition frontier_ok ::
  "true_time \<Rightarrow> store \<Rightarrow> bytes \<Rightarrow> tip list \<Rightarrow> tip set \<Rightarrow> tip list \<Rightarrow> transactionSnapshot \<Rightarrow> frontier_result \<Rightarrow> bool" where
  "frontier_ok T elog key stack known frontier s res \<longleftrightarrow>
     (\<exists>r s'. res = Some (r, s') \<and> extends_cut s s' \<and> cut_ok T elog s' \<and>
        (\<forall>f. r = Inr f \<longrightarrow> set f = set frontier \<union>
           {x. reach_avoiding (hist_succ elog key s') known stack x \<and> fmlookup (ts_decided s') x = Some True}))"

lemma reach_avoiding_Nil: "\<not> reach_avoiding f avoid [] x"
proof
  assume "reach_avoiding f avoid [] x"
  then show False by (induction rule: reach_avoiding.induct) auto
qed

lemma frontier_ok_visit:
  assumes m: "fmlookup elog t = Some eff" "extends_cut s s1" "fmlookup (ts_decided s1) t = Some b" "t \<notin> known"
    and rest: "frontier_ok T elog key ((if b then [] else rev (hist_refs key eff)) @ stack) (insert t known)
      (if b then frontier @ [t] else frontier) s1 res"
  shows "frontier_ok T elog key (t # stack) known frontier s res"
proof -
  obtain r s' where r: "res = Some (r, s')" "extends_cut s1 s'" "cut_ok T elog s'"
    "\<And>f. r = Inr f \<Longrightarrow> set f = set (if b then frontier @ [t] else frontier) \<union>
      {x. reach_avoiding (hist_succ elog key s') (insert t known) ((if b then [] else rev (hist_refs key eff)) @ stack) x \<and>
        fmlookup (ts_decided s') x = Some True}"
    using rest by (auto simp: frontier_ok_def)
  have d: "fmlookup (ts_decided s') t = Some b" using m(3) r(2) by (simp add: extends_cut_def)
  then have succ: "hist_succ elog key s' t = (if b then [] else hist_refs key eff)" using m(1) by (simp add: hist_succ_def)
  have "rev (if b then [] else hist_refs key eff) = (if b then [] else rev (hist_refs key eff))" by simp
  then have "reach_avoiding (hist_succ elog key s') known (t # stack) x \<longleftrightarrow> x = t \<or>
      reach_avoiding (hist_succ elog key s') (insert t known) ((if b then [] else rev (hist_refs key eff)) @ stack) x" for x
    using reach_avoiding_pop [OF m(4), of "hist_succ elog key s'" "hist_succ elog key s' t" stack x] succ by auto
  then have "set f = set frontier \<union> {x. reach_avoiding (hist_succ elog key s') known (t # stack) x \<and>
      fmlookup (ts_decided s') x = Some True}" if "r = Inr f" for f
    using r(4) [OF that] d by auto
  then show ?thesis using r(1-3) extends_cut_trans [OF m(2)] unfolding frontier_ok_def by blast
qed

lemma hist_loop_ok:
  assumes "range_order rng" and "cut_ok T elog s"
  shows "frontier_ok T elog key stack known frontier s (hist_loop rng rngn elog key stack known frontier s)"
  using assms
proof (induction rng rngn elog key stack known frontier s rule: hist_loop.induct)
  case (1 rng rngn elog key known frontier s)
  then show ?case by (simp add: frontier_ok_def reach_avoiding_Nil)
next
  case (2 rng rngn elog key t stack known frontier s)
  show ?case
  proof (cases "t \<in> known \<or> fmlookup elog t = None")
    case True
    then show ?thesis
      using 2 by (auto simp: frontier_ok_def reach_avoiding_skip)
  next
    case False
    then obtain eff where eff: "fmlookup elog t = Some eff" by auto
    obtain rb s1 where m: "ts_member rng rngn elog t eff {} s = Some (rb, s1)" "extends_cut s s1" "cut_ok T elog s1"
      "\<And>b. rb = Inr b \<Longrightarrow> fmlookup (ts_decided s1) t = Some b"
      using member_sound(1) [OF 2(4) eff 2(5), of "{}" rngn] by (auto simp: member_ok_def)
    show ?thesis
    proof (cases rb)
      case (Inl err)
      then show ?thesis using False eff m by (simp add: frontier_ok_def)
    next
      case (Inr b)
      let ?rest = "hist_loop rng rngn elog key ((if b then [] else rev (hist_refs key eff)) @ stack) (insert t known)
        (if b then frontier @ [t] else frontier) s1"
      have "hist_loop rng rngn elog key (t # stack) known frontier s = ?rest"
        using False eff m(1) Inr by (cases b) simp_all
      moreover have "frontier_ok T elog key ((if b then [] else rev (hist_refs key eff)) @ stack) (insert t known)
          (if b then frontier @ [t] else frontier) s1 ?rest"
        using 2(2,3) [of eff "(rb, s1)" rb s1] False eff m Inr 2(4) by (cases b) auto
      ultimately show ?thesis using frontier_ok_visit [OF eff m(2) m(4) [OF Inr]] False by simp
    qed
  qed
qed

section \<open>What a transaction reads\<close>

definition causal_log :: "true_time \<Rightarrow> store \<Rightarrow> bool" where
  "causal_log T elog \<longleftrightarrow> (\<forall>t eff d x. fmlookup elog t = Some eff \<longrightarrow> d \<in> set (allDeps eff) \<longrightarrow> fmlookup elog d = Some x \<longrightarrow>
     true_at T (effectSample x) \<le> true_at T (effectSample eff))"

lemma depends_before:
  assumes "causal_log T elog" and "(depends elog)\<^sup>*\<^sup>* t a" and "fmlookup elog a = Some x"
  shows "\<exists>eff. fmlookup elog t = Some eff \<and> true_at T (effectSample x) \<le> true_at T (effectSample eff)"
  using assms(2)
proof (induction rule: converse_rtranclp_induct)
  case base
  then show ?case using assms(3) by simp
next
  case (step t d)
  then obtain eff y where e: "fmlookup elog t = Some eff" "d \<in> set (allDeps eff)" "fmlookup elog d = Some y"
    "true_at T (effectSample x) \<le> true_at T (effectSample y)"
    by (auto simp: depends_def)
  then have "true_at T (effectSample y) \<le> true_at T (effectSample eff)" using assms(1) unfolding causal_log_def by blast
  then show ?case using e by auto
qed



end
