(* ===== verification/Membership.thy ===== *)
theory Membership
  imports Go_Base "HOL-Library.Monad_Syntax"
begin

text \<open>
  What the approximate-set filters share: the contract "no false negatives" with its consequence for
  a sequence of insertions, and Go's fixed-width byte encodings (encoding/binary).
\<close>

unbundle bit_operations_syntax

section \<open>The contract\<close>

text \<open>Insertion may fail, and any operation may panic (\<open>None\<close>) on a malformed filter.\<close>

fun add_all :: "('f \<Rightarrow> 'k \<Rightarrow> 'f option) \<Rightarrow> 'k list \<Rightarrow> 'f \<Rightarrow> 'f option" where
  "add_all add [] f = Some f"
| "add_all add (k # ks) f = do { f' \<leftarrow> add f k; add_all add ks f' }"

locale approx_set =
  fixes ok :: "'f \<Rightarrow> bool"
    and add :: "'f \<Rightarrow> 'k \<Rightarrow> 'f option"
    and has :: "'f \<Rightarrow> 'k \<Rightarrow> bool option"
  assumes has_total: "ok f \<Longrightarrow> has f k \<noteq> None"
    and add_ok: "ok f \<Longrightarrow> add f k = Some f' \<Longrightarrow> ok f'"
    and add_has: "ok f \<Longrightarrow> add f k = Some f' \<Longrightarrow> has f' k = Some True"
    and add_keeps: "ok f \<Longrightarrow> add f k = Some f' \<Longrightarrow> has f j = Some True \<Longrightarrow> has f' j = Some True"
begin

lemma add_all_keeps:
  assumes "ok f" and "add_all add ks f = Some f'"
  shows "ok f'" "has f j = Some True \<Longrightarrow> has f' j = Some True" "k \<in> set ks \<Longrightarrow> has f' k = Some True"
proof -
  have "ok f' \<and> (has f j = Some True \<longrightarrow> has f' j = Some True) \<and> (k \<in> set ks \<longrightarrow> has f' k = Some True)" for j k
    using assms
  proof (induction ks arbitrary: f j)
    case (Cons x ks)
    obtain f1 where f1: "add f x = Some f1" "add_all add ks f1 = Some f'"
      using Cons.prems(2) by (auto split: Option.bind_splits)
    note IH = Cons.IH [OF add_ok [OF Cons.prems(1) f1(1)] f1(2)]
    show ?case
      using IH [of j] IH [of k] add_has [OF Cons.prems(1) f1(1)] add_keeps [OF Cons.prems(1) f1(1), of j] by auto
  qed simp
  then show "ok f'" "has f j = Some True \<Longrightarrow> has f' j = Some True" "k \<in> set ks \<Longrightarrow> has f' k = Some True" by blast+
qed

end

section \<open>Big-endian encodings\<close>

type_synonym octets = "8 word list"

fun be_bytes :: "nat \<Rightarrow> nat \<Rightarrow> octets" where
  "be_bytes 0 x = []"
| "be_bytes (Suc k) x = be_bytes k (x div 256) @ [of_nat (x mod 256)]"

definition be_nat :: "octets \<Rightarrow> nat" where
  "be_nat bs = foldl (\<lambda>a b. a * 256 + unat b) 0 bs"

lemma length_be_bytes [simp]: "length (be_bytes k x) = k"
  by (induction k arbitrary: x) simp_all

lemma unat_byte [simp]: "unat (of_nat (x mod 256) :: 8 word) = x mod 256"
  by (simp add: unat_of_nat)

lemma be_nat_bytes: "be_nat (be_bytes k x) = x mod 256 ^ k"
proof (induction k arbitrary: x)
  case (Suc k)
  have "x div 256 mod 256 ^ k * 256 + x mod 256 = x mod (256 * 256 ^ k)"
    by (simp add: mod_mult2_eq)
  then show ?case using Suc by (simp add: be_nat_def)
qed (simp add: be_nat_def)

lemma be_nat_small: "x < 256 ^ k \<Longrightarrow> be_nat (be_bytes k x) = x"
  by (simp add: be_nat_bytes)

definition be16 :: "16 word \<Rightarrow> octets" where
  "be16 w = be_bytes 2 (unat w)"

definition be32 :: "32 word \<Rightarrow> octets" where
  "be32 w = be_bytes 4 (unat w)"

definition be64 :: "64 word \<Rightarrow> octets" where
  "be64 w = be_bytes 8 (unat w)"

lemma be_lengths [simp]: "length (be16 v) = 2" "length (be32 w) = 4" "length (be64 x) = 8"
  by (simp_all add: be16_def be32_def be64_def)

lemma be_round_trips [simp]:
  "of_nat (be_nat (be16 v)) = v" "of_nat (be_nat (be32 w)) = w" "of_nat (be_nat (be64 x)) = x"
proof -
  have "unat v < 256 ^ 2" "unat w < 256 ^ 4" "unat x < 256 ^ 8"
    using unsigned_less [of v, where ?'a = nat] unsigned_less [of w, where ?'a = nat] unsigned_less [of x, where ?'a = nat]
    by simp_all
  then show "of_nat (be_nat (be16 v)) = v" "of_nat (be_nat (be32 w)) = w" "of_nat (be_nat (be64 x)) = x"
    by (simp_all add: be16_def be32_def be64_def be_nat_small)
qed

section \<open>Masks\<close>

lemma and_mask_bound: "unat (x AND m) \<le> unat (m :: 'a::len word)"
  using word_and_le1 [of x m] by (simp add: word_le_nat_alt)

end
