(* ===== verification/Bloom_Filter.thy ===== *)
theory Bloom_Filter
  imports Membership
begin

text \<open>
  The bloom filter of key names (effects/bloom.go): sizing, insertion, query and the wire frame. The
  hash (xxhash) is the argument \<open>sum64\<close>. Slice indexing is partial: \<open>None\<close> is an index panic. The fill
  fraction, a float used only as a resize signal, is not modelled.
\<close>

section \<open>The model\<close>

record bloom =
  bl_bits :: octets
  bl_mask :: uint64
  bl_setBits :: uint64

definition bloomK :: nat where
  "bloomK = 7"

definition BloomMinBytes :: int where
  "BloomMinBytes = 4096"

definition BloomTargetBitsPerKey :: int where
  "BloomTargetBitsPerKey = 10"

definition bloomFrameVersion :: "8 word" where
  "bloomFrameVersion = 1"

text \<open>The loop that doubles the size; \<open>int\<close> is 64 bits wide and wraps.\<close>

partial_function (option) bloom_size :: "int \<Rightarrow> int \<Rightarrow> int option" where
  "bloom_size n sizeBytes = (if n < sizeBytes then bloom_size (wrap64 (2 * n)) sizeBytes else Some n)"

definition bloom_of_size :: "nat \<Rightarrow> bloom" where
  "bloom_of_size n = \<lparr>bl_bits = replicate n 0, bl_mask = of_nat n * 8 - 1, bl_setBits = 0\<rparr>"

definition NewBloom :: "int \<Rightarrow> bloom option" where
  "NewBloom sizeBytes = do { n \<leftarrow> bloom_size BloomMinBytes sizeBytes; Some (bloom_of_size (nat n)) }"

text \<open>Go's integer division truncates towards zero.\<close>

definition NewBloomForCount :: "int \<Rightarrow> bloom option" where
  "NewBloomForCount n =
     (let x = wrap64 (wrap64 (n * BloomTargetBitsPerKey) + 7)
      in NewBloom (if x < 0 then - (- x div 8) else x div 8))"

definition BloomHash :: "(bytes \<Rightarrow> uint64) \<Rightarrow> bytes \<Rightarrow> uint64" where
  "BloomHash sum64 name = sum64 name"

definition position :: "bloom \<Rightarrow> uint64 \<Rightarrow> uint64 \<Rightarrow> uint64" where
  "position b h i = (h + i * (drop_bit 32 h OR 1)) AND bl_mask b"

definition bitmap_byte :: "octets \<Rightarrow> uint64 \<Rightarrow> 8 word option" where
  "bitmap_byte bs g = (let i = unat (drop_bit 3 g) in if i < length bs then Some (bs ! i) else None)"

definition bit_mask :: "uint64 \<Rightarrow> 8 word" where
  "bit_mask g = push_bit (unat (g AND 7)) 1"

fun set_loop :: "uint64 \<Rightarrow> nat list \<Rightarrow> bloom \<Rightarrow> bool \<Rightarrow> (bool \<times> bloom) option" where
  "set_loop h [] b flipped = Some (flipped, b)"
| "set_loop h (i # is) b flipped = do {
     let g = position b h (of_nat i);
     v \<leftarrow> bitmap_byte (bl_bits b) g;
     if v AND bit_mask g = 0
     then set_loop h is
       (b\<lparr>bl_bits := (bl_bits b)[unat (drop_bit 3 g) := v OR bit_mask g], bl_setBits := bl_setBits b + 1\<rparr>) True
     else set_loop h is b flipped
   }"

definition SetHash :: "bloom \<Rightarrow> uint64 \<Rightarrow> (bool \<times> bloom) option" where
  "SetHash b h = set_loop h [0..<bloomK] b False"

definition bloom_Set :: "(bytes \<Rightarrow> uint64) \<Rightarrow> bloom \<Rightarrow> bytes \<Rightarrow> (bool \<times> bloom) option" where
  "bloom_Set sum64 b name = SetHash b (BloomHash sum64 name)"

fun has_loop :: "bloom \<Rightarrow> uint64 \<Rightarrow> nat list \<Rightarrow> bool option" where
  "has_loop b h [] = Some True"
| "has_loop b h (i # is) = do {
     let g = position b h (of_nat i);
     v \<leftarrow> bitmap_byte (bl_bits b) g;
     if v AND bit_mask g = 0 then Some False else has_loop b h is
   }"

definition HasHash :: "bloom \<Rightarrow> uint64 \<Rightarrow> bool option" where
  "HasHash b h = has_loop b h [0..<bloomK]"

definition bloom_Has :: "(bytes \<Rightarrow> uint64) \<Rightarrow> bloom \<Rightarrow> bytes \<Rightarrow> bool option" where
  "bloom_Has sum64 b name = HasHash b (BloomHash sum64 name)"

definition SizeBytes :: "bloom \<Rightarrow> int" where
  "SizeBytes b = int (length (bl_bits b))"

definition Frame :: "bloom \<Rightarrow> octets" where
  "Frame b = bloomFrameVersion # bl_bits b"

text \<open>\<open>bits.OnesCount8\<close>.\<close>

definition OnesCount8 :: "8 word \<Rightarrow> nat" where
  "OnesCount8 v = length (filter (bit v) [0..<8])"

datatype bloom_error = BadVersion | BadBody

definition ParseBloomFrame :: "octets \<Rightarrow> bloom_error + bloom" where
  "ParseBloomFrame data =
     (if length data < 1 \<or> data ! 0 \<noteq> bloomFrameVersion then Inl BadVersion
      else
        let body = drop 1 data; n = int (length body) in
        if n < BloomMinBytes \<or> n AND (n - 1) \<noteq> 0 then Inl BadBody
        else Inr \<lparr>bl_bits = body, bl_mask = of_int n * 8 - 1,
                  bl_setBits = foldl (\<lambda>a v. a + of_nat (OnesCount8 v)) 0 body\<rparr>)"

section \<open>Well-formed filters\<close>

text \<open>The bitmap's length passes the frame's test and determines the mask; the counter counts the set bits.\<close>

definition bloom_ok :: "bloom \<Rightarrow> bool" where
  "bloom_ok b \<longleftrightarrow> BloomMinBytes \<le> SizeBytes b \<and> SizeBytes b AND (SizeBytes b - 1) = 0 \<and>
     bl_mask b = of_int (SizeBytes b) * 8 - 1 \<and>
     bl_setBits b = of_nat (sum_list (map OnesCount8 (bl_bits b)))"

lemma foldl_sum: "foldl (\<lambda>a v. a + of_nat (f v)) (c :: 'a::semiring_1) xs = c + of_nat (sum_list (map f xs))"
  by (induction xs arbitrary: c) (simp_all add: add.assoc)

lemma unat_of_nat_le: "unat (of_nat k :: 'a::len word) \<le> k"
  by (simp add: unat_of_nat)

lemma position_range:
  assumes "bloom_ok b"
  shows "unat (drop_bit 3 (position b h i)) < length (bl_bits b)"
proof -
  let ?n = "length (bl_bits b)"
  have n: "1 \<le> ?n" using assms by (auto simp: bloom_ok_def SizeBytes_def BloomMinBytes_def)
  then have "bl_mask b = of_nat (?n * 8 - 1)"
    using assms by (simp add: bloom_ok_def SizeBytes_def of_nat_diff)
  then have m: "unat (bl_mask b) \<le> ?n * 8 - 1"
    using unat_of_nat_le by metis
  have "unat (position b h i) \<le> unat (bl_mask b)"
    unfolding position_def by (rule and_mask_bound)
  then have "unat (position b h i) div 8 < ?n" using n m by linarith
  then show ?thesis by (simp only: unat_drop_bit_eq) (simp add: drop_bit_eq_div)
qed

section \<open>Bits\<close>

definition holds :: "bloom \<Rightarrow> uint64 \<Rightarrow> bool" where
  "holds b g \<longleftrightarrow> (\<exists>v. bitmap_byte (bl_bits b) g = Some v \<and> v AND bit_mask g \<noteq> 0)"

lemma bit_index: "unat (g AND 7 :: uint64) < 8"
  using and_mask_bound [of g 7] by simp

lemma bit_mask_bit: "bit (bit_mask g) n \<longleftrightarrow> n = unat (g AND 7)"
  using bit_index [of g] by (auto simp: bit_mask_def bit_exp_iff)

lemma test_bit_mask: "v AND bit_mask g = 0 \<longleftrightarrow> \<not> bit v (unat (g AND 7))"
  using bit_index [of g] unfolding bit_eq_iff [of "v AND bit_mask g" 0] by (auto simp: bit_and_iff bit_mask_bit)

lemma OnesCount8_card: "OnesCount8 v = card {i. i < 8 \<and> bit v i}"
  unfolding OnesCount8_def by (simp add: distinct_card [symmetric] del: upt_Suc)

lemma OnesCount8_or:
  assumes "v AND bit_mask g = 0"
  shows "OnesCount8 (v OR bit_mask g) = Suc (OnesCount8 v)"
proof -
  let ?k = "unat (g AND 7)"
  have "{i. i < 8 \<and> bit (v OR bit_mask g) i} = insert ?k {i. i < 8 \<and> bit v i}"
    using bit_index [of g] by (auto simp: bit_or_iff bit_mask_bit)
  then show ?thesis using assms by (simp add: OnesCount8_card test_bit_mask)
qed

lemma set_one:
  assumes ok: "bloom_ok b" and v: "bitmap_byte (bl_bits b) g = Some v" and z: "v AND bit_mask g = 0"
  defines "b' \<equiv> b\<lparr>bl_bits := (bl_bits b)[unat (drop_bit 3 g) := v OR bit_mask g], bl_setBits := bl_setBits b + 1\<rparr>"
  shows "bloom_ok b'" "holds b' g" "holds b j \<Longrightarrow> holds b' j" "\<not> holds b g"
proof -
  let ?i = "unat (drop_bit 3 g)"
  have i: "?i < length (bl_bits b)" "bl_bits b ! ?i = v" using v by (auto simp: bitmap_byte_def Let_def split: if_splits)
  have "v \<in> set (bl_bits b)" using nth_mem [OF i(1)] i(2) by simp
  then have "OnesCount8 v \<le> sum_list (map OnesCount8 (bl_bits b))" by (intro member_le_sum_list) simp_all
  then show "bloom_ok b'"
    using ok i OnesCount8_or [OF z] by (simp add: bloom_ok_def b'_def SizeBytes_def map_update sum_list_update)
  show "holds b' g" using i by (auto simp: holds_def b'_def bitmap_byte_def Let_def test_bit_mask bit_or_iff bit_mask_bit)
  show "holds b j \<Longrightarrow> holds b' j"
    using i by (auto simp: holds_def b'_def bitmap_byte_def Let_def test_bit_mask bit_or_iff nth_list_update split: if_splits)
  show "\<not> holds b g" using v z by (simp add: holds_def)
qed

lemma bitmap_byte_position: "bloom_ok b \<Longrightarrow> \<exists>v. bitmap_byte (bl_bits b) (position b h i) = Some v"
  using position_range by (simp add: bitmap_byte_def Let_def)

lemma has_loop_iff:
  "bloom_ok b \<Longrightarrow> has_loop b h is = Some (\<forall>i \<in> set is. holds b (position b h (of_nat i)))"
proof (induction "is")
  case (Cons i "is")
  then show ?case using bitmap_byte_position [of b h "of_nat i"] by (auto simp: holds_def Let_def)
qed simp

lemma set_loop_spec:
  "bloom_ok b \<Longrightarrow> \<exists>b'. set_loop h is b fl = Some (fl \<or> (\<exists>i \<in> set is. \<not> holds b (position b h (of_nat i))), b') \<and>
     bloom_ok b' \<and> bl_mask b' = bl_mask b \<and> (\<forall>j. holds b j \<longrightarrow> holds b' j) \<and>
     (\<forall>i \<in> set is. holds b' (position b h (of_nat i)))"
proof (induction "is" arbitrary: b fl)
  case (Cons i "is")
  let ?g = "position b h (of_nat i)"
  obtain v where v: "bitmap_byte (bl_bits b) ?g = Some v" using bitmap_byte_position [OF Cons.prems] by blast
  show ?case
  proof (cases "v AND bit_mask ?g = 0")
    case True
    define b1 where "b1 = b\<lparr>bl_bits := (bl_bits b)[unat (drop_bit 3 ?g) := v OR bit_mask ?g], bl_setBits := bl_setBits b + 1\<rparr>"
    note one = set_one [OF Cons.prems v True, folded b1_def]
    have pos: "position b1 = position b" by (simp add: b1_def position_def fun_eq_iff)
    have m: "bl_mask b1 = bl_mask b" by (simp add: b1_def)
    have "set_loop h (i # is) b fl = set_loop h is b1 True" by (simp add: Let_def v True b1_def)
    moreover obtain b' where "set_loop h is b1 True = Some (True, b')" "bloom_ok b'" "bl_mask b' = bl_mask b"
      and b': "\<forall>j. holds b1 j \<longrightarrow> holds b' j" "\<forall>i \<in> set is. holds b' (position b h (of_nat i))"
      using Cons.IH [OF one(1), of True] unfolding pos m by auto
    moreover have "holds b' ?g" "\<forall>j. holds b j \<longrightarrow> holds b' j" using b' one(2,3) by blast+
    ultimately show ?thesis using one(4) by (intro exI [of _ b']) (simp add: b'(2))
  next
    case False
    have "holds b ?g" using v False by (auto simp: holds_def)
    moreover have "set_loop h (i # is) b fl = set_loop h is b fl" by (simp add: Let_def v False)
    ultimately show ?thesis using Cons.IH [OF Cons.prems, of fl] by auto
  qed
qed simp

lemma HasHash_iff: "bloom_ok b \<Longrightarrow> HasHash b h = Some (\<forall>i<bloomK. holds b (position b h (of_nat i)))"
  by (simp add: HasHash_def has_loop_iff Ball_def)

lemma SetHash_spec:
  assumes "bloom_ok b"
  obtains b' where "SetHash b h = Some (HasHash b h = Some False, b')" "bloom_ok b'" "HasHash b' h = Some True"
    "\<And>h'. HasHash b h' = Some True \<Longrightarrow> HasHash b' h' = Some True"
proof -
  obtain b' where s: "SetHash b h = Some (\<not> (\<forall>i<bloomK. holds b (position b h (of_nat i))), b')"
    and b': "bloom_ok b'" "bl_mask b' = bl_mask b" "\<forall>j. holds b j \<longrightarrow> holds b' j"
    "\<forall>i<bloomK. holds b' (position b h (of_nat i))"
    using set_loop_spec [OF assms, of h "[0..<bloomK]" False] by (auto simp: SetHash_def Ball_def Bex_def)
  have pos: "position b' = position b" using b'(2) by (simp add: position_def fun_eq_iff)
  show thesis
  proof (rule that [of b'])
    show "SetHash b h = Some (HasHash b h = Some False, b')" unfolding s HasHash_iff [OF assms] by simp
    show "HasHash b' h = Some True" using b'(4) unfolding HasHash_iff [OF b'(1)] pos by simp
    show "HasHash b' h' = Some True" if "HasHash b h' = Some True" for h'
      using that b'(3) by (simp only: HasHash_iff [OF b'(1)] HasHash_iff [OF assms] pos option.inject) blast
  qed (rule b')
qed

section \<open>The contract\<close>

definition bloom_insert :: "(bytes \<Rightarrow> uint64) \<Rightarrow> bloom \<Rightarrow> bytes \<Rightarrow> bloom option" where
  "bloom_insert sum64 b name = map_option snd (bloom_Set sum64 b name)"

interpretation bloom_set: approx_set bloom_ok "bloom_insert sum64" "bloom_Has sum64" for sum64
proof
  fix b :: bloom and name j b'
  assume ok: "bloom_ok b"
  show "bloom_Has sum64 b name \<noteq> None" using ok by (simp add: bloom_Has_def HasHash_iff)
  assume s: "bloom_insert sum64 b name = Some b'"
  obtain c where "SetHash b (sum64 name) = Some (HasHash b (sum64 name) = Some False, c)" "bloom_ok c"
    "HasHash c (sum64 name) = Some True" "\<And>h'. HasHash b h' = Some True \<Longrightarrow> HasHash c h' = Some True"
    by (rule SetHash_spec [OF ok, of "sum64 name"]) blast
  moreover from this(1) s have "b' = c" by (simp add: bloom_insert_def bloom_Set_def BloomHash_def)
  ultimately show "bloom_ok b'" "bloom_Has sum64 b' name = Some True"
    "bloom_Has sum64 b j = Some True \<Longrightarrow> bloom_Has sum64 b' j = Some True"
    by (simp_all add: bloom_Has_def BloomHash_def)
qed

lemma bloom_insert_total: "bloom_ok b \<Longrightarrow> \<exists>b'. bloom_insert sum64 b name = Some b' \<and> bloom_ok b'"
  by (rule SetHash_spec [of b "sum64 name"]) (simp_all add: bloom_insert_def bloom_Set_def BloomHash_def)

section \<open>Sizing\<close>

lemma bloom_size_doubles:
  "sizeBytes \<le> 2 ^ 62 \<Longrightarrow> k \<le> 62 \<Longrightarrow>
   \<exists>m \<ge> k. m \<le> 62 \<and> bloom_size (2 ^ k) sizeBytes = Some (2 ^ m) \<and> sizeBytes \<le> 2 ^ m \<and> (m = k \<or> 2 ^ m < 2 * sizeBytes)"
proof (induction "62 - k" arbitrary: k)
  case 0
  then show ?case by (subst bloom_size.simps) auto
next
  case (Suc d)
  have "k < 62" "d = 62 - Suc k" using Suc.hyps(2) by auto
  then obtain m where m: "m \<ge> Suc k" "m \<le> 62" "bloom_size (2 ^ Suc k) sizeBytes = Some (2 ^ m)" "sizeBytes \<le> 2 ^ m"
    "m = Suc k \<or> 2 ^ m < 2 * sizeBytes"
    using Suc.hyps(1) [of "Suc k"] Suc.prems(1) by auto
  have "(2::int) ^ Suc k \<le> 2 ^ 62" using \<open>k < 62\<close> by (intro power_increasing) auto
  then have w: "wrap64 (2 * 2 ^ k) = 2 ^ Suc k" by (subst wrap64_id) (simp_all add: int64_defs order_trans [OF _ zero_le_power])
  show ?case
  proof (cases "2 ^ k < sizeBytes")
    case True
    then have "bloom_size (2 ^ k) sizeBytes = Some (2 ^ m)"
      using m(3) w by (subst bloom_size.simps) simp
    then show ?thesis using m True by (intro exI [of _ m]) auto
  next
    case False
    then show ?thesis using Suc.prems by (subst bloom_size.simps) (auto intro!: exI [of _ k])
  qed
qed

lemma power_two_and: "(2 ^ m :: int) AND (2 ^ m - 1) = 0"
  by (simp add: mask_eq_exp_minus_1 [symmetric] take_bit_eq_mask [symmetric])

lemma bloom_of_size_ok:
  assumes "12 \<le> m"
  shows "bloom_ok (bloom_of_size (2 ^ m))" "SizeBytes (bloom_of_size (2 ^ m)) = 2 ^ m"
proof -
  have "(2::int) ^ 12 \<le> 2 ^ m" using assms by (intro power_increasing) auto
  moreover have "OnesCount8 0 = 0" by (simp add: OnesCount8_def)
  ultimately show "bloom_ok (bloom_of_size (2 ^ m))" "SizeBytes (bloom_of_size (2 ^ m)) = 2 ^ m"
    by (simp_all add: bloom_ok_def bloom_of_size_def SizeBytes_def BloomMinBytes_def power_two_and sum_list_replicate)
qed

lemma bloom_of_size_empty:
  assumes "12 \<le> m"
  shows "HasHash (bloom_of_size (2 ^ m)) h = Some False"
proof -
  have "\<not> holds (bloom_of_size (2 ^ m)) g" for g
    by (auto simp: holds_def bitmap_byte_def Let_def bloom_of_size_def split: if_splits)
  then show ?thesis by (auto simp: HasHash_iff [OF bloom_of_size_ok(1) [OF assms]] bloomK_def intro: exI [of _ 0])
qed

text \<open>For a requested size up to \<open>2 ^ 62\<close> bytes the doubling loop ends, and the new filter is
  well formed, empty, at least as large as requested, and the smallest such power of two above the minimum.\<close>

lemma NewBloom_correct:
  assumes "sizeBytes \<le> 2 ^ 62"
  shows "\<exists>b. NewBloom sizeBytes = Some b \<and> bloom_ok b \<and> sizeBytes \<le> SizeBytes b \<and>
    (SizeBytes b = BloomMinBytes \<or> SizeBytes b < 2 * sizeBytes) \<and> (\<forall>h. HasHash b h = Some False)"
proof -
  obtain m where m: "m \<ge> 12" "bloom_size (2 ^ 12) sizeBytes = Some (2 ^ m)" "sizeBytes \<le> 2 ^ m"
    "m = 12 \<or> 2 ^ m < 2 * sizeBytes"
    using bloom_size_doubles [OF assms, of 12] by auto
  then show ?thesis
    by (intro exI [of _ "bloom_of_size (2 ^ m)"])
      (auto simp: NewBloom_def BloomMinBytes_def bloom_of_size_ok bloom_of_size_empty nat_power_eq)
qed

section \<open>Properties\<close>

text \<open>C27: the decoder accepts exactly the frames of well-formed filters and returns the framed
  filter, counter and mask included; every other input, of any length and content, is rejected.\<close>

theorem ParseBloomFrame_iff: "ParseBloomFrame data = Inr b \<longleftrightarrow> bloom_ok b \<and> Frame b = data"
proof (cases "length data < 1 \<or> data ! 0 \<noteq> bloomFrameVersion")
  case True
  then show ?thesis by (auto simp: ParseBloomFrame_def Frame_def)
next
  case False
  then obtain body where d: "data = bloomFrameVersion # body" by (cases data) auto
  have f: "foldl (\<lambda>a v. a + of_nat (OnesCount8 v)) 0 body = (of_nat (sum_list (map OnesCount8 body)) :: uint64)"
    by (simp add: foldl_sum)
  show ?thesis
  proof (cases "int (length body) < BloomMinBytes \<or> int (length body) AND (int (length body) - 1) \<noteq> 0")
    case True
    then show ?thesis by (auto simp: ParseBloomFrame_def d Let_def bloom_ok_def SizeBytes_def Frame_def)
  next
    case False
    define r where "r = \<lparr>bl_bits = body, bl_mask = of_int (int (length body)) * 8 - 1,
      bl_setBits = of_nat (sum_list (map OnesCount8 body))\<rparr>"
    have "bl_bits r = body" "bl_mask r = of_int (int (length body)) * 8 - 1"
      "bl_setBits r = of_nat (sum_list (map OnesCount8 body))" by (simp_all only: r_def bloom.select_convs)
    note r = this
    have "ParseBloomFrame data = Inr r"
      using False by (simp only: ParseBloomFrame_def d Let_def f r_def list.size nth_Cons_0 drop_Suc_Cons drop_0 One_nat_def)
        simp
    moreover have "bloom_ok r \<and> Frame r = data"
      using False by (simp only: bloom_ok_def SizeBytes_def Frame_def d r) simp
    moreover have "b = r" if "bloom_ok b" "Frame b = data"
    proof -
      have b: "bl_bits b = body" using that(2) by (simp only: Frame_def d list.inject)
      have "bl_mask b = bl_mask r" "bl_setBits b = bl_setBits r"
        using that(1) unfolding bloom_ok_def SizeBytes_def b r by blast+
      then show ?thesis using b r(1) by simp
    qed
    ultimately show ?thesis by (metis sum.inject(2))
  qed
qed

text \<open>C28: after any sequence of insertions, none of which can panic, into a well-formed
  filter, every inserted name and every name it already answered is answered positively, and an insertion reports a
  flipped bit exactly when the filter did not already cover the name.\<close>

theorem bloom_no_false_negative:
  assumes ok: "bloom_ok b"
  shows "(\<exists>b'. add_all (bloom_insert sum64) names b = Some b' \<and> bloom_ok b' \<and>
      (\<forall>name. name \<in> set names \<or> bloom_Has sum64 b name = Some True \<longrightarrow> bloom_Has sum64 b' name = Some True)) \<and>
    map_option fst (bloom_Set sum64 b name) = map_option Not (bloom_Has sum64 b name)"
proof
  have "\<exists>b'. add_all (bloom_insert sum64) names b = Some b'"
    using ok
  proof (induction names arbitrary: b)
    case (Cons x names)
    obtain c where "bloom_insert sum64 b x = Some c" "bloom_ok c" using bloom_insert_total [OF Cons.prems] by blast
    then show ?case using Cons.IH by simp
  qed simp
  then show "\<exists>b'. add_all (bloom_insert sum64) names b = Some b' \<and> bloom_ok b' \<and>
      (\<forall>name. name \<in> set names \<or> bloom_Has sum64 b name = Some True \<longrightarrow> bloom_Has sum64 b' name = Some True)"
    using bloom_set.add_all_keeps [OF ok] by blast
  obtain c where "SetHash b (sum64 name) = Some (HasHash b (sum64 name) = Some False, c)"
    by (rule SetHash_spec [OF ok, of "sum64 name"]) blast
  then show "map_option fst (bloom_Set sum64 b name) = map_option Not (bloom_Has sum64 b name)"
    by (simp add: bloom_Has_def bloom_Set_def BloomHash_def HasHash_iff [OF ok])
qed

lemma bloom_of_size_4096: "bloom_ok (bloom_of_size 4096)"
  using bloom_of_size_ok(1) [of 12] by simp

theorem bloom_no_false_negative_witness:
  "(\<exists>b'. add_all (bloom_insert (\<lambda>n. of_nat (length n))) [''a'', ''bc''] (bloom_of_size 4096) = Some b' \<and> bloom_ok b' \<and>
      (\<forall>name. name \<in> set [''a'', ''bc''] \<or> bloom_Has (\<lambda>n. of_nat (length n)) (bloom_of_size 4096) name = Some True \<longrightarrow>
         bloom_Has (\<lambda>n. of_nat (length n)) b' name = Some True)) \<and>
    map_option fst (bloom_Set (\<lambda>n. of_nat (length n)) (bloom_of_size 4096) ''a'') =
      map_option Not (bloom_Has (\<lambda>n. of_nat (length n)) (bloom_of_size 4096) ''a'')"
  by (rule bloom_no_false_negative [OF bloom_of_size_4096])

end
