(* ===== verification/Cuckoo_Filter.thy ===== *)
theory Cuckoo_Filter
  imports Membership
begin

text \<open>
  The cuckoo filter of key names (effects/cuckoo.go, the single filter): construction, insertion with
  relocation, query and the binary encoding. The hash (xxhash) is the argument \<open>sum64\<close>. A sub-slice that
  the code writes through is read, changed and written back. \<open>None\<close> is a panic: a slice bound out of
  range, or a slice length outside Go's \<open>int\<close>. The load factor, a float nothing decides on, is left out.
\<close>

section \<open>The model\<close>

type_synonym uint16 = "16 word"

record cuckoo =
  cf_buckets :: "uint16 list"
  cf_numBuckets :: uint64
  cf_count :: uint64
  cf_kickSeed :: uint64

datatype cuckoo_error = ErrCuckooFull | ShortBuffer | NotPowerOfTwo | LengthMismatch | CountExceeds | TruncatedLength | TruncatedBody

definition cuckooMaxKicks :: nat where
  "cuckooMaxKicks = 500"

text \<open>\<open>make([]uint16, n)\<close> panics when the length is not an \<open>int\<close>.\<close>

definition make16 :: "uint64 \<Rightarrow> uint16 list option" where
  "make16 n = (if unat n < 2 ^ 63 then Some (replicate (unat n) 0) else None)"

partial_function (option) cuckoo_size :: "uint64 \<Rightarrow> uint64 \<Rightarrow> uint64 option" where
  "cuckoo_size nb want = (if nb < want then cuckoo_size (push_bit 1 nb) want else Some nb)"

definition NewCuckooFilter :: "int64 \<Rightarrow> cuckoo option" where
  "NewCuckooFilter capacity = do {
     nb \<leftarrow> cuckoo_size 1 (capacity div 4 + 1);
     bs \<leftarrow> make16 (nb * 4);
     Some \<lparr>cf_buckets = bs, cf_numBuckets = nb, cf_count = 0, cf_kickSeed = 0\<rparr>
   }"

definition le16 :: "uint16 \<Rightarrow> bytes" where
  "le16 fp = [char_of (unat fp mod 256), char_of (unat fp div 256)]"

definition altIndex :: "(bytes \<Rightarrow> uint64) \<Rightarrow> cuckoo \<Rightarrow> uint64 \<Rightarrow> uint16 \<Rightarrow> uint64" where
  "altIndex sum64 c i fp = (i XOR sum64 (le16 fp)) AND (cf_numBuckets c - 1)"

definition fingerprintAndIndices :: "(bytes \<Rightarrow> uint64) \<Rightarrow> cuckoo \<Rightarrow> bytes \<Rightarrow> uint16 \<times> uint64 \<times> uint64" where
  "fingerprintAndIndices sum64 c key =
     (let h = sum64 key;
          fp = ucast (h AND 0xFFFF);
          fp = (if fp = 0 then 1 else fp);
          mask = cf_numBuckets c - 1;
          i1 = drop_bit 32 h AND mask;
          i2 = altIndex sum64 c i1 fp
      in (fp, i1, i2))"

definition bucket :: "cuckoo \<Rightarrow> uint64 \<Rightarrow> uint16 list option" where
  "bucket c i =
     (let start = i * 4; stop = start + 4 in
      if start \<le> stop \<and> unat stop \<le> length (cf_buckets c)
      then Some (take (unat stop - unat start) (drop (unat start) (cf_buckets c))) else None)"

text \<open>Writing through the sub-slice that \<open>bucket\<close> returned.\<close>

definition put_bucket :: "cuckoo \<Rightarrow> uint64 \<Rightarrow> uint16 list \<Rightarrow> cuckoo" where
  "put_bucket c i bkt =
     (let start = unat (i * 4) in
      c\<lparr>cf_buckets := take start (cf_buckets c) @ bkt @ drop (start + length bkt) (cf_buckets c)\<rparr>)"

text \<open>\<open>Some\<close> is the bucket with the fingerprint in its first empty slot, \<open>None\<close> the result \<open>false\<close>.\<close>

fun insertIntoBucket :: "uint16 list \<Rightarrow> uint16 \<Rightarrow> uint16 list option" where
  "insertIntoBucket [] fp = None"
| "insertIntoBucket (v # bkt) fp = (if v = 0 then Some (fp # bkt) else map_option ((#) v) (insertIntoBucket bkt fp))"

definition bucketContains :: "uint16 list \<Rightarrow> uint16 \<Rightarrow> bool" where
  "bucketContains bkt fp \<longleftrightarrow> List.member bkt fp"

fun kick_loop :: "(bytes \<Rightarrow> uint64) \<Rightarrow> nat \<Rightarrow> cuckoo \<Rightarrow> uint64 \<Rightarrow> uint16 \<Rightarrow> (cuckoo_error option \<times> cuckoo) option" where
  "kick_loop sum64 0 c i fp = Some (Some ErrCuckooFull, c)"
| "kick_loop sum64 (Suc n) c i fp = do {
     let c = c\<lparr>cf_kickSeed := cf_kickSeed c + 1\<rparr>;
     bkt \<leftarrow> bucket c i;
     let slot = unat (cf_kickSeed c mod 4);
     let fp' = bkt ! slot;
     let c = put_bucket c i (bkt[slot := fp]);
     let i' = altIndex sum64 c i fp';
     bkt' \<leftarrow> bucket c i';
     case insertIntoBucket bkt' fp' of
       Some b \<Rightarrow> Some (None, (put_bucket c i' b)\<lparr>cf_count := cf_count c + 1\<rparr>)
     | None \<Rightarrow> kick_loop sum64 n c i' fp'
   }"

definition cuckoo_Add :: "(bytes \<Rightarrow> uint64) \<Rightarrow> cuckoo \<Rightarrow> bytes \<Rightarrow> (cuckoo_error option \<times> cuckoo) option" where
  "cuckoo_Add sum64 c key =
     (let (fp, i1, i2) = fingerprintAndIndices sum64 c key in do {
        b1 \<leftarrow> bucket c i1;
        if bucketContains b1 fp then Some (None, c) else do {
          b2 \<leftarrow> bucket c i2;
          if bucketContains b2 fp then Some (None, c)
          else case insertIntoBucket b1 fp of
            Some b \<Rightarrow> Some (None, (put_bucket c i1 b)\<lparr>cf_count := cf_count c + 1\<rparr>)
          | None \<Rightarrow> (case insertIntoBucket b2 fp of
              Some b \<Rightarrow> Some (None, (put_bucket c i2 b)\<lparr>cf_count := cf_count c + 1\<rparr>)
            | None \<Rightarrow> kick_loop sum64 cuckooMaxKicks c (if cf_kickSeed c AND 1 = 1 then i2 else i1) fp)
        }
      })"

definition cuckoo_MaybeContains :: "(bytes \<Rightarrow> uint64) \<Rightarrow> cuckoo \<Rightarrow> bytes \<Rightarrow> bool option" where
  "cuckoo_MaybeContains sum64 c key =
     (let (fp, i1, i2) = fingerprintAndIndices sum64 c key in do {
        b1 \<leftarrow> bucket c i1;
        if bucketContains b1 fp then Some True else do { b2 \<leftarrow> bucket c i2; Some (bucketContains b2 fp) }
      })"

definition cuckoo_MarshalBinary :: "cuckoo \<Rightarrow> octets" where
  "cuckoo_MarshalBinary c = be64 (cf_numBuckets c) @ concat (map be16 (cf_buckets c))"

text \<open>\<open>binary.BigEndian.Uint16(body[i*2:])\<close>.\<close>

definition read16 :: "octets \<Rightarrow> nat \<Rightarrow> uint16 option" where
  "read16 body i = (if 2 * i + 2 \<le> length body then Some (of_nat (be_nat (take 2 (drop (2 * i) body)))) else None)"

fun read_slots :: "octets \<Rightarrow> nat list \<Rightarrow> uint16 list option" where
  "read_slots body [] = Some []"
| "read_slots body (i # is) = do { v \<leftarrow> read16 body i; vs \<leftarrow> read_slots body is; Some (v # vs) }"

definition nonzero :: "uint16 list \<Rightarrow> nat" where
  "nonzero vs = length (filter (\<lambda>v. v \<noteq> 0) vs)"

definition cuckoo_UnmarshalBinary :: "octets \<Rightarrow> (cuckoo_error + cuckoo) option" where
  "cuckoo_UnmarshalBinary data =
     (if length data < 8 then Some (Inl ShortBuffer)
      else
        let nb = of_nat (be_nat (take 8 data)) in
        if nb = 0 \<or> nb AND (nb - 1) \<noteq> 0 then Some (Inl NotPowerOfTwo)
        else
          let body = drop 8 data in
          if of_nat (length body) \<noteq> nb * 4 * 2 then Some (Inl LengthMismatch)
          else do {
            bs \<leftarrow> make16 (nb * 4);
            vs \<leftarrow> read_slots body [0..<length bs];
            Some (Inr \<lparr>cf_buckets = vs, cf_numBuckets = nb, cf_count = of_nat (nonzero vs), cf_kickSeed = 0\<rparr>)
          })"

section \<open>Buckets\<close>

definition shape :: "cuckoo \<Rightarrow> bool" where
  "shape c \<longleftrightarrow> cf_numBuckets c \<noteq> 0 \<and> cf_numBuckets c AND (cf_numBuckets c - 1) = 0 \<and>
     length (cf_buckets c) = 4 * unat (cf_numBuckets c) \<and> length (cf_buckets c) < 2 ^ 60"

definition cuckoo_ok :: "cuckoo \<Rightarrow> bool" where
  "cuckoo_ok c \<longleftrightarrow> shape c \<and> cf_count c = of_nat (nonzero (cf_buckets c))"

definition idx :: "cuckoo \<Rightarrow> uint64 \<Rightarrow> bool" where
  "idx c i \<longleftrightarrow> i AND (cf_numBuckets c - 1) = i"

definition cells :: "cuckoo \<Rightarrow> uint64 \<Rightarrow> uint16 list" where
  "cells c i = take 4 (drop (4 * unat i) (cf_buckets c))"

lemma idx_masked [simp]: "idx c (x AND (cf_numBuckets c - 1))" "idx c (altIndex sum64 c i fp)"
  by (simp_all add: idx_def altIndex_def and.assoc)

lemma altIndex_involution:
  assumes "idx c i"
  shows "altIndex sum64 c (altIndex sum64 c i fp) fp = i"
proof -
  have "(((i XOR h) AND m) XOR h) AND m = i AND m" for h m :: uint64
    by (rule bit_eqI) (auto simp: bit_and_iff bit_xor_iff)
  then show ?thesis using assms by (simp add: altIndex_def idx_def)
qed

lemma idx_range:
  assumes "shape c" "idx c i"
  shows "4 * unat i + 4 \<le> length (cf_buckets c)" "unat (i * 4) = 4 * unat i" "unat (i * 4 + 4) = 4 * unat i + 4"
proof -
  have "unat i \<le> unat (cf_numBuckets c - 1)"
    using assms(2) and_mask_bound [of i "cf_numBuckets c - 1"] by (simp add: idx_def)
  also have "\<dots> = unat (cf_numBuckets c) - 1" using assms(1) by (simp add: shape_def unat_minus_one)
  finally have "unat i \<le> unat (cf_numBuckets c) - 1" .
  moreover have "0 < unat (cf_numBuckets c)" using assms(1) by (simp add: shape_def unat_gt_0)
  ultimately have le: "unat i + 1 \<le> unat (cf_numBuckets c)" by linarith
  then show *: "4 * unat i + 4 \<le> length (cf_buckets c)" using assms(1) by (simp add: shape_def)
  have lt: "4 * unat i + 4 < 2 ^ 60" using * assms(1) by (simp add: shape_def)
  have "i * 4 = of_nat (4 * unat i)" by simp
  then show "unat (i * 4) = 4 * unat i" using lt by (simp only: unat_of_nat) simp
  have "i * 4 + 4 = of_nat (4 * unat i + 4)" by simp
  then show "unat (i * 4 + 4) = 4 * unat i + 4" using lt by (simp only: unat_of_nat) simp
qed

lemma bucket_cells: "shape c \<Longrightarrow> idx c i \<Longrightarrow> bucket c i = Some (cells c i)"
  using idx_range [of c i] by (simp add: bucket_def cells_def Let_def word_le_nat_alt)

lemma length_cells: "shape c \<Longrightarrow> idx c i \<Longrightarrow> length (cells c i) = 4"
  using idx_range(1) [of c i] by (simp add: cells_def)

lemma put_bucket_spec:
  assumes "shape c" "idx c i" and b: "length b = 4"
  shows "shape (put_bucket c i b)"
    and "cf_numBuckets (put_bucket c i b) = cf_numBuckets c"
    and "idx c j \<Longrightarrow> cells (put_bucket c i b) j = (if j = i then b else cells c j)"
    and "nonzero (cf_buckets (put_bucket c i b)) + nonzero (cells c i) = nonzero (cf_buckets c) + nonzero b"
proof -
  let ?xs = "cf_buckets c" and ?n = "4 * unat i"
  note r = idx_range [OF assms(1,2)]
  have bs: "cf_buckets (put_bucket c i b) = take ?n ?xs @ b @ drop (?n + 4) ?xs"
    by (simp add: put_bucket_def r b Let_def)
  show "shape (put_bucket c i b)" "cf_numBuckets (put_bucket c i b) = cf_numBuckets c"
    using assms(1) r(1) b unfolding shape_def bs by (simp_all add: put_bucket_def Let_def)
  have split: "?xs = take ?n ?xs @ cells c i @ drop (?n + 4) ?xs"
    unfolding cells_def add.commute [of ?n 4] drop_drop [symmetric] by (simp only: append_take_drop_id)
  show "nonzero (cf_buckets (put_bucket c i b)) + nonzero (cells c i) = nonzero ?xs + nonzero b"
    unfolding bs by (subst (3) split) (simp add: nonzero_def)
  assume "idx c j"
  note rj = idx_range(1) [OF assms(1) this]
  have "unat j < unat i \<or> j = i \<or> unat i < unat j" using word_unat_eq_iff [of i j] nat_neq_iff by blast
  then show "cells (put_bucket c i b) j = (if j = i then b else cells c j)"
    unfolding cells_def bs using r(1) rj b by (auto simp: drop_take min_def)
qed

lemma insertIntoBucket_Some:
  "insertIntoBucket bkt fp = Some b \<Longrightarrow> length b = length bkt \<and> fp \<in> set b \<and>
     (\<forall>f \<in> set bkt. f \<noteq> 0 \<longrightarrow> f \<in> set b) \<and> (fp \<noteq> 0 \<longrightarrow> nonzero b = Suc (nonzero bkt))"
  by (induction bkt arbitrary: b) (auto simp: nonzero_def split: if_splits)

lemma insertIntoBucket_None: "insertIntoBucket bkt fp = None \<longleftrightarrow> 0 \<notin> set bkt"
  by (induction bkt) auto

section \<open>Queries\<close>

definition found :: "(bytes \<Rightarrow> uint64) \<Rightarrow> cuckoo \<Rightarrow> uint16 \<Rightarrow> uint64 \<Rightarrow> bool" where
  "found sum64 c f j \<longleftrightarrow> f \<in> set (cells c j) \<or> f \<in> set (cells c (altIndex sum64 c j f))"

definition fingerprint :: "(bytes \<Rightarrow> uint64) \<Rightarrow> bytes \<Rightarrow> uint16" where
  "fingerprint sum64 key = (let fp = ucast (sum64 key AND 0xFFFF) in if fp = 0 then 1 else fp)"

definition home :: "(bytes \<Rightarrow> uint64) \<Rightarrow> cuckoo \<Rightarrow> bytes \<Rightarrow> uint64" where
  "home sum64 c key = drop_bit 32 (sum64 key) AND (cf_numBuckets c - 1)"

lemma fingerprintAndIndices_eq:
  "fingerprintAndIndices sum64 c key =
     (fingerprint sum64 key, home sum64 c key, altIndex sum64 c (home sum64 c key) (fingerprint sum64 key))"
  by (simp add: fingerprintAndIndices_def fingerprint_def home_def Let_def)

lemma fingerprint_nonzero: "fingerprint sum64 key \<noteq> 0"
  by (simp add: fingerprint_def Let_def)

lemma idx_home [simp]: "idx c (home sum64 c key)"
  by (simp add: home_def)

lemma MaybeContains_found:
  "shape c \<Longrightarrow> cuckoo_MaybeContains sum64 c key = Some (found sum64 c (fingerprint sum64 key) (home sum64 c key))"
  by (simp add: cuckoo_MaybeContains_def fingerprintAndIndices_eq bucket_cells bucketContains_def found_def)

lemma same_buckets:
  assumes "cf_numBuckets c' = cf_numBuckets c"
  shows "altIndex sum64 c' = altIndex sum64 c" "idx c' = idx c" "home sum64 c' = home sum64 c"
  using assms by (simp_all add: altIndex_def idx_def home_def fun_eq_iff)

text \<open>A query stays answered when the cells it looks at keep the fingerprint.\<close>

lemma found_mono:
  assumes "cf_numBuckets c' = cf_numBuckets c" "idx c j" "found sum64 c f j"
    and "\<And>i. idx c i \<Longrightarrow> f \<in> set (cells c i) \<Longrightarrow> f \<in> set (cells c' i)"
  shows "found sum64 c' f j"
  using assms(2-4) by (auto simp: found_def same_buckets [OF assms(1)])

lemma found_at:
  assumes "idx c j" "i = j \<or> i = altIndex sum64 c j f" "f \<in> set (cells c i)"
  shows "found sum64 c f j"
  using assms by (auto simp: found_def)

section \<open>Insertion\<close>

text \<open>Storing a fingerprint in a bucket with an empty slot.\<close>

lemma store_spec:
  assumes ok: "cuckoo_ok c" and i: "idx c i" and ins: "insertIntoBucket (cells c i) fp = Some b" and fp: "fp \<noteq> 0"
  defines "c' \<equiv> (put_bucket c i b)\<lparr>cf_count := cf_count c + 1\<rparr>"
  shows "cuckoo_ok c'" "cf_numBuckets c' = cf_numBuckets c" "cf_count c' = cf_count c + 1" "fp \<in> set (cells c' i)"
    "f \<noteq> 0 \<Longrightarrow> idx c j \<Longrightarrow> f \<in> set (cells c j) \<Longrightarrow> f \<in> set (cells c' j)"
proof -
  have sh: "shape c" and cnt: "cf_count c = of_nat (nonzero (cf_buckets c))" using ok by (simp_all add: cuckoo_ok_def)
  note b = insertIntoBucket_Some [OF ins]
  then have len: "length b = 4" using length_cells [OF sh i] by simp
  note p = put_bucket_spec [OF sh i len]
  have eqs: "cf_buckets c' = cf_buckets (put_bucket c i b)" "cells c' = cells (put_bucket c i b)"
    "cf_numBuckets c' = cf_numBuckets (put_bucket c i b)"
    by (simp_all add: c'_def cells_def fun_eq_iff)
  show "cf_numBuckets c' = cf_numBuckets c" "cf_count c' = cf_count c + 1" using p(2) by (simp_all add: c'_def)
  have "nonzero (cf_buckets c') = Suc (nonzero (cf_buckets c))" using p(4) b fp unfolding eqs by simp
  then show "cuckoo_ok c'" using p(1) cnt by (simp add: cuckoo_ok_def shape_def eqs) (simp add: c'_def)
  show "fp \<in> set (cells c' i)" unfolding eqs using b p(3) [OF i] by simp
  show "f \<noteq> 0 \<Longrightarrow> idx c j \<Longrightarrow> f \<in> set (cells c j) \<Longrightarrow> f \<in> set (cells c' j)" unfolding eqs using b p(3) [of j] by auto
qed

text \<open>Swapping the fingerprint in hand with the resident of a slot.\<close>

lemma swap_spec:
  assumes ok: "cuckoo_ok c" and i: "idx c i" and slot: "slot < 4" and fp: "fp \<noteq> 0" and res: "cells c i ! slot \<noteq> 0"
  defines "c' \<equiv> put_bucket c i ((cells c i)[slot := fp])"
  shows "cuckoo_ok c'" "cf_numBuckets c' = cf_numBuckets c" "cf_count c' = cf_count c"
    "idx c j \<Longrightarrow> found sum64 c f j \<or> f = fp \<and> (i = j \<or> i = altIndex sum64 c j f) \<Longrightarrow>
       found sum64 c' f j \<or> f = cells c i ! slot \<and> (altIndex sum64 c i f = j \<or> altIndex sum64 c i f = altIndex sum64 c j f)"
proof -
  have sh: "shape c" and cnt: "cf_count c = of_nat (nonzero (cf_buckets c))" using ok by (simp_all add: cuckoo_ok_def)
  have len: "length ((cells c i)[slot := fp]) = 4" using length_cells [OF sh i] by simp
  note p = put_bucket_spec [OF sh i len, folded c'_def]
  show nb: "cf_numBuckets c' = cf_numBuckets c" by (rule p(2))
  show cc: "cf_count c' = cf_count c" by (simp add: c'_def put_bucket_def Let_def)
  have "nonzero ((cells c i)[slot := fp]) = nonzero (cells c i)"
    using slot len fp res by (simp add: nonzero_def length_filter_conv_card) (metis (no_types, lifting) nth_list_update_eq nth_list_update_neq)
  then show "cuckoo_ok c'" using p(1,4) cnt by (simp add: cuckoo_ok_def cc)
  have here: "fp \<in> set (cells c' i)" using p(3) [OF i] slot len by (simp add: set_update_memI)
  have keep: "f \<in> set (cells c' k) \<or> k = i \<and> f = cells c i ! slot" if k: "idx c k" "f \<in> set (cells c k)" for k
  proof (cases "k = i")
    case True
    then obtain m where "m < 4" "f = cells c i ! m" using k length_cells [OF sh i] by (auto simp: in_set_conv_nth)
    then show ?thesis using p(3) [OF i] True len slot by (auto simp: in_set_conv_nth nth_list_update intro!: exI [of _ m])
  qed (use p(3) [OF k(1)] k(2) in simp)
  assume j: "idx c j" and f: "found sum64 c f j \<or> f = fp \<and> (i = j \<or> i = altIndex sum64 c j f)"
  then show "found sum64 c' f j \<or> f = cells c i ! slot \<and> (altIndex sum64 c i f = j \<or> altIndex sum64 c i f = altIndex sum64 c j f)"
    using keep [of j] keep [of "altIndex sum64 c j f"] here altIndex_involution [OF j, of sum64 f]
    unfolding found_def same_buckets [OF nb] by auto
qed

lemma slot_range: "unat (x mod 4 :: uint64) < 4"
  by (simp add: unat_mod)

text \<open>The relocation loop: it never panics; on success nothing is lost and the fingerprint in hand is stored; on
  failure exactly one fingerprint, the one left in hand, may be lost.\<close>

lemma kick_loop_spec:
  "cuckoo_ok c \<Longrightarrow> idx c i \<Longrightarrow> fp \<noteq> 0 \<Longrightarrow> 0 \<notin> set (cells c i) \<Longrightarrow>
   \<exists>r c' g. kick_loop sum64 n c i fp = Some (r, c') \<and> r \<in> {None, Some ErrCuckooFull} \<and> cuckoo_ok c' \<and>
     cf_numBuckets c' = cf_numBuckets c \<and> cf_count c' = cf_count c + (if r = None then 1 else 0) \<and>
     (r = None \<longrightarrow> g = 0) \<and>
     (\<forall>f j. f \<noteq> 0 \<and> f \<noteq> g \<and> idx c j \<and> (found sum64 c f j \<or> f = fp \<and> (i = j \<or> i = altIndex sum64 c j f)) \<longrightarrow>
        found sum64 c' f j)"
proof (induction n arbitrary: c i fp)
  case 0
  then show ?case by (intro exI [of _ "Some ErrCuckooFull"] exI [of _ c] exI [of _ fp]) (simp; blast)
next
  case (Suc n)
  define c0 where "c0 = c\<lparr>cf_kickSeed := cf_kickSeed c + 1\<rparr>"
  have same: "cells c0 = cells c" "cf_numBuckets c0 = cf_numBuckets c" "cf_count c0 = cf_count c" "cuckoo_ok c0"
    "found sum64 c0 = found sum64 c"
    using Suc.prems(1) by (simp_all add: c0_def cells_def cuckoo_ok_def shape_def found_def altIndex_def fun_eq_iff)
  have i0: "idx c0 i" and sh0: "shape c0" using Suc.prems(2) same(2,4) by (simp_all add: idx_def cuckoo_ok_def)
  define slot where "slot = unat (cf_kickSeed c0 mod 4)"
  have slot: "slot < 4" unfolding slot_def by (rule slot_range)
  define fp' where "fp' = cells c0 i ! slot"
  have "fp' \<in> set (cells c i)"
    unfolding fp'_def same by (rule nth_mem) (use slot length_cells [OF sh0 i0] in \<open>simp add: same\<close>)
  then have fp': "fp' \<noteq> 0" using Suc.prems(4) by auto
  define c1 where "c1 = put_bucket c0 i ((cells c0 i)[slot := fp])"
  note sw = swap_spec [OF same(4) i0 slot Suc.prems(3) fp' [unfolded fp'_def], folded c1_def fp'_def, unfolded same]
  define i' where "i' = altIndex sum64 c1 i fp'"
  have alt: "altIndex sum64 c1 = altIndex sum64 c" "altIndex sum64 c0 = altIndex sum64 c" "idx c1 = idx c" "idx c0 = idx c"
    using same_buckets [OF sw(2)] same_buckets [OF same(2)] by simp_all
  have sh1: "shape c1" and i1: "idx c1 i'" using sw(1) by (simp_all add: cuckoo_ok_def i'_def)
  have step: "kick_loop sum64 (Suc n) c i fp = (case insertIntoBucket (cells c1 i') fp' of
       Some b \<Rightarrow> Some (None, (put_bucket c1 i' b)\<lparr>cf_count := cf_count c1 + 1\<rparr>)
     | None \<Rightarrow> kick_loop sum64 n c1 i' fp')"
    by (simp add: Let_def bucket_cells [OF sh0 i0] bucket_cells [OF sh1 i1]
        cong: option.case_cong flip: c0_def slot_def fp'_def c1_def i'_def)
  have moved: "found sum64 c1 f j \<or> f = fp' \<and> (i' = j \<or> i' = altIndex sum64 c1 j f)"
    if "idx c j" "found sum64 c f j \<or> f = fp \<and> (i = j \<or> i = altIndex sum64 c j f)" for f j
    using sw(4) [of j sum64 f] that unfolding alt i'_def same(5) by blast
  show ?case
  proof (cases "insertIntoBucket (cells c1 i') fp'")
    case None
    obtain r c' g where IH: "kick_loop sum64 n c1 i' fp' = Some (r, c')" "r \<in> {None, Some ErrCuckooFull}" "cuckoo_ok c'"
      "cf_numBuckets c' = cf_numBuckets c" "cf_count c' = cf_count c + (if r = None then 1 else 0)" "r = None \<longrightarrow> g = 0"
      "\<forall>f j. f \<noteq> 0 \<and> f \<noteq> g \<and> idx c j \<and> (found sum64 c1 f j \<or> f = fp' \<and> (i' = j \<or> i' = altIndex sum64 c1 j f)) \<longrightarrow>
        found sum64 c' f j"
      using Suc.IH [OF sw(1) i1 fp' None [unfolded insertIntoBucket_None]] unfolding sw(2,3) alt by blast
    show ?thesis
      unfolding step None option.case
      by (rule exI [of _ r], rule exI [of _ c'], rule exI [of _ g]) (use IH moved in blast)
  next
    case (Some b)
    define c' where "c' = (put_bucket c1 i' b)\<lparr>cf_count := cf_count c1 + 1\<rparr>"
    note st = store_spec [OF sw(1) i1 Some fp', folded c'_def]
    have "found sum64 c' f j" if f: "f \<noteq> 0" "idx c j" "found sum64 c f j \<or> f = fp \<and> (i = j \<or> i = altIndex sum64 c j f)" for f j
      using moved [OF f(2,3)]
    proof
      assume "found sum64 c1 f j"
      then show ?thesis by (rule found_mono [OF st(2) f(2) [folded alt(3)]]) (rule st(5) [OF f(1)])
    next
      assume h: "f = fp' \<and> (i' = j \<or> i' = altIndex sum64 c1 j f)"
      show ?thesis
        by (rule found_at [of _ _ i']) (use h st(4) f(2) in \<open>auto simp: same_buckets [OF st(2)] alt\<close>)
    qed
    then show ?thesis
      unfolding step Some option.case c'_def [symmetric]
      by (intro exI [of _ None] exI [of _ c'] exI [of _ 0]) (simp add: st(1-3) sw(2,3))
  qed
qed

lemma Add_store:
  assumes ok: "cuckoo_ok c" and i: "i = home sum64 c key \<or> i = altIndex sum64 c (home sum64 c key) (fingerprint sum64 key)"
    and ins: "insertIntoBucket (cells c i) (fingerprint sum64 key) = Some b"
  defines "c' \<equiv> (put_bucket c i b)\<lparr>cf_count := cf_count c + 1\<rparr>"
  shows "cuckoo_ok c'" "cf_numBuckets c' = cf_numBuckets c" "cf_count c' = cf_count c + 1"
    "k = key \<or> cuckoo_MaybeContains sum64 c k = Some True \<Longrightarrow> cuckoo_MaybeContains sum64 c' k = Some True"
proof -
  have ix: "idx c i" using i by auto
  note st = store_spec [OF ok ix ins fingerprint_nonzero, folded c'_def]
  show "cuckoo_ok c'" "cf_numBuckets c' = cf_numBuckets c" "cf_count c' = cf_count c + 1" by (rule st)+
  note q = same_buckets [OF st(2)]
  have sh: "shape c" "shape c'" using ok st(1) by (simp_all add: cuckoo_ok_def)
  assume "k = key \<or> cuckoo_MaybeContains sum64 c k = Some True"
  then show "cuckoo_MaybeContains sum64 c' k = Some True"
  proof
    assume "k = key"
    then have "found sum64 c' (fingerprint sum64 k) (home sum64 c k)"
      using found_at [of c' "home sum64 c k" i] i st(4) by (auto simp: q)
    then show ?thesis by (simp add: MaybeContains_found sh q)
  next
    assume "cuckoo_MaybeContains sum64 c k = Some True"
    then have "found sum64 c (fingerprint sum64 k) (home sum64 c k)" by (simp add: MaybeContains_found sh)
    then have "found sum64 c' (fingerprint sum64 k) (home sum64 c k)"
      by (rule found_mono [OF st(2) idx_home]) (rule st(5) [OF fingerprint_nonzero])
    then show ?thesis by (simp add: MaybeContains_found sh q)
  qed
qed

lemma Add_kick:
  assumes ok: "cuckoo_ok c" and i: "i = home sum64 c key \<or> i = altIndex sum64 c (home sum64 c key) (fingerprint sum64 key)"
    and full: "0 \<notin> set (cells c i)"
  shows "\<exists>r c' g. kick_loop sum64 n c i (fingerprint sum64 key) = Some (r, c') \<and> r \<in> {None, Some ErrCuckooFull} \<and>
     cuckoo_ok c' \<and> cf_numBuckets c' = cf_numBuckets c \<and> cf_count c' = cf_count c + (if r = None then 1 else 0) \<and>
     (r = None \<longrightarrow> g = 0) \<and>
     (\<forall>k. fingerprint sum64 k \<noteq> g \<and> (k = key \<or> cuckoo_MaybeContains sum64 c k = Some True) \<longrightarrow>
        cuckoo_MaybeContains sum64 c' k = Some True)"
proof -
  have ix: "idx c i" using i by auto
  obtain r c' g where k: "kick_loop sum64 n c i (fingerprint sum64 key) = Some (r, c')" "r \<in> {None, Some ErrCuckooFull}"
    "cuckoo_ok c'" "cf_numBuckets c' = cf_numBuckets c" "cf_count c' = cf_count c + (if r = None then 1 else 0)"
    "r = None \<longrightarrow> g = 0"
    and keep: "\<And>f j. f \<noteq> 0 \<Longrightarrow> f \<noteq> g \<Longrightarrow> idx c j \<Longrightarrow>
      found sum64 c f j \<or> f = fingerprint sum64 key \<and> (i = j \<or> i = altIndex sum64 c j f) \<Longrightarrow> found sum64 c' f j"
    using kick_loop_spec [OF ok ix fingerprint_nonzero full, of sum64 n sum64 key] by blast
  have sh: "shape c" "shape c'" using ok k(3) by (simp_all add: cuckoo_ok_def)
  have "cuckoo_MaybeContains sum64 c' k = Some True"
    if "fingerprint sum64 k \<noteq> g" "k = key \<or> cuckoo_MaybeContains sum64 c k = Some True" for k
    using keep [OF fingerprint_nonzero that(1) idx_home] that(2) i
    by (auto simp: MaybeContains_found sh same_buckets [OF k(4)])
  then show ?thesis using k by blast
qed

text \<open>Insertion never panics and keeps the filter well formed, counter included. On success the new key and every key
  answered before are answered, and the counter grows exactly when the key was not answered before. On \<open>ErrCuckooFull\<close>,
  after 500 evictions, a single fingerprint \<open>g\<close> may be lost.\<close>

lemma Add_spec:
  assumes ok: "cuckoo_ok c"
  shows "\<exists>r c' g. cuckoo_Add sum64 c key = Some (r, c') \<and> r \<in> {None, Some ErrCuckooFull} \<and>
     cuckoo_ok c' \<and> cf_numBuckets c' = cf_numBuckets c \<and>
     cf_count c' = cf_count c + (if r = None \<and> cuckoo_MaybeContains sum64 c key = Some False then 1 else 0) \<and>
     (r = None \<longrightarrow> g = 0) \<and>
     (\<forall>k. fingerprint sum64 k \<noteq> g \<and> (k = key \<or> cuckoo_MaybeContains sum64 c k = Some True) \<longrightarrow>
        cuckoo_MaybeContains sum64 c' k = Some True)"
proof -
  let ?f = "fingerprint sum64 key" and ?i = "home sum64 c key"
  let ?j = "altIndex sum64 c ?i ?f"
  have sh: "shape c" using ok by (simp add: cuckoo_ok_def)
  note add = cuckoo_Add_def [of sum64 c key] fingerprintAndIndices_eq bucket_cells [OF sh] bucketContains_def
  show ?thesis
  proof (cases "found sum64 c ?f ?i")
    case True
    then have "cuckoo_Add sum64 c key = Some (None, c)" by (auto simp: add found_def)
    moreover have "cuckoo_MaybeContains sum64 c key = Some True" using True by (simp add: MaybeContains_found sh)
    ultimately show ?thesis using ok by (intro exI [of _ None] exI [of _ c] exI [of _ 0]) auto
  next
    case False
    then have miss: "cuckoo_MaybeContains sum64 c key = Some False" by (simp add: MaybeContains_found sh)
    have eq: "cuckoo_Add sum64 c key = (case insertIntoBucket (cells c ?i) ?f of
        Some b \<Rightarrow> Some (None, (put_bucket c ?i b)\<lparr>cf_count := cf_count c + 1\<rparr>)
      | None \<Rightarrow> (case insertIntoBucket (cells c ?j) ?f of
          Some b \<Rightarrow> Some (None, (put_bucket c ?j b)\<lparr>cf_count := cf_count c + 1\<rparr>)
        | None \<Rightarrow> kick_loop sum64 cuckooMaxKicks c (if cf_kickSeed c AND 1 = 1 then ?j else ?i) ?f))"
      using False by (simp add: add found_def)
    have stored: ?thesis if "i = ?i \<or> i = ?j" "insertIntoBucket (cells c i) ?f = Some b"
        "cuckoo_Add sum64 c key = Some (None, (put_bucket c i b)\<lparr>cf_count := cf_count c + 1\<rparr>)" for i b
      unfolding that(3) using Add_store [OF ok that(1,2)]
      by (intro exI [of _ None] exI [of _ "(put_bucket c i b)\<lparr>cf_count := cf_count c + 1\<rparr>"] exI [of _ 0])
        (simp add: miss)
    show ?thesis
    proof (cases "insertIntoBucket (cells c ?i) ?f")
      case None1: None
      show ?thesis
      proof (cases "insertIntoBucket (cells c ?j) ?f")
        case None
        let ?k = "if cf_kickSeed c AND 1 = 1 then ?j else ?i"
        have "?k = ?i \<or> ?k = ?j" "0 \<notin> set (cells c ?k)"
          using None None1 by (simp_all add: insertIntoBucket_None)
        moreover have "cuckoo_Add sum64 c key = kick_loop sum64 cuckooMaxKicks c ?k ?f" unfolding eq None None1 by simp
        ultimately show ?thesis using Add_kick [OF ok, of ?k sum64 key cuckooMaxKicks] unfolding miss by simp
      next
        case (Some b)
        show ?thesis by (rule stored [of ?j b]) (simp_all add: Some None1 eq)
      qed
    next
      case (Some b)
      show ?thesis by (rule stored [of ?i b]) (simp_all add: Some eq)
    qed
  qed
qed

section \<open>The contract\<close>

definition cuckoo_insert :: "(bytes \<Rightarrow> uint64) \<Rightarrow> cuckoo \<Rightarrow> bytes \<Rightarrow> cuckoo option" where
  "cuckoo_insert sum64 c key = (case cuckoo_Add sum64 c key of Some (None, c') \<Rightarrow> Some c' | _ \<Rightarrow> None)"

interpretation cuckoo_set: approx_set cuckoo_ok "cuckoo_insert sum64" "cuckoo_MaybeContains sum64" for sum64
proof
  fix c :: cuckoo and key j c'
  assume ok: "cuckoo_ok c"
  show "cuckoo_MaybeContains sum64 c key \<noteq> None" using ok by (simp add: cuckoo_ok_def MaybeContains_found)
  assume "cuckoo_insert sum64 c key = Some c'"
  then have add: "cuckoo_Add sum64 c key = Some (None, c')"
    by (simp add: cuckoo_insert_def split: option.splits prod.splits)
  then have ok': "cuckoo_ok c'" and has: "\<And>k. fingerprint sum64 k \<noteq> 0 \<and> (k = key \<or> cuckoo_MaybeContains sum64 c k = Some True) \<longrightarrow>
        cuckoo_MaybeContains sum64 c' k = Some True"
    using Add_spec [OF ok, of sum64 key] by auto
  show "cuckoo_ok c'" by (rule ok')
  show "cuckoo_MaybeContains sum64 c' key = Some True"
    "cuckoo_MaybeContains sum64 c j = Some True \<Longrightarrow> cuckoo_MaybeContains sum64 c' j = Some True"
    using has [of key] has [of j] by (simp_all add: fingerprint_nonzero)
qed

section \<open>Construction\<close>

lemma unat_two_power:
  assumes "m < 64"
  shows "unat (2 ^ m :: uint64) = 2 ^ m"
proof -
  have "(2::nat) ^ m < 2 ^ 64" using assms by (rule power_strict_increasing) simp
  then show ?thesis using unat_of_nat [of "2 ^ m", where ?'a = 64] by simp
qed

lemma cuckoo_size_doubles:
  "unat want \<le> 2 ^ 50 \<Longrightarrow> k \<le> 50 \<Longrightarrow> \<exists>m. m \<le> 50 \<and> cuckoo_size (2 ^ k) want = Some (2 ^ m) \<and> unat want \<le> 2 ^ m"
proof (induction "50 - k" arbitrary: k)
  case 0
  then have "\<not> (2 ^ k :: uint64) < want" by (simp add: word_less_nat_alt unat_two_power)
  then show ?case using 0 by (subst cuckoo_size.simps) auto
next
  case (Suc d)
  show ?case
  proof (cases "2 ^ k < want")
    case True
    have "push_bit 1 (2 ^ k) = (2 ^ Suc k :: uint64)" by (simp add: push_bit_eq_mult)
    then have "cuckoo_size (2 ^ k) want = cuckoo_size (2 ^ Suc k) want" using True by (subst cuckoo_size.simps) (simp add: mult.commute)
    then show ?thesis using Suc.hyps(1) [of "Suc k"] Suc.hyps(2) Suc.prems by auto
  next
    case False
    then have "unat want \<le> 2 ^ k" using Suc.prems by (simp add: word_less_nat_alt unat_two_power)
    then show ?thesis using False Suc.prems by (subst cuckoo_size.simps) auto
  qed
qed

lemma power_two_and_word: "(2 ^ m :: uint64) AND (2 ^ m - 1) = 0"
  unfolding mask_eq_exp_minus_1 [symmetric]
  by (rule bit_eqI) (auto simp: bit_and_iff bit_exp_iff bit_mask_iff)

lemma NewCuckooFilter_spec:
  assumes "unat capacity \<le> 2 ^ 50"
  obtains c where "NewCuckooFilter capacity = Some c" "cuckoo_ok c" "cf_count c = 0"
    "\<And>key. cuckoo_MaybeContains sum64 c key = Some False" "unat capacity < length (cf_buckets c)"
    "set (cf_buckets c) \<subseteq> {0}"
proof -
  have "unat (capacity div 4 + 1) = unat capacity div 4 + 1"
    using assms by (subst unat_add_lem [THEN iffD1]) (simp_all add: unat_div)
  moreover have "unat capacity div 4 + 1 \<le> 2 ^ 50" using assms by simp
  ultimately obtain m where m: "m \<le> 50" "cuckoo_size (2 ^ 0) (capacity div 4 + 1) = Some (2 ^ m)" "unat capacity div 4 + 1 \<le> 2 ^ m"
    using cuckoo_size_doubles [of "capacity div 4 + 1" 0] by auto
  have lt: "(2::nat) ^ m \<le> 2 ^ 50" using m(1) by (rule power_increasing) simp
  have u: "unat (2 ^ m * 4 :: uint64) = 4 * 2 ^ m"
    using lt unat_two_power [of m] m(1) by (subst unat_mult_lem [THEN iffD1]) simp_all
  define c where "c = \<lparr>cf_buckets = replicate (4 * 2 ^ m) 0, cf_numBuckets = 2 ^ m, cf_count = 0, cf_kickSeed = 0\<rparr>"
  have "NewCuckooFilter capacity = Some c"
    using m(2) lt by (simp add: NewCuckooFilter_def make16_def u c_def)
  moreover have "unat (2 ^ m :: uint64) \<noteq> 0" using unat_two_power [of m] m(1) by simp
  then have nz: "(2 ^ m :: uint64) \<noteq> 0" by (metis unat_0)
  moreover have "cuckoo_ok c"
    using lt nz unat_two_power [of m] m(1) by (simp add: cuckoo_ok_def shape_def c_def power_two_and_word nonzero_def)
  moreover have "fingerprint sum64 key \<notin> set (cells c i)" for key i
    using fingerprint_nonzero [of sum64 key] by (auto simp: cells_def c_def)
  then have "cuckoo_MaybeContains sum64 c key = Some False" for key
    using \<open>cuckoo_ok c\<close> by (simp add: MaybeContains_found found_def cuckoo_ok_def)
  moreover have "unat capacity < length (cf_buckets c)" using m(3) by (simp add: c_def)
  ultimately show thesis using that [of c] by (simp add: c_def)
qed

text \<open>A present key leaves the filter as it is, and an empty filter always has room.\<close>

lemma Add_present:
  "cuckoo_ok c \<Longrightarrow> cuckoo_MaybeContains sum64 c key = Some True \<Longrightarrow> cuckoo_Add sum64 c key = Some (None, c)"
  by (auto simp: cuckoo_ok_def MaybeContains_found found_def cuckoo_Add_def fingerprintAndIndices_eq bucket_cells bucketContains_def)

lemma Add_empty:
  assumes ok: "cuckoo_ok c" and z: "set (cf_buckets c) \<subseteq> {0}"
  shows "\<exists>c'. cuckoo_Add sum64 c key = Some (None, c')"
proof -
  have sh: "shape c" using ok by (simp add: cuckoo_ok_def)
  have sub: "set (cells c i) \<subseteq> {0}" for i using z by (auto simp: cells_def dest!: in_set_takeD in_set_dropD)
  have "cells c (home sum64 c key) \<noteq> []" using length_cells [OF sh idx_home, of sum64 key] by auto
  then have "0 \<in> set (cells c (home sum64 c key))" using sub [of "home sum64 c key"] by (cases "cells c (home sum64 c key)") auto
  then obtain b where "insertIntoBucket (cells c (home sum64 c key)) (fingerprint sum64 key) = Some b"
    using insertIntoBucket_None by fastforce
  moreover have "fingerprint sum64 key \<notin> set (cells c i)" for i using sub [of i] fingerprint_nonzero [of sum64 key] by auto
  ultimately show ?thesis
    by (simp add: cuckoo_Add_def fingerprintAndIndices_eq bucket_cells [OF sh] bucketContains_def)
qed

section \<open>The encoding\<close>

lemma length_be16s [simp]: "length (concat (map be16 vs)) = 2 * length vs"
  by (induction vs) simp_all

lemma read16_be16s: "i < length vs \<Longrightarrow> read16 (concat (map be16 vs)) i = Some (vs ! i)"
proof (induction vs arbitrary: i)
  case (Cons v vs)
  show ?case
  proof (cases i)
    case 0
    then show ?thesis by (simp add: read16_def)
  next
    case (Suc j)
    then have "read16 (concat (map be16 (v # vs))) i = read16 (concat (map be16 vs)) j"
      by (simp add: read16_def)
    then show ?thesis using Cons Suc by simp
  qed
qed simp

lemma read_slots_all: "(\<And>i. i \<in> set is \<Longrightarrow> read16 body i = Some (g i)) \<Longrightarrow> read_slots body is = Some (map g is)"
  by (induction "is") simp_all

lemma cuckoo_codec:
  assumes "cuckoo_ok c"
  shows "cuckoo_UnmarshalBinary (cuckoo_MarshalBinary c) = Some (Inr (c\<lparr>cf_kickSeed := 0\<rparr>))"
proof -
  let ?nb = "cf_numBuckets c" and ?vs = "cf_buckets c"
  have sh: "shape c" and cnt: "cf_count c = of_nat (nonzero ?vs)" using assms by (simp_all add: cuckoo_ok_def)
  then have len: "length ?vs = 4 * unat ?nb" "4 * unat ?nb < 2 ^ 60" by (simp_all add: shape_def)
  have "unat (?nb * 4) = unat ?nb * 4" using len(2) by (subst unat_mult_lem [THEN iffD1]) simp_all
  then have mk: "make16 (?nb * 4) = Some (replicate (length ?vs) 0)" using len by (simp add: make16_def mult.commute)
  have "read_slots (concat (map be16 ?vs)) [0..<length ?vs] = Some (map ((!) ?vs) [0..<length ?vs])"
    by (rule read_slots_all) (simp add: read16_be16s)
  then have rd: "read_slots (concat (map be16 ?vs)) [0..<length ?vs] = Some ?vs" by (simp add: map_nth)
  have "(of_nat (length (concat (map be16 ?vs))) :: uint64) = ?nb * 4 * 2" by (simp add: len)
  moreover have "\<lparr>cf_buckets = ?vs, cf_numBuckets = ?nb, cf_count = of_nat (nonzero ?vs), cf_kickSeed = 0\<rparr> = c\<lparr>cf_kickSeed := 0\<rparr>"
    using cnt by (cases c) simp
  ultimately show ?thesis
    using sh by (simp add: cuckoo_UnmarshalBinary_def cuckoo_MarshalBinary_def Let_def mk rd [unfolded len(1)] shape_def)
qed

lemma MaybeContains_seed: "cuckoo_MaybeContains sum64 (c\<lparr>cf_kickSeed := s\<rparr>) key = cuckoo_MaybeContains sum64 c key"
proof -
  have "bucket (c\<lparr>cf_kickSeed := s\<rparr>) = bucket c" by (simp add: bucket_def fun_eq_iff Let_def)
  moreover have "fingerprintAndIndices sum64 (c\<lparr>cf_kickSeed := s\<rparr>) = fingerprintAndIndices sum64 c"
    by (simp add: fingerprintAndIndices_eq home_def altIndex_def fun_eq_iff)
  ultimately show ?thesis by (simp only: cuckoo_MaybeContains_def)
qed

text \<open>The decoder's length test multiplies the bucket count by eight in 64 bits, so the
  eight-byte input that claims \<open>2 ^ 62\<close> buckets passes it with an empty body, and the filter it yields panics on every
  query; the one that claims \<open>2 ^ 61\<close> buckets makes the decoder itself panic.\<close>

lemma Unmarshal_overflow:
  "cuckoo_UnmarshalBinary (be64 (2 ^ 62)) =
     Some (Inr \<lparr>cf_buckets = [], cf_numBuckets = 2 ^ 62, cf_count = 0, cf_kickSeed = 0\<rparr>) \<and>
   cuckoo_MaybeContains sum64 \<lparr>cf_buckets = [], cf_numBuckets = 2 ^ 62, cf_count = 0, cf_kickSeed = 0\<rparr> key = None \<and>
   cuckoo_UnmarshalBinary (be64 (2 ^ 61)) = None"
proof (intro conjI)
  have "2 ^ 62 * 4 = (0 :: uint64)" "2 ^ 61 * 4 = (2 ^ 63 :: uint64)" by simp_all
  then show "cuckoo_UnmarshalBinary (be64 (2 ^ 62)) =
     Some (Inr \<lparr>cf_buckets = [], cf_numBuckets = 2 ^ 62, cf_count = 0, cf_kickSeed = 0\<rparr>)"
    "cuckoo_UnmarshalBinary (be64 (2 ^ 61)) = None"
    by (simp_all add: cuckoo_UnmarshalBinary_def Let_def make16_def nonzero_def)
  have stuck: "bucket \<lparr>cf_buckets = [], cf_numBuckets = 2 ^ 62, cf_count = 0, cf_kickSeed = 0\<rparr> i = None" for i
  proof (rule ccontr)
    assume "bucket \<lparr>cf_buckets = [], cf_numBuckets = 2 ^ 62, cf_count = 0, cf_kickSeed = 0\<rparr> i \<noteq> None"
    then have "i * 4 \<le> i * 4 + 4" "i * 4 + 4 = 0" by (auto simp: bucket_def Let_def unat_eq_0 split: if_splits)
    then have "i * 4 = 0" "i * 4 + 4 = 0" by simp_all
    then show False by simp
  qed
  show "cuckoo_MaybeContains sum64 \<lparr>cf_buckets = [], cf_numBuckets = 2 ^ 62, cf_count = 0, cf_kickSeed = 0\<rparr> key = None"
    by (simp add: cuckoo_MaybeContains_def fingerprintAndIndices_eq stuck del: semiring_norm power_numeral)
qed

text \<open>A small well-formed filter.\<close>

definition one_bucket :: cuckoo where
  "one_bucket = \<lparr>cf_buckets = [0, 5, 7, 0], cf_numBuckets = 1, cf_count = 2, cf_kickSeed = 0\<rparr>"

lemma one_bucket_ok: "cuckoo_ok one_bucket"
  by (simp add: cuckoo_ok_def shape_def one_bucket_def nonzero_def)

end
