(* ===== verification/Cuckoo_Chain.thy ===== *)
theory Cuckoo_Chain
  imports Cuckoo_Filter
begin

text \<open>
  The growing chain of cuckoo filters (effects/cuckoo.go, \<open>CuckooChain\<close>): insertion with rotation, query and
  the binary encoding. \<open>None\<close> is a panic, as in the single filter.
\<close>

section \<open>The model\<close>

record chain =
  cc_sealed :: "cuckoo list"
  cc_active :: "cuckoo option"

definition cuckooChainChunk :: uint64 where
  "cuckooChainChunk = 4096"

text \<open>The sealed segments and the segment the key goes to, after the rotation.\<close>

definition rotated :: "chain \<Rightarrow> (cuckoo list \<times> cuckoo) option" where
  "rotated cc = (case cc_active cc of
       None \<Rightarrow> do { f \<leftarrow> NewCuckooFilter cuckooChainChunk; Some (cc_sealed cc, f) }
     | Some a \<Rightarrow>
         if cf_count a \<ge> cuckooChainChunk
         then do { f \<leftarrow> NewCuckooFilter cuckooChainChunk; Some (cc_sealed cc @ [a], f) }
         else Some (cc_sealed cc, a))"

definition chain_Add :: "(bytes \<Rightarrow> uint64) \<Rightarrow> chain \<Rightarrow> bytes \<Rightarrow> (bool \<times> chain) option" where
  "chain_Add sum64 cc key = do {
     (sealed, active) \<leftarrow> rotated cc;
     (err, active') \<leftarrow> cuckoo_Add sum64 active key;
     if err \<noteq> None then do {
       f \<leftarrow> NewCuckooFilter cuckooChainChunk;
       (_, f') \<leftarrow> cuckoo_Add sum64 f key;
       Some (True, \<lparr>cc_sealed = sealed @ [active'], cc_active = Some f'\<rparr>)
     } else Some (cf_count active' \<noteq> cf_count active, \<lparr>cc_sealed = sealed, cc_active = Some active'\<rparr>)
   }"

fun any_contains :: "(bytes \<Rightarrow> uint64) \<Rightarrow> cuckoo list \<Rightarrow> bytes \<Rightarrow> bool option" where
  "any_contains sum64 [] key = Some False"
| "any_contains sum64 (f # fs) key = do {
     b \<leftarrow> cuckoo_MaybeContains sum64 f key;
     if b then Some True else any_contains sum64 fs key
   }"

definition chain_MaybeContains :: "(bytes \<Rightarrow> uint64) \<Rightarrow> chain \<Rightarrow> bytes \<Rightarrow> bool option" where
  "chain_MaybeContains sum64 cc key = do {
     b \<leftarrow> (case cc_active cc of None \<Rightarrow> Some False | Some a \<Rightarrow> cuckoo_MaybeContains sum64 a key);
     if b then Some True else any_contains sum64 (cc_sealed cc) key
   }"

definition segments :: "chain \<Rightarrow> cuckoo list" where
  "segments cc = cc_sealed cc @ (case cc_active cc of None \<Rightarrow> [] | Some a \<Rightarrow> [a])"

definition appendOne :: "cuckoo \<Rightarrow> octets" where
  "appendOne f = (let b = cuckoo_MarshalBinary f in be32 (of_nat (length b)) @ b)"

definition chain_MarshalBinary :: "chain \<Rightarrow> octets" where
  "chain_MarshalBinary cc = be32 (of_nat (length (segments cc))) @ concat (map appendOne (segments cc))"

primrec unmarshal_loop :: "nat \<Rightarrow> octets \<Rightarrow> nat \<Rightarrow> cuckoo list \<Rightarrow> (cuckoo_error + cuckoo list) option" where
  "unmarshal_loop 0 data off filters = Some (Inr filters)"
| "unmarshal_loop (Suc n) data off filters =
     (if off + 4 > length data then Some (Inl TruncatedLength)
      else
        let l = be_nat (take 4 (drop off data)); off = off + 4 in
        if off + l > length data then Some (Inl TruncatedBody)
        else do {
          r \<leftarrow> cuckoo_UnmarshalBinary (take l (drop off data));
          case r of Inl e \<Rightarrow> Some (Inl e) | Inr f \<Rightarrow> unmarshal_loop n data (off + l) (filters @ [f])
        })"

definition chain_UnmarshalBinary :: "octets \<Rightarrow> (cuckoo_error + chain) option" where
  "chain_UnmarshalBinary data =
     (if length data < 4 then Some (Inl ShortBuffer)
      else
        let n = be_nat (take 4 data) in
        if n > (length data - 4) div 4 then Some (Inl CountExceeds)
        else do {
          r \<leftarrow> unmarshal_loop n data 4 [];
          Some (case r of Inl e \<Rightarrow> Inl e | Inr filters \<Rightarrow> Inr \<lparr>cc_sealed = filters, cc_active = None\<rparr>)
        })"

section \<open>Queries\<close>

text \<open>Every segment is well formed; a chain this node built has segments of the fixed size.\<close>

definition chain_ok :: "chain \<Rightarrow> bool" where
  "chain_ok cc \<longleftrightarrow> (\<forall>f \<in> set (segments cc). cuckoo_ok f)"

definition own_chain :: "chain \<Rightarrow> bool" where
  "own_chain cc \<longleftrightarrow> chain_ok cc \<and> (\<forall>f \<in> set (segments cc). cf_numBuckets f = 2048)"

lemma any_contains_iff:
  "\<forall>f \<in> set fs. cuckoo_ok f \<Longrightarrow> any_contains sum64 fs key = Some (\<exists>f \<in> set fs. cuckoo_MaybeContains sum64 f key = Some True)"
proof (induction fs)
  case (Cons f fs)
  obtain b where "cuckoo_MaybeContains sum64 f key = Some b" using cuckoo_set.has_total Cons.prems by fastforce
  then show ?case using Cons by auto
qed simp

lemma chain_contains_iff:
  assumes "chain_ok cc"
  shows "chain_MaybeContains sum64 cc key = Some (\<exists>f \<in> set (segments cc). cuckoo_MaybeContains sum64 f key = Some True)"
proof (cases "cc_active cc")
  case None
  then show ?thesis using assms by (simp add: chain_MaybeContains_def segments_def chain_ok_def any_contains_iff)
next
  case (Some a)
  then have "cuckoo_ok a" using assms by (simp add: chain_ok_def segments_def)
  then obtain b where "cuckoo_MaybeContains sum64 a key = Some b" using cuckoo_set.has_total by fastforce
  then show ?thesis using assms Some by (auto simp: chain_MaybeContains_def segments_def chain_ok_def any_contains_iff)
qed

section \<open>Insertion\<close>

lemma chunk_size: "cuckoo_size 1 1025 = Some 2048"
  by (simp add: cuckoo_size.simps)

lemma fresh_segment:
  obtains f where "NewCuckooFilter cuckooChainChunk = Some f" "cuckoo_ok f" "cf_count f = 0" "cf_numBuckets f = 2048"
    "\<And>sum64 key. cuckoo_MaybeContains sum64 f key = Some False" "set (cf_buckets f) \<subseteq> {0}"
proof -
  have "unat cuckooChainChunk \<le> 2 ^ 50" by (simp add: cuckooChainChunk_def)
  note new = NewCuckooFilter_spec [OF this]
  obtain f where f: "NewCuckooFilter cuckooChainChunk = Some f" "cuckoo_ok f" "cf_count f = 0" "set (cf_buckets f) \<subseteq> {0}"
    by (rule new) blast
  have "cf_numBuckets f = 2048"
    using f(1) by (auto simp: NewCuckooFilter_def cuckooChainChunk_def chunk_size split: Option.bind_splits)
  moreover have "cuckoo_MaybeContains sum64 f key = Some False" for sum64 key
    by (rule new [of sum64]) (use f(1) in simp)
  ultimately show thesis using that f by blast
qed

lemma rotated_spec:
  assumes "chain_ok cc"
  obtains sealed a where "rotated cc = Some (sealed, a)" "cuckoo_ok a" "\<forall>f \<in> set sealed. cuckoo_ok f"
    "set (segments cc) \<subseteq> insert a (set sealed)" "insert a (set sealed) \<subseteq> insert a (set (segments cc))"
    "a \<in> set (segments cc) \<or> cf_numBuckets a = 2048"
    "\<lparr>cc_sealed = sealed, cc_active = Some a\<rparr> = cc \<or>
       (cc_active cc = None \<or> length (cc_sealed cc) < length sealed) \<and> (\<forall>sum64 key. cuckoo_MaybeContains sum64 a key = Some False)" "length (cc_sealed cc) \<le> length sealed"
proof -
  obtain f where f: "NewCuckooFilter cuckooChainChunk = Some f" "cuckoo_ok f" "cf_numBuckets f = 2048"
    "\<And>sum64 key. cuckoo_MaybeContains sum64 f key = Some False" by (rule fresh_segment) blast
  show thesis
  proof (cases "cc_active cc")
    case None
    then show thesis using assms f that [of "cc_sealed cc" f] by (simp add: rotated_def segments_def chain_ok_def subset_insertI)
  next
    case (Some a)
    show thesis
    proof (cases "cf_count a \<ge> cuckooChainChunk")
      case True
      then show thesis using assms f Some that [of "cc_sealed cc @ [a]" f]
        by (simp add: rotated_def segments_def chain_ok_def insert_commute subset_insertI subset_insertI2)
    next
      case False
      then show thesis using assms Some that [of "cc_sealed cc" a]
        by (cases cc) (simp add: rotated_def segments_def chain_ok_def)
    qed
  qed
qed

text \<open>The branch the code comments as unreachable in practice: the segment could not place the key.\<close>

definition chain_full :: "(bytes \<Rightarrow> uint64) \<Rightarrow> chain \<Rightarrow> bytes \<Rightarrow> bool" where
  "chain_full sum64 cc key \<longleftrightarrow>
     (case rotated cc of Some (_, a) \<Rightarrow> map_option fst (cuckoo_Add sum64 a key) = Some (Some ErrCuckooFull) | None \<Rightarrow> False)"

definition chain_has :: "(bytes \<Rightarrow> uint64) \<Rightarrow> chain \<Rightarrow> bytes \<Rightarrow> bool" where
  "chain_has sum64 cc key \<longleftrightarrow> chain_MaybeContains sum64 cc key = Some True"

lemma chain_has_iff:
  "chain_ok cc \<Longrightarrow> chain_has sum64 cc key \<longleftrightarrow> (\<exists>f \<in> set (segments cc). cuckoo_MaybeContains sum64 f key = Some True)"
  by (simp add: chain_has_def chain_contains_iff)

text \<open>A chain that consists of the rotated chain with the key added to its active segment, and of further segments.\<close>

lemma chain_replace:
  assumes ok: "chain_ok cc" and rot: "rotated cc = Some (sealed, a)" and add: "cuckoo_Add sum64 a key = Some (r, a')"
    and s': "set (segments cc') = insert a' (set sealed) \<union> X" and X: "\<forall>f \<in> X. cuckoo_ok f \<and> cf_numBuckets f = 2048"
  shows "chain_ok cc'" "own_chain cc \<Longrightarrow> own_chain cc'"
    "\<exists>g. (r = None \<longrightarrow> g = 0) \<and>
       (\<forall>k. fingerprint sum64 k \<noteq> g \<and> (k = key \<or> chain_has sum64 cc k) \<longrightarrow> chain_has sum64 cc' k)"
proof -
  obtain ok_a: "cuckoo_ok a" and ok_s: "\<forall>f \<in> set sealed. cuckoo_ok f"
    and segs: "set (segments cc) \<subseteq> insert a (set sealed)" "insert a (set sealed) \<subseteq> insert a (set (segments cc))"
    and nb: "a \<in> set (segments cc) \<or> cf_numBuckets a = 2048"
    by (rule rotated_spec [OF ok]) (use rot in simp)
  obtain g where a': "cuckoo_ok a'" "cf_numBuckets a' = cf_numBuckets a" "r = None \<longrightarrow> g = 0"
    and keep: "\<And>k. fingerprint sum64 k \<noteq> g \<Longrightarrow> k = key \<or> cuckoo_MaybeContains sum64 a k = Some True \<Longrightarrow>
      cuckoo_MaybeContains sum64 a' k = Some True"
    using Add_spec [OF ok_a, of sum64 key] unfolding add by blast
  show ok': "chain_ok cc'" using ok_s a'(1) X by (auto simp: chain_ok_def s')
  show "own_chain cc'" if "own_chain cc"
    using that nb segs(2) a'(2) X ok' unfolding own_chain_def s' by auto
  have "chain_has sum64 cc' k" if "fingerprint sum64 k \<noteq> g" "k = key \<or> chain_has sum64 cc k" for k
    using that(2) segs(1) keep [OF that(1)] unfolding chain_has_iff [OF ok] chain_has_iff [OF ok'] s' by blast
  then show "\<exists>g. (r = None \<longrightarrow> g = 0) \<and>
       (\<forall>k. fingerprint sum64 k \<noteq> g \<and> (k = key \<or> chain_has sum64 cc k) \<longrightarrow> chain_has sum64 cc' k)"
    using a'(3) by blast
qed

lemma chain_changed:
  assumes ok: "chain_ok cc" and rot: "rotated cc = Some (sealed, a)" and add: "cuckoo_Add sum64 a key = Some (None, a')"
  shows "cf_count a' \<noteq> cf_count a \<longleftrightarrow> \<lparr>cc_sealed = sealed, cc_active = Some a'\<rparr> \<noteq> cc"
proof -
  obtain ok_a: "cuckoo_ok a" and fresh: "\<lparr>cc_sealed = sealed, cc_active = Some a\<rparr> = cc \<or>
      (cc_active cc = None \<or> length (cc_sealed cc) < length sealed) \<and> (\<forall>sum64 key. cuckoo_MaybeContains sum64 a key = Some False)"
    by (rule rotated_spec [OF ok]) (use rot in simp)
  show ?thesis
  proof (cases "cuckoo_MaybeContains sum64 a key = Some False")
    case True
    then have "cf_count a' \<noteq> cf_count a" "a' \<noteq> a" using Add_spec [OF ok_a, of sum64 key] add by auto
    then show ?thesis using fresh by auto
  next
    case False
    then have "cuckoo_MaybeContains sum64 a key = Some True" using cuckoo_set.has_total [OF ok_a, of sum64 key] by auto
    then have "a' = a" using Add_present [OF ok_a] add by simp
    then show ?thesis using fresh False by auto
  qed
qed

lemma chain_Add_spec:
  assumes ok: "chain_ok cc"
  shows "\<exists>changed cc' g. chain_Add sum64 cc key = Some (changed, cc') \<and> chain_ok cc' \<and> (own_chain cc \<longrightarrow> own_chain cc') \<and>
     chain_has sum64 cc' key \<and> (changed \<longleftrightarrow> cc' \<noteq> cc) \<and> (\<not> chain_full sum64 cc key \<longrightarrow> g = 0) \<and>
     (\<forall>k. fingerprint sum64 k \<noteq> g \<and> chain_has sum64 cc k \<longrightarrow> chain_has sum64 cc' k)"
proof -
  obtain sealed a where rot: "rotated cc = Some (sealed, a)" and a: "cuckoo_ok a" and len: "length (cc_sealed cc) \<le> length sealed"
    by (rule rotated_spec [OF ok])
  obtain r a' where add: "cuckoo_Add sum64 a key = Some (r, a')" "r \<in> {None, Some ErrCuckooFull}"
    using Add_spec [OF a, of sum64 key] by blast
  show ?thesis
  proof (cases "r = None")
    case True
    define cc' where "cc' = \<lparr>cc_sealed = sealed, cc_active = Some a'\<rparr>"
    have "set (segments cc') = insert a' (set sealed) \<union> {}" by (simp add: cc'_def segments_def)
    note rep = chain_replace [OF ok rot add(1) this]
    have eq: "chain_Add sum64 cc key = Some (cc' \<noteq> cc, cc')"
      using True chain_changed [OF ok rot add(1) [unfolded True]] by (simp add: chain_Add_def rot add(1) cc'_def)
    have "chain_has sum64 cc' key \<and> (\<forall>k. chain_has sum64 cc k \<longrightarrow> chain_has sum64 cc' k)"
      using rep(3) True fingerprint_nonzero by blast
    then show ?thesis using eq rep(1,2) by blast
  next
    case False
    then have full: "chain_full sum64 cc key" using add by (auto simp: chain_full_def rot)
    obtain f where f: "NewCuckooFilter cuckooChainChunk = Some f" "cuckoo_ok f" "cf_numBuckets f = 2048" "set (cf_buckets f) \<subseteq> {0}"
      by (rule fresh_segment) blast
    obtain f' where f': "cuckoo_Add sum64 f key = Some (None, f')" using Add_empty [OF f(2,4)] by blast
    then have ins: "cuckoo_insert sum64 f key = Some f'" by (simp add: cuckoo_insert_def)
    have ok_f: "\<forall>f \<in> {f'}. cuckoo_ok f \<and> cf_numBuckets f = 2048" using Add_spec [OF f(2), of sum64 key] f' f(3) by auto
    define cc' where "cc' = \<lparr>cc_sealed = sealed @ [a'], cc_active = Some f'\<rparr>"
    have s': "set (segments cc') = insert a' (set sealed) \<union> {f'}" by (auto simp: cc'_def segments_def)
    note rep = chain_replace [OF ok rot add(1) s' ok_f]
    have "chain_Add sum64 cc key = Some (True, cc')" using False by (simp add: chain_Add_def rot add(1) cc'_def f(1) f')
    moreover have "chain_has sum64 cc' key" using cuckoo_set.add_has [OF f(2) ins] by (simp add: chain_has_iff [OF rep(1)] s')
    moreover have "cc' \<noteq> cc" using len by (auto simp: cc'_def)
    ultimately show ?thesis using rep full by blast
  qed
qed

section \<open>The encoding\<close>

definition chain_small :: "chain \<Rightarrow> bool" where
  "chain_small cc \<longleftrightarrow> length (segments cc) < 2 ^ 32 \<and> (\<forall>f \<in> set (segments cc). 8 + 2 * length (cf_buckets f) < 2 ^ 32)"

lemma length_marshal: "length (cuckoo_MarshalBinary f) = 8 + 2 * length (cf_buckets f)"
  by (simp add: cuckoo_MarshalBinary_def)

lemma be_nat_be32: "n < 2 ^ 32 \<Longrightarrow> be_nat (be32 (of_nat n)) = n"
  by (simp add: be32_def unat_of_nat be_nat_small)

lemma unmarshal_loop_segments:
  assumes "\<forall>f \<in> set fs. cuckoo_ok f \<and> 8 + 2 * length (cf_buckets f) < 2 ^ 32"
  shows "unmarshal_loop (length fs) (pre @ concat (map appendOne fs)) (length pre) acc =
    Some (Inr (acc @ map (\<lambda>f. f\<lparr>cf_kickSeed := 0\<rparr>) fs))"
  using assms
proof (induction fs arbitrary: pre acc)
  case (Cons f fs)
  let ?b = "cuckoo_MarshalBinary f"
  have ok: "cuckoo_ok f" and len: "length ?b < 2 ^ 32" using Cons.prems by (simp_all add: length_marshal)
  have one: "appendOne f = be32 (of_nat (length ?b)) @ ?b" by (simp add: appendOne_def Let_def)
  have "unmarshal_loop (length (f # fs)) (pre @ concat (map appendOne (f # fs))) (length pre) acc =
      unmarshal_loop (length fs) ((pre @ appendOne f) @ concat (map appendOne fs)) (length (pre @ appendOne f))
        (acc @ [f\<lparr>cf_kickSeed := 0\<rparr>])"
    by (simp add: Let_def one be_nat_be32 [OF len] cuckoo_codec [OF ok] add.assoc)
  also have "\<dots> = Some (Inr ((acc @ [f\<lparr>cf_kickSeed := 0\<rparr>]) @ map (\<lambda>f. f\<lparr>cf_kickSeed := 0\<rparr>) fs))"
    by (rule Cons.IH) (use Cons.prems in simp)
  finally show ?case by simp
qed simp

lemma length_appendOnes: "4 * length fs \<le> length (concat (map appendOne fs))"
  by (induction fs) (simp_all add: appendOne_def Let_def)

lemma chain_codec:
  assumes "chain_ok cc" "chain_small cc"
  shows "chain_UnmarshalBinary (chain_MarshalBinary cc) =
    Some (Inr \<lparr>cc_sealed = map (\<lambda>f. f\<lparr>cf_kickSeed := 0\<rparr>) (segments cc), cc_active = None\<rparr>)"
proof -
  let ?n = "length (segments cc)" and ?d = "chain_MarshalBinary cc"
  have n: "?n < 2 ^ 32" and fs: "\<forall>f \<in> set (segments cc). cuckoo_ok f \<and> 8 + 2 * length (cf_buckets f) < 2 ^ 32"
    using assms by (auto simp: chain_ok_def chain_small_def)
  have "unmarshal_loop ?n ?d 4 [] = Some (Inr (map (\<lambda>f. f\<lparr>cf_kickSeed := 0\<rparr>) (segments cc)))"
    using unmarshal_loop_segments [OF fs, of "be32 (of_nat ?n)" "[]"] by (simp add: chain_MarshalBinary_def)
  moreover have "be_nat (take 4 ?d) = ?n" by (simp add: chain_MarshalBinary_def be_nat_be32 [OF n])
  moreover have "4 + 4 * ?n \<le> length ?d" using length_appendOnes [of "segments cc"] by (simp add: chain_MarshalBinary_def)
  ultimately show ?thesis by (simp add: chain_UnmarshalBinary_def Let_def)
qed

lemma seeded_has:
  assumes "chain_ok cc"
  defines "cc' \<equiv> \<lparr>cc_sealed = map (\<lambda>f. f\<lparr>cf_kickSeed := 0\<rparr>) (segments cc), cc_active = None\<rparr>"
  shows "chain_ok cc'" "chain_MaybeContains sum64 cc' key = chain_MaybeContains sum64 cc key"
proof -
  have s: "set (segments cc') = (\<lambda>f. f\<lparr>cf_kickSeed := 0\<rparr>) ` set (segments cc)"
    unfolding cc'_def by (subst segments_def) simp
  have "cuckoo_ok (f\<lparr>cf_kickSeed := 0\<rparr>) \<longleftrightarrow> cuckoo_ok f" for f by (simp add: cuckoo_ok_def shape_def)
  then show ok': "chain_ok cc'" using assms(1) by (simp add: chain_ok_def s)
  show "chain_MaybeContains sum64 cc' key = chain_MaybeContains sum64 cc key"
    by (simp add: chain_contains_iff [OF ok'] chain_contains_iff [OF assms(1)] s MaybeContains_seed)
qed

lemma own_chain_small:
  assumes "own_chain cc" "length (segments cc) < 2 ^ 32"
  shows "chain_small cc"
proof -
  have "length (cf_buckets f) = 8192" if "f \<in> set (segments cc)" for f
    using assms(1) that by (auto simp: own_chain_def chain_ok_def cuckoo_ok_def shape_def)
  then show ?thesis using assms(2) by (simp add: chain_small_def)
qed

text \<open>What the decoders accept is well formed, as long as no header claims a bucket count so large that the size
  computations wrap.\<close>

definition plausible :: "chain \<Rightarrow> bool" where
  "plausible cc \<longleftrightarrow> (\<forall>f \<in> set (segments cc). unat (cf_numBuckets f) < 2 ^ 58)"

lemma length_read_slots: "read_slots body is = Some vs \<Longrightarrow> length vs = length is"
  by (induction "is" arbitrary: vs) (auto split: Option.bind_splits)

lemma Unmarshal_ok:
  assumes "cuckoo_UnmarshalBinary data = Some (Inr c)" and small: "unat (cf_numBuckets c) < 2 ^ 58"
  shows "cuckoo_ok c"
proof -
  obtain nb bs vs where nb: "nb \<noteq> 0" "nb AND (nb - 1) = 0" "make16 (nb * 4) = Some bs"
    and vs: "read_slots (drop 8 data) [0..<length bs] = Some vs"
    and c: "c = \<lparr>cf_buckets = vs, cf_numBuckets = nb, cf_count = of_nat (nonzero vs), cf_kickSeed = 0\<rparr>"
    using assms(1) by (auto simp: cuckoo_UnmarshalBinary_def Let_def split: if_splits Option.bind_splits)
  have "unat nb < 2 ^ 58" using small by (simp add: c)
  then have "unat (nb * 4) = unat nb * 4" by (subst unat_mult_lem [THEN iffD1]) simp_all
  then have "length vs = 4 * unat nb" using length_read_slots [OF vs] nb(3) by (auto simp: make16_def split: if_splits)
  then show ?thesis using nb \<open>unat nb < 2 ^ 58\<close> by (simp add: cuckoo_ok_def shape_def c)
qed

lemma unmarshal_loop_decodes:
  "unmarshal_loop n data off acc = Some (Inr fs) \<Longrightarrow>
   \<exists>gs. fs = acc @ gs \<and> (\<forall>f \<in> set gs. \<exists>d. cuckoo_UnmarshalBinary d = Some (Inr f))"
proof (induction n arbitrary: off acc)
  case (Suc n)
  obtain f off' d where "cuckoo_UnmarshalBinary d = Some (Inr f)" "unmarshal_loop n data off' (acc @ [f]) = Some (Inr fs)"
    using Suc.prems by (auto simp: Let_def split: if_splits Option.bind_splits sum.splits)
  moreover from Suc.IH [OF this(2)] obtain gs where
    "fs = (acc @ [f]) @ gs" "\<forall>f \<in> set gs. \<exists>d. cuckoo_UnmarshalBinary d = Some (Inr f)" by blast
  ultimately show ?case by (intro exI [of _ "f # gs"]) auto
qed simp

lemma chain_Unmarshal_ok:
  assumes "chain_UnmarshalBinary data = Some (Inr cc)" "plausible cc"
  shows "chain_ok cc"
proof -
  obtain n fs where "unmarshal_loop n data 4 [] = Some (Inr fs)" and cc: "cc = \<lparr>cc_sealed = fs, cc_active = None\<rparr>"
    using assms(1) by (auto simp: chain_UnmarshalBinary_def Let_def split: if_splits Option.bind_splits sum.splits)
  then have "\<forall>f \<in> set fs. \<exists>d. cuckoo_UnmarshalBinary d = Some (Inr f)"
    using unmarshal_loop_decodes by fastforce
  then show ?thesis using assms(2) Unmarshal_ok by (auto simp: chain_ok_def plausible_def segments_def cc)
qed

section \<open>The contract\<close>

text \<open>Insertions that stay out of the full branch meet the contract of an approximate set.\<close>

definition chain_insert :: "(bytes \<Rightarrow> uint64) \<Rightarrow> chain \<Rightarrow> bytes \<Rightarrow> chain option" where
  "chain_insert sum64 cc key = (if chain_full sum64 cc key then None else map_option snd (chain_Add sum64 cc key))"

interpretation chain_set: approx_set chain_ok "chain_insert sum64" "chain_MaybeContains sum64" for sum64
proof
  fix cc :: chain and key j cc'
  assume ok: "chain_ok cc"
  show "chain_MaybeContains sum64 cc key \<noteq> None" using ok by (simp add: chain_contains_iff)
  assume "chain_insert sum64 cc key = Some cc'"
  then have "\<not> chain_full sum64 cc key" "map_option snd (chain_Add sum64 cc key) = Some cc'"
    by (auto simp: chain_insert_def split: if_splits)
  then have "chain_ok cc' \<and> chain_has sum64 cc' key \<and> (\<forall>k. chain_has sum64 cc k \<longrightarrow> chain_has sum64 cc' k)"
    using chain_Add_spec [OF ok, of sum64 key] fingerprint_nonzero by force
  then show "chain_ok cc'" "chain_MaybeContains sum64 cc' key = Some True"
    "chain_MaybeContains sum64 cc j = Some True \<Longrightarrow> chain_MaybeContains sum64 cc' j = Some True"
    by (simp_all add: chain_has_def)
qed

section \<open>Properties\<close>

text \<open>C29: insertion into a well-formed chain never panics and keeps it well formed, and the chain
  answers the new key whichever branch is taken. The result flag is true exactly when the chain changed. Every key
  answered before is still answered, unless the active segment was full below the rotation threshold, and then only keys
  that share one fingerprint \<open>g\<close> may be lost.\<close>

theorem chain_Add_correct:
  assumes "chain_ok cc"
  shows "\<exists>changed cc' g. chain_Add sum64 cc key = Some (changed, cc') \<and> chain_ok cc' \<and>
     chain_MaybeContains sum64 cc' key = Some True \<and> (changed \<longleftrightarrow> cc' \<noteq> cc) \<and>
     (\<forall>k. chain_MaybeContains sum64 cc k = Some True \<longrightarrow>
        chain_MaybeContains sum64 cc' k = Some True \<or> chain_full sum64 cc key \<and> fingerprint sum64 k = g)"
  using chain_Add_spec [OF assms, of sum64 key] fingerprint_nonzero unfolding chain_has_def by metis

definition small_chain :: chain where
  "small_chain = \<lparr>cc_sealed = [one_bucket], cc_active = None\<rparr>"

lemma small_chain_ok: "chain_ok small_chain" "chain_small small_chain"
  using one_bucket_ok by (simp_all add: small_chain_def chain_ok_def chain_small_def segments_def) (simp add: one_bucket_def)

theorem chain_Add_correct_witness:
  "\<exists>changed cc' g. chain_Add (\<lambda>k. of_nat (length k)) small_chain ''abc'' = Some (changed, cc') \<and> chain_ok cc' \<and>
     chain_MaybeContains (\<lambda>k. of_nat (length k)) cc' ''abc'' = Some True \<and> (changed \<longleftrightarrow> cc' \<noteq> small_chain) \<and>
     (\<forall>k. chain_MaybeContains (\<lambda>k. of_nat (length k)) small_chain k = Some True \<longrightarrow>
        chain_MaybeContains (\<lambda>k. of_nat (length k)) cc' k = Some True \<or>
        chain_full (\<lambda>k. of_nat (length k)) small_chain ''abc'' \<and> fingerprint (\<lambda>k. of_nat (length k)) k = g)"
  by (rule chain_Add_correct [OF small_chain_ok(1)])

text \<open>C30: a chain of fewer than \<open>2 ^ 32\<close> segments, each shorter than \<open>2 ^ 32\<close> bytes when encoded,
  decodes to sealed segments in the same order, with every slot, size and counter kept and only the eviction seeds reset,
  and the decoded chain answers every query as the original does.\<close>

theorem chain_roundtrip:
  assumes "chain_ok cc" "chain_small cc"
  shows "\<exists>cc'. chain_UnmarshalBinary (chain_MarshalBinary cc) = Some (Inr cc') \<and> cc_active cc' = None \<and>
    cc_sealed cc' = map (\<lambda>f. f\<lparr>cf_kickSeed := 0\<rparr>) (segments cc) \<and> chain_ok cc' \<and>
    (\<forall>key. chain_MaybeContains sum64 cc' key = chain_MaybeContains sum64 cc key)"
  using chain_codec [OF assms] seeded_has [OF assms(1)] by simp

theorem chain_roundtrip_witness:
  "\<exists>cc'. chain_UnmarshalBinary (chain_MarshalBinary small_chain) = Some (Inr cc') \<and> cc_active cc' = None \<and>
    cc_sealed cc' = map (\<lambda>f. f\<lparr>cf_kickSeed := 0\<rparr>) (segments small_chain) \<and> chain_ok cc' \<and>
    (\<forall>key. chain_MaybeContains (\<lambda>k. of_nat (length k)) cc' key = chain_MaybeContains (\<lambda>k. of_nat (length k)) small_chain key)"
  by (rule chain_roundtrip [OF small_chain_ok])

end
