(* ===== verification/Key_Filter.thy ===== *)
theory Key_Filter
  imports Cuckoo_Chain
begin

text \<open>
  The cluster key filters that let a read answer a miss without asking (effects/keyfilter.go): this node's own
  filter with its cached encoding, and one entry per peer with a bulk and a realtime chain. Every operation
  holds \<open>keyFilterMu\<close> throughout, so each is one step on the state. \<open>None\<close> is a panic inside a filter.
\<close>

section \<open>The model\<close>

record peer_filter =
  pf_nodeID :: uint64
  pf_bulk :: chain
  pf_bulkVer :: uint64
  pf_hasBulk :: bool
  pf_realtime :: chain
  pf_counted :: bool

record key_filters =
  kf_nodeID :: uint64
  kf_ownKeyFilter :: chain
  kf_ownFilterVer :: uint64
  kf_ownFilterBytes :: "octets option"
  kf_ownFilterBytesVer :: uint64
  kf_peerKeyFilters :: "peer_filter list"
  kf_unfilteredPeers :: int

definition empty_chain :: chain where
  "empty_chain = \<lparr>cc_sealed = [], cc_active = None\<rparr>"

definition pf_maybeContains :: "(bytes \<Rightarrow> uint64) \<Rightarrow> peer_filter \<Rightarrow> bytes \<Rightarrow> bool option" where
  "pf_maybeContains sum64 pf key = do {
     b \<leftarrow> chain_MaybeContains sum64 (pf_bulk pf) key;
     if b then Some True else chain_MaybeContains sum64 (pf_realtime pf) key
   }"

definition ownFilterAdd :: "(bytes \<Rightarrow> uint64) \<Rightarrow> key_filters \<Rightarrow> bytes \<Rightarrow> key_filters option" where
  "ownFilterAdd sum64 e key = do {
     (changed, cc) \<leftarrow> chain_Add sum64 (kf_ownKeyFilter e) key;
     let e = e\<lparr>kf_ownKeyFilter := cc\<rparr>;
     Some (if changed then e\<lparr>kf_ownFilterVer := kf_ownFilterVer e + 1\<rparr> else e)
   }"

definition OwnKeyFilterSnapshot :: "key_filters \<Rightarrow> (octets \<times> uint64) \<times> key_filters" where
  "OwnKeyFilterSnapshot e =
     (case kf_ownFilterBytes e of
       Some b \<Rightarrow>
         if kf_ownFilterBytesVer e \<noteq> kf_ownFilterVer e
         then let b' = chain_MarshalBinary (kf_ownKeyFilter e) in
           ((b', kf_ownFilterVer e), e\<lparr>kf_ownFilterBytes := Some b', kf_ownFilterBytesVer := kf_ownFilterVer e\<rparr>)
         else ((b, kf_ownFilterVer e), e)
     | None \<Rightarrow>
         let b' = chain_MarshalBinary (kf_ownKeyFilter e) in
           ((b', kf_ownFilterVer e), e\<lparr>kf_ownFilterBytes := Some b', kf_ownFilterBytesVer := kf_ownFilterVer e\<rparr>))"

text \<open>The loop of \<open>slices.BinarySearchFunc\<close>.\<close>

function binary_search :: "uint64 list \<Rightarrow> uint64 \<Rightarrow> nat \<Rightarrow> nat \<Rightarrow> nat" where
  "binary_search xs t i j =
     (if i < j then let h = (i + j) div 2 in if xs ! h < t then binary_search xs t (h + 1) j else binary_search xs t i h
      else i)"
  by pat_completeness auto
termination by (relation "measure (\<lambda>(xs, t, i, j). j - i)") auto

definition peerFilterIndex :: "key_filters \<Rightarrow> uint64 \<Rightarrow> nat \<times> bool" where
  "peerFilterIndex e peer =
     (let xs = map pf_nodeID (kf_peerKeyFilters e); i = binary_search xs peer 0 (length xs)
      in (i, i < length xs \<and> xs ! i = peer))"

definition new_peer_filter :: "uint64 \<Rightarrow> peer_filter" where
  "new_peer_filter peer = \<lparr>pf_nodeID = peer, pf_bulk = empty_chain, pf_bulkVer = 0, pf_hasBulk = False,
     pf_realtime = empty_chain, pf_counted = False\<rparr>"

text \<open>The pointer the code returns is the index of the entry.\<close>

definition getOrCreatePeerFilter :: "key_filters \<Rightarrow> uint64 \<Rightarrow> nat \<times> key_filters" where
  "getOrCreatePeerFilter e peer =
     (let (i, found) = peerFilterIndex e peer; ps = kf_peerKeyFilters e in
      if found then (i, e)
      else (i, e\<lparr>kf_peerKeyFilters := take i ps @ new_peer_filter peer # drop i ps\<rparr>))"

definition set_peer :: "key_filters \<Rightarrow> nat \<Rightarrow> peer_filter \<Rightarrow> key_filters" where
  "set_peer e i pf = e\<lparr>kf_peerKeyFilters := (kf_peerKeyFilters e)[i := pf]\<rparr>"

definition peerFilterAdd :: "(bytes \<Rightarrow> uint64) \<Rightarrow> key_filters \<Rightarrow> uint64 \<Rightarrow> bytes \<Rightarrow> key_filters option" where
  "peerFilterAdd sum64 e peer key =
     (if peer = kf_nodeID e then Some e
      else let (i, e) = getOrCreatePeerFilter e peer; pf = kf_peerKeyFilters e ! i in do {
        (_, cc) \<leftarrow> chain_Add sum64 (pf_realtime pf) key;
        Some (set_peer e i (pf\<lparr>pf_realtime := cc\<rparr>))
      })"

definition NotePeerConnected :: "key_filters \<Rightarrow> uint64 \<Rightarrow> key_filters" where
  "NotePeerConnected e peer =
     (if peer = kf_nodeID e then e
      else let (i, e) = getOrCreatePeerFilter e peer; pf = kf_peerKeyFilters e ! i in
        if \<not> pf_counted pf
        then let e = set_peer e i (pf\<lparr>pf_counted := True\<rparr>) in
          if \<not> pf_hasBulk pf then e\<lparr>kf_unfilteredPeers := kf_unfilteredPeers e + 1\<rparr> else e
        else e)"

definition CachePeerFilter :: "key_filters \<Rightarrow> uint64 \<Rightarrow> octets \<Rightarrow> uint64 \<Rightarrow> key_filters option" where
  "CachePeerFilter e peer data version =
     (if peer = kf_nodeID e then Some e
      else do {
        r \<leftarrow> chain_UnmarshalBinary data;
        case r of Inl _ \<Rightarrow> Some e
        | Inr decoded \<Rightarrow>
            let (i, e) = getOrCreatePeerFilter e peer; pf = kf_peerKeyFilters e ! i in
            if \<not> pf_hasBulk pf \<or> version > pf_bulkVer pf
            then
              let e = (if pf_counted pf \<and> \<not> pf_hasBulk pf
                       then e\<lparr>kf_unfilteredPeers := kf_unfilteredPeers e - 1\<rparr> else e)
              in Some (set_peer e i (pf\<lparr>pf_bulk := decoded, pf_bulkVer := version, pf_hasBulk := True\<rparr>))
            else Some e
      })"

definition removePeerKeyFilter :: "key_filters \<Rightarrow> uint64 \<Rightarrow> key_filters" where
  "removePeerKeyFilter e peer =
     (let (i, found) = peerFilterIndex e peer; ps = kf_peerKeyFilters e in
      if found
      then let e = (if pf_counted (ps ! i) \<and> \<not> pf_hasBulk (ps ! i)
                    then e\<lparr>kf_unfilteredPeers := kf_unfilteredPeers e - 1\<rparr> else e)
        in e\<lparr>kf_peerKeyFilters := take i ps @ drop (i + 1) ps\<rparr>
      else e)"

text \<open>\<open>None\<close> is the nil broadcaster, \<open>Some\<close> what its \<open>InMajorityPartition\<close> answers.\<close>

definition inMajorityPartition :: "bool option \<Rightarrow> bool" where
  "inMajorityPartition broadcaster = (case broadcaster of None \<Rightarrow> True | Some b \<Rightarrow> b)"

fun any_peer_contains :: "(bytes \<Rightarrow> uint64) \<Rightarrow> peer_filter list \<Rightarrow> bytes \<Rightarrow> bool option" where
  "any_peer_contains sum64 [] key = Some False"
| "any_peer_contains sum64 (pf # pfs) key = do {
     b \<leftarrow> pf_maybeContains sum64 pf key;
     if b then Some True else any_peer_contains sum64 pfs key
   }"

definition clusterMaybeHasKey :: "(bytes \<Rightarrow> uint64) \<Rightarrow> key_filters \<Rightarrow> bytes \<Rightarrow> bool option" where
  "clusterMaybeHasKey sum64 e key =
     (if kf_unfilteredPeers e > 0 then Some True else any_peer_contains sum64 (kf_peerKeyFilters e) key)"

datatype FetchHint = PreferPeers | PreferCDN

definition fetchHint :: "(bytes \<Rightarrow> uint64) \<Rightarrow> key_filters \<Rightarrow> bytes \<Rightarrow> FetchHint option" where
  "fetchHint sum64 e key =
     (if key = '''' then Some PreferPeers
      else do { b \<leftarrow> clusterMaybeHasKey sum64 e key; Some (if b then PreferPeers else PreferCDN) })"

section \<open>The peer slice\<close>

declare binary_search.simps [simp del]

lemma binary_search_spec:
  "sorted_wrt (<) xs \<Longrightarrow> i \<le> j \<Longrightarrow> j \<le> length xs \<Longrightarrow> \<forall>x \<in> set (take i xs). x < t \<Longrightarrow> \<forall>x \<in> set (drop j xs). t \<le> x \<Longrightarrow>
   \<exists>r \<le> length xs. binary_search xs t i j = r \<and> (\<forall>x \<in> set (take r xs). x < t) \<and> (\<forall>x \<in> set (drop r xs). t \<le> x)"
proof (induction xs t i j rule: binary_search.induct)
  case (1 xs t i j)
  show ?case
  proof (cases "i < j")
    case True
    define h where "h = (i + j) div 2"
    have h: "i \<le> h" "h < j" "h < length xs" using True 1(5) by (auto simp: h_def)
    have below: "x \<le> xs ! h" if x: "x \<in> set (take (h + 1) xs)" for x
    proof -
      obtain k where "k < length (take (h + 1) xs)" "take (h + 1) xs ! k = x" using x unfolding in_set_conv_nth by blast
      then have "k \<le> h" "x = xs ! k" by auto
      then show ?thesis using 1(3) h(3) by (cases "k = h") (auto simp: sorted_wrt_iff_nth_less intro: less_imp_le)
    qed
    have above: "xs ! h \<le> x" if x: "x \<in> set (drop h xs)" for x
    proof -
      obtain k where "k < length (drop h xs)" "drop h xs ! k = x" using x unfolding in_set_conv_nth by blast
      then have "h + k < length xs" "x = xs ! (h + k)" by auto
      then show ?thesis using 1(3) by (cases "k = 0") (auto simp: sorted_wrt_iff_nth_less intro: less_imp_le)
    qed
    show ?thesis
    proof (cases "xs ! h < t")
      case lt: True
      have "binary_search xs t i j = binary_search xs t (h + 1) j"
        using True lt by (subst binary_search.simps) (simp add: Let_def h_def)
      moreover have "\<forall>x \<in> set (take (h + 1) xs). x < t" using below lt by (meson le_less_trans)
      ultimately show ?thesis using 1(1) [OF True h_def lt] 1(3,5,7) h by auto
    next
      case False
      have "binary_search xs t i j = binary_search xs t i h"
        using True False by (subst binary_search.simps) (simp add: Let_def h_def)
      moreover have "\<forall>x \<in> set (drop h xs). t \<le> x" using above False by (meson leI order_trans)
      ultimately show ?thesis using 1(2) [OF True h_def False] 1(3,6) h by auto
    qed
  next
    case False
    then have "j = i" using 1(4) by simp
    then show ?thesis using 1(5-7) by (subst binary_search.simps) auto
  qed
qed

definition ids :: "key_filters \<Rightarrow> uint64 list" where
  "ids e = map pf_nodeID (kf_peerKeyFilters e)"

text \<open>Where a sorted slice holds or would hold a peer.\<close>

lemma peerFilterIndex_spec:
  assumes "sorted_wrt (<) (ids e)"
  obtains l r where "kf_peerKeyFilters e = l @ r" "peerFilterIndex e peer = (length l, r \<noteq> [] \<and> pf_nodeID (hd r) = peer)"
    "\<forall>pf \<in> set l. pf_nodeID pf < peer" "\<forall>pf \<in> set r. peer \<le> pf_nodeID pf"
    "r \<noteq> [] \<Longrightarrow> pf_nodeID (hd r) \<noteq> peer \<Longrightarrow> \<forall>pf \<in> set r. peer < pf_nodeID pf"
    "r \<noteq> [] \<Longrightarrow> pf_nodeID (hd r) = peer \<Longrightarrow> \<forall>pf \<in> set (tl r). peer < pf_nodeID pf"
proof -
  let ?ps = "kf_peerKeyFilters e"
  obtain i where i: "i \<le> length ?ps" "binary_search (ids e) peer 0 (length (ids e)) = i"
    "\<forall>x \<in> set (take i (ids e)). x < peer" "\<forall>x \<in> set (drop i (ids e)). peer \<le> x"
    using binary_search_spec [OF assms, of 0 "length (ids e)" peer] by (auto simp: ids_def)
  define l r where "l = take i ?ps" "r = drop i ?ps"
  have ps: "?ps = l @ r" "length l = i" using i(1) by (simp_all add: l_r_def)
  have l: "\<forall>pf \<in> set l. pf_nodeID pf < peer" and r: "\<forall>pf \<in> set r. peer \<le> pf_nodeID pf"
    using i(3,4) by (simp_all add: ids_def take_map drop_map l_r_def)
  have srt: "sorted_wrt (<) (map pf_nodeID r)" using assms by (simp add: ids_def ps sorted_wrt_append)
  have "peerFilterIndex e peer = (length l, r \<noteq> [] \<and> pf_nodeID (hd r) = peer)"
    using i(2) by (cases r) (simp_all add: peerFilterIndex_def Let_def ids_def ps nth_append)
  moreover have "\<forall>pf \<in> set r. peer < pf_nodeID pf" if "r \<noteq> []" "pf_nodeID (hd r) \<noteq> peer"
    using srt r that by (cases r) fastforce+
  moreover have "\<forall>pf \<in> set (tl r). peer < pf_nodeID pf" if "r \<noteq> []" "pf_nodeID (hd r) = peer"
    using srt that by (cases r) auto
  ultimately show thesis using that ps(1) l r by blast
qed

lemma getOrCreate_spec:
  assumes "sorted_wrt (<) (ids e)"
  obtains l pf r where "getOrCreatePeerFilter e p = (length l, e\<lparr>kf_peerKeyFilters := l @ pf # r\<rparr>)" "pf_nodeID pf = p"
    "\<forall>q \<in> set l. pf_nodeID q < p" "\<forall>q \<in> set r. p < pf_nodeID q"
    "kf_peerKeyFilters e = l @ pf # r \<or> kf_peerKeyFilters e = l @ r \<and> pf = new_peer_filter p"
proof -
  obtain l r where lr: "kf_peerKeyFilters e = l @ r" "peerFilterIndex e p = (length l, r \<noteq> [] \<and> pf_nodeID (hd r) = p)"
    "\<forall>pf \<in> set l. pf_nodeID pf < p"
    "r \<noteq> [] \<Longrightarrow> pf_nodeID (hd r) \<noteq> p \<Longrightarrow> \<forall>pf \<in> set r. p < pf_nodeID pf"
    "r \<noteq> [] \<Longrightarrow> pf_nodeID (hd r) = p \<Longrightarrow> \<forall>pf \<in> set (tl r). p < pf_nodeID pf"
    by (rule peerFilterIndex_spec [OF assms, of p]) blast
  show thesis
  proof (cases "r \<noteq> [] \<and> pf_nodeID (hd r) = p")
    case True
    then obtain pf r' where r: "r = pf # r'" "pf_nodeID pf = p" by (cases r) auto
    have "getOrCreatePeerFilter e p = (length l, e)" using True by (simp add: getOrCreatePeerFilter_def lr(2))
    then show thesis using that [of l pf r'] lr(1,3,5) r by (cases e) simp
  next
    case False
    then have "getOrCreatePeerFilter e p = (length l, e\<lparr>kf_peerKeyFilters := l @ new_peer_filter p # r\<rparr>)"
      by (auto simp: getOrCreatePeerFilter_def lr(1,2) Let_def)
    moreover have "\<forall>q \<in> set r. p < pf_nodeID q" using False lr(4) by (cases r) auto
    ultimately show thesis using that [of l "new_peer_filter p" r] lr(1,3) by (simp add: new_peer_filter_def)
  qed
qed

section \<open>The invariant\<close>

definition waiting :: "peer_filter \<Rightarrow> bool" where
  "waiting pf \<longleftrightarrow> pf_counted pf \<and> \<not> pf_hasBulk pf"

definition pf_ok :: "peer_filter \<Rightarrow> bool" where
  "pf_ok pf \<longleftrightarrow> chain_ok (pf_bulk pf) \<and> chain_ok (pf_realtime pf)"

definition peers_ok :: "key_filters \<Rightarrow> bool" where
  "peers_ok e \<longleftrightarrow> sorted_wrt (<) (ids e) \<and> kf_nodeID e \<notin> set (ids e) \<and> (\<forall>pf \<in> set (kf_peerKeyFilters e). pf_ok pf) \<and>
     kf_unfilteredPeers e = int (length (filter waiting (kf_peerKeyFilters e)))"

definition own_ok :: "key_filters \<Rightarrow> bool" where
  "own_ok e \<longleftrightarrow> own_chain (kf_ownKeyFilter e) \<and>
     (case kf_ownFilterBytes e of None \<Rightarrow> True
      | Some b \<Rightarrow> kf_ownFilterBytesVer e \<le> kf_ownFilterVer e \<and>
          (kf_ownFilterBytesVer e = kf_ownFilterVer e \<longrightarrow> b = chain_MarshalBinary (kf_ownKeyFilter e)))"

definition kf_ok :: "key_filters \<Rightarrow> bool" where
  "kf_ok e \<longleftrightarrow> peers_ok e \<and> own_ok e"

lemma new_peer_filter_ok: "pf_ok (new_peer_filter p)" "\<not> waiting (new_peer_filter p)" "chain_ok empty_chain"
  by (simp_all add: pf_ok_def new_peer_filter_def empty_chain_def chain_ok_def segments_def waiting_def)

text \<open>Replacing the entry that \<open>getOrCreatePeerFilter\<close> found or made.\<close>

lemma peers_ok_replace:
  assumes ok: "peers_ok e"
    and lr: "\<forall>q \<in> set l. pf_nodeID q < p" "\<forall>q \<in> set r. p < pf_nodeID q"
      "kf_peerKeyFilters e = l @ pf # r \<or> kf_peerKeyFilters e = l @ r \<and> pf = new_peer_filter p"
    and own: "p \<noteq> kf_nodeID e" and pf': "pf_ok pf'" "pf_nodeID pf' = p"
    and e': "kf_peerKeyFilters e' = l @ pf' # r" "kf_nodeID e' = kf_nodeID e"
      "kf_unfilteredPeers e' = kf_unfilteredPeers e + of_bool (waiting pf') - of_bool (waiting pf)"
  shows "peers_ok e'"
proof -
  have "sorted_wrt (<) (map pf_nodeID l) \<and> sorted_wrt (<) (map pf_nodeID r)"
    using ok lr(3) by (auto simp: peers_ok_def ids_def sorted_wrt_append)
  then have "sorted_wrt (<) (ids e')"
    using lr(1,2) pf'(2) by (fastforce simp: ids_def e' sorted_wrt_append)
  moreover have "kf_nodeID e' \<notin> set (ids e')" using ok lr(3) own pf'(2) by (auto simp: peers_ok_def ids_def e')
  moreover have "\<forall>pf \<in> set (kf_peerKeyFilters e'). pf_ok pf" using ok lr(3) pf'(1) by (auto simp: peers_ok_def e')
  moreover have "kf_unfilteredPeers e' = int (length (filter waiting (kf_peerKeyFilters e')))"
    using ok lr(3) by (auto simp: peers_ok_def e' new_peer_filter_ok)
  ultimately show ?thesis by (simp add: peers_ok_def)
qed

lemma any_peer_iff:
  "\<forall>pf \<in> set pfs. pf_ok pf \<Longrightarrow> any_peer_contains sum64 pfs key =
     Some (\<exists>pf \<in> set pfs. chain_has sum64 (pf_bulk pf) key \<or> chain_has sum64 (pf_realtime pf) key)"
proof (induction pfs)
  case (Cons pf pfs)
  have "pf_maybeContains sum64 pf key = Some (chain_has sum64 (pf_bulk pf) key \<or> chain_has sum64 (pf_realtime pf) key)"
    using Cons.prems by (simp add: pf_maybeContains_def pf_ok_def chain_contains_iff chain_has_def)
  then show ?case using Cons by simp
qed simp

lemma cluster_iff:
  assumes "peers_ok e"
  shows "clusterMaybeHasKey sum64 e key = Some (\<exists>pf \<in> set (kf_peerKeyFilters e).
     waiting pf \<or> chain_has sum64 (pf_bulk pf) key \<or> chain_has sum64 (pf_realtime pf) key)"
proof -
  have "kf_unfilteredPeers e > 0 \<longleftrightarrow> (\<exists>pf \<in> set (kf_peerKeyFilters e). waiting pf)"
    using assms by (auto simp: peers_ok_def filter_empty_conv)
  then show ?thesis using assms by (auto simp: clusterMaybeHasKey_def peers_ok_def any_peer_iff)
qed

section \<open>The slice as a map from peers to entries\<close>

definition entry :: "key_filters \<Rightarrow> uint64 \<Rightarrow> peer_filter option" where
  "entry e = map_of (map (\<lambda>pf. (pf_nodeID pf, pf)) (kf_peerKeyFilters e))"

definition known :: "key_filters \<Rightarrow> uint64 \<Rightarrow> peer_filter" where
  "known e p = (case entry e p of Some pf \<Rightarrow> pf | None \<Rightarrow> new_peer_filter p)"

definition same_own :: "key_filters \<Rightarrow> key_filters \<Rightarrow> bool" where
  "same_own e e' \<longleftrightarrow> kf_nodeID e' = kf_nodeID e \<and> kf_ownKeyFilter e' = kf_ownKeyFilter e \<and> kf_ownFilterVer e' = kf_ownFilterVer e \<and>
     kf_ownFilterBytes e' = kf_ownFilterBytes e \<and> kf_ownFilterBytesVer e' = kf_ownFilterBytesVer e"

lemma entry_iff:
  assumes "peers_ok e"
  shows "entry e q = Some pf \<longleftrightarrow> pf \<in> set (kf_peerKeyFilters e) \<and> pf_nodeID pf = q"
proof -
  have "distinct (map pf_nodeID (kf_peerKeyFilters e))" using assms by (auto simp: peers_ok_def ids_def strict_sorted_iff)
  then have "distinct (map fst (map (\<lambda>pf. (pf_nodeID pf, pf)) (kf_peerKeyFilters e)))" by (simp add: comp_def)
  then show ?thesis unfolding entry_def by (subst map_of_eq_Some_iff) auto
qed

lemma cluster_entry:
  assumes "peers_ok e"
  shows "clusterMaybeHasKey sum64 e key = Some (\<exists>p pf. entry e p = Some pf \<and>
     (waiting pf \<or> chain_has sum64 (pf_bulk pf) key \<or> chain_has sum64 (pf_realtime pf) key))"
  unfolding cluster_iff [OF assms] entry_iff [OF assms] by blast

lemma map_of_ids: "(\<forall>pf \<in> set l. pf_nodeID pf \<noteq> p) \<Longrightarrow> map_of (map (\<lambda>pf. (pf_nodeID pf, pf)) l) p = None"
  by (induction l) auto

lemma entry_replace:
  assumes lr: "\<forall>q \<in> set l. pf_nodeID q < p" "\<forall>q \<in> set r. p < pf_nodeID q"
      "kf_peerKeyFilters e = l @ pf # r \<or> kf_peerKeyFilters e = l @ r \<and> pf = new_peer_filter p"
    and pf: "pf_nodeID pf = p" "pf_nodeID pf' = p" and e': "kf_peerKeyFilters e' = l @ pf' # r"
  shows "known e p = pf" "entry e' = (entry e)(p \<mapsto> pf')"
proof -
  let ?m = "\<lambda>l. map_of (map (\<lambda>pf. (pf_nodeID pf, pf)) l)"
  have none: "?m l p = None" "?m r p = None" using lr(1,2) by (auto intro!: map_of_ids)
  from lr(3) have e: "entry e q = (case ?m l q of Some x \<Rightarrow> Some x | None \<Rightarrow> if q = p \<and> kf_peerKeyFilters e = l @ pf # r then Some pf else ?m r q)" for q
    using pf(1) none by (auto simp: entry_def map_add_def split: option.splits)
  show "known e p = pf" using lr(3) none by (auto simp: known_def e)
  show "entry e' = (entry e)(p \<mapsto> pf')"
    using pf(2) none by (auto simp: fun_eq_iff e entry_def [of e'] e' map_add_def split: option.splits)
qed

text \<open>The shared shape of the operations that look an entry up or make it, and write it back.\<close>

definition writable :: "key_filters \<Rightarrow> uint64 \<Rightarrow> nat \<Rightarrow> key_filters \<Rightarrow> bool" where
  "writable e p i e1 \<longleftrightarrow> (\<forall>pf' n. pf_ok pf' \<and> pf_nodeID pf' = p \<and>
     n = kf_unfilteredPeers e + of_bool (waiting pf') - of_bool (waiting (known e p)) \<longrightarrow>
     peers_ok (set_peer e1 i pf'\<lparr>kf_unfilteredPeers := n\<rparr>) \<and>
     entry (set_peer e1 i pf'\<lparr>kf_unfilteredPeers := n\<rparr>) = (entry e)(p \<mapsto> pf'))"

lemma upsert:
  assumes ok: "peers_ok e" and own: "p \<noteq> kf_nodeID e"
  obtains i e1 where "getOrCreatePeerFilter e p = (i, e1)" "kf_peerKeyFilters e1 ! i = known e p"
    "kf_unfilteredPeers e1 = kf_unfilteredPeers e" "same_own e e1" "pf_nodeID (known e p) = p" "pf_ok (known e p)"
    "writable e p i e1" "peers_ok e1" "entry e1 = (entry e)(p \<mapsto> known e p)"
proof -
  have "sorted_wrt (<) (ids e)" using ok by (simp add: peers_ok_def)
  then obtain l pf r where g: "getOrCreatePeerFilter e p = (length l, e\<lparr>kf_peerKeyFilters := l @ pf # r\<rparr>)" "pf_nodeID pf = p"
    and lr: "\<forall>q \<in> set l. pf_nodeID q < p" "\<forall>q \<in> set r. p < pf_nodeID q"
      "kf_peerKeyFilters e = l @ pf # r \<or> kf_peerKeyFilters e = l @ r \<and> pf = new_peer_filter p"
    by (rule getOrCreate_spec)
  define e1 where "e1 = e\<lparr>kf_peerKeyFilters := l @ pf # r\<rparr>"
  have ps: "kf_peerKeyFilters e1 = l @ pf # r" by (simp add: e1_def)
  note k = entry_replace [OF lr g(2,2) ps]
  have pf_ok: "pf_ok pf" using lr(3) ok new_peer_filter_ok(1) by (auto simp: peers_ok_def)
  have wr: "peers_ok (set_peer e1 (length l) pf'\<lparr>kf_unfilteredPeers := n\<rparr>) \<and>
      entry (set_peer e1 (length l) pf'\<lparr>kf_unfilteredPeers := n\<rparr>) = (entry e)(p \<mapsto> pf')"
    if "pf_ok pf'" "pf_nodeID pf' = p" "n = kf_unfilteredPeers e + of_bool (waiting pf') - of_bool (waiting (known e p))" for pf' n
    using that by (intro conjI peers_ok_replace [OF ok lr own] entry_replace(2) [OF lr g(2)])
      (simp_all add: set_peer_def e1_def k(1))
  have "writable e p (length l) e1" unfolding writable_def using wr by blast
  moreover have "peers_ok e1" by (rule peers_ok_replace [OF ok lr own pf_ok g(2)]) (simp_all add: e1_def)
  ultimately show thesis
    using that [of "length l" e1] g k pf_ok by (simp add: ps flip: e1_def) (simp add: e1_def same_own_def)
qed

end
