(* ===== verification/Key_Filter_Safe.thy ===== *)
theory Key_Filter_Safe
  imports Key_Filter
begin

text \<open>
  The key filters over whole runs: each operation as a map update on the peers' entries, the invariant every
  operation keeps, and what a negative answer to a reader is worth.
\<close>

section \<open>Operations as map updates\<close>

lemma same_unfiltered: "set_peer e1 i pf\<lparr>kf_unfilteredPeers := kf_unfilteredPeers e1\<rparr> = set_peer e1 i pf"
  by (cases e1) (simp add: set_peer_def)

lemma same_own_trans: "same_own e e1 \<Longrightarrow> same_own e (set_peer e1 i pf\<lparr>kf_unfilteredPeers := n\<rparr>)" "same_own e e1 \<Longrightarrow> same_own e (set_peer e1 i pf)"
  by (simp_all add: same_own_def set_peer_def)

lemma writable_spec:
  assumes "writable e p i e1" "same_own e e1" "pf_ok pf" "pf_nodeID pf = p"
    "n = kf_unfilteredPeers e + of_bool (waiting pf) - of_bool (waiting (known e p))"
  shows "peers_ok (set_peer e1 i pf\<lparr>kf_unfilteredPeers := n\<rparr>) \<and> same_own e (set_peer e1 i pf\<lparr>kf_unfilteredPeers := n\<rparr>) \<and>
    entry (set_peer e1 i pf\<lparr>kf_unfilteredPeers := n\<rparr>) = (entry e)(p \<mapsto> pf)"
  using assms same_own_trans unfolding writable_def by blast

lemma peerFilterAdd_spec:
  assumes ok: "peers_ok e" and own: "p \<noteq> kf_nodeID e"
  shows "\<exists>e' cc. peerFilterAdd sum64 e p key = Some e' \<and> peers_ok e' \<and> same_own e e' \<and>
    entry e' = (entry e)(p \<mapsto> (known e p)\<lparr>pf_realtime := cc\<rparr>) \<and> chain_has sum64 cc key \<and>
    (\<not> chain_full sum64 (pf_realtime (known e p)) key \<longrightarrow>
       (\<forall>k. chain_has sum64 (pf_realtime (known e p)) k \<longrightarrow> chain_has sum64 cc k))"
proof -
  obtain i e1 where u: "getOrCreatePeerFilter e p = (i, e1)" "kf_peerKeyFilters e1 ! i = known e p"
    "kf_unfilteredPeers e1 = kf_unfilteredPeers e" "same_own e e1" "pf_nodeID (known e p) = p" "pf_ok (known e p)"
    and wr: "writable e p i e1"
    by (rule upsert [OF ok own]) blast
  have "chain_ok (pf_realtime (known e p))" using u(6) by (simp add: pf_ok_def)
  then obtain ch cc where a: "chain_Add sum64 (pf_realtime (known e p)) key = Some (ch, cc)" "chain_ok cc" "chain_has sum64 cc key"
    "\<not> chain_full sum64 (pf_realtime (known e p)) key \<longrightarrow>
       (\<forall>k. chain_has sum64 (pf_realtime (known e p)) k \<longrightarrow> chain_has sum64 cc k)"
    using chain_Add_spec [of "pf_realtime (known e p)" sum64 key] fingerprint_nonzero by metis
  let ?pf = "(known e p)\<lparr>pf_realtime := cc\<rparr>"
  have "peerFilterAdd sum64 e p key = Some (set_peer e1 i ?pf)" using own by (simp add: peerFilterAdd_def u(1,2) a(1))
  moreover have "pf_ok ?pf" "pf_nodeID ?pf = p" "waiting ?pf = waiting (known e p)"
    using u(5,6) a(2) by (simp_all add: pf_ok_def waiting_def)
  ultimately show ?thesis
    using writable_spec [OF wr u(4), of ?pf "kf_unfilteredPeers e1"] a(3,4) unfolding same_unfiltered by (auto simp: u(3))
qed

lemma NotePeerConnected_spec:
  assumes ok: "peers_ok e" and own: "p \<noteq> kf_nodeID e"
  shows "peers_ok (NotePeerConnected e p) \<and> same_own e (NotePeerConnected e p) \<and>
    entry (NotePeerConnected e p) = (entry e)(p \<mapsto> (known e p)\<lparr>pf_counted := True\<rparr>)"
proof -
  obtain i e1 where u: "getOrCreatePeerFilter e p = (i, e1)" "kf_peerKeyFilters e1 ! i = known e p"
    "kf_unfilteredPeers e1 = kf_unfilteredPeers e" "same_own e e1" "pf_nodeID (known e p) = p" "pf_ok (known e p)"
    and wr: "writable e p i e1"
    and e1: "peers_ok e1" "entry e1 = (entry e)(p \<mapsto> known e p)"
    by (rule upsert [OF ok own]) blast
  let ?pf = "(known e p)\<lparr>pf_counted := True\<rparr>"
  have pf: "pf_ok ?pf" "pf_nodeID ?pf = p" using u(5,6) by (simp_all add: pf_ok_def)
  have same: "kf_unfilteredPeers (set_peer e1 i x) = kf_unfilteredPeers e" for x by (simp add: set_peer_def u(3))
  show ?thesis
  proof (cases "pf_counted (known e p)")
    case True
    then have "NotePeerConnected e p = e1" "?pf = known e p" using own by (simp_all add: NotePeerConnected_def u(1,2))
    then show ?thesis using e1 u(4) by simp
  next
    case False
    then have "NotePeerConnected e p = set_peer e1 i ?pf\<lparr>kf_unfilteredPeers := kf_unfilteredPeers e + of_bool (\<not> pf_hasBulk (known e p))\<rparr>"
      using own same_unfiltered [of e1 i ?pf] by (simp add: NotePeerConnected_def u(1-3) same Let_def)
    then show ?thesis using writable_spec [OF wr u(4) pf] False by (simp add: waiting_def)
  qed
qed

lemma CachePeerFilter_spec:
  fixes v :: uint64
  assumes ok: "peers_ok e" and own: "p \<noteq> kf_nodeID e" and dec: "chain_UnmarshalBinary data = Some (Inr d)" and d: "chain_ok d"
  defines "pf' \<equiv> if \<not> pf_hasBulk (known e p) \<or> v > pf_bulkVer (known e p)
    then (known e p)\<lparr>pf_bulk := d, pf_bulkVer := v, pf_hasBulk := True\<rparr> else known e p"
  shows "\<exists>e'. CachePeerFilter e p data v = Some e' \<and> peers_ok e' \<and> same_own e e' \<and> entry e' = (entry e)(p \<mapsto> pf')"
proof -
  obtain i e1 where u: "getOrCreatePeerFilter e p = (i, e1)" "kf_peerKeyFilters e1 ! i = known e p"
    "kf_unfilteredPeers e1 = kf_unfilteredPeers e" "same_own e e1" "pf_nodeID (known e p) = p" "pf_ok (known e p)"
    and wr: "writable e p i e1"
    and e1: "peers_ok e1" "entry e1 = (entry e)(p \<mapsto> known e p)"
    by (rule upsert [OF ok own]) blast
  show ?thesis
  proof (cases "\<not> pf_hasBulk (known e p) \<or> v > pf_bulkVer (known e p)")
    case False
    then have "CachePeerFilter e p data v = Some e1" "pf' = known e p"
      using own by (simp_all add: CachePeerFilter_def u(1,2) dec pf'_def)
    then show ?thesis using e1 u(4) by simp
  next
    case True
    then have pf': "pf' = (known e p)\<lparr>pf_bulk := d, pf_bulkVer := v, pf_hasBulk := True\<rparr>" by (simp add: pf'_def)
    have "CachePeerFilter e p data v =
        Some (set_peer e1 i pf'\<lparr>kf_unfilteredPeers := kf_unfilteredPeers e - of_bool (waiting (known e p))\<rparr>)"
      using own True same_unfiltered [of e1 i pf']
      by (simp add: CachePeerFilter_def u(1-3) dec Let_def pf' waiting_def set_peer_def)
    moreover have "pf_ok pf'" "pf_nodeID pf' = p" "\<not> waiting pf'" using u(5,6) d by (simp_all add: pf' pf_ok_def waiting_def)
    ultimately show ?thesis using writable_spec [OF wr u(4), of pf'] by simp
  qed
qed

lemma removePeerKeyFilter_spec:
  assumes ok: "peers_ok e"
  shows "peers_ok (removePeerKeyFilter e p) \<and> same_own e (removePeerKeyFilter e p) \<and>
    entry (removePeerKeyFilter e p) = (entry e)(p := None)"
proof -
  have srt: "sorted_wrt (<) (ids e)" using ok by (simp add: peers_ok_def)
  obtain l r where lr: "kf_peerKeyFilters e = l @ r" "peerFilterIndex e p = (length l, r \<noteq> [] \<and> pf_nodeID (hd r) = p)"
    "\<forall>pf \<in> set l. pf_nodeID pf < p"
    "r \<noteq> [] \<Longrightarrow> pf_nodeID (hd r) \<noteq> p \<Longrightarrow> \<forall>pf \<in> set r. p < pf_nodeID pf"
    "r \<noteq> [] \<Longrightarrow> pf_nodeID (hd r) = p \<Longrightarrow> \<forall>pf \<in> set (tl r). p < pf_nodeID pf"
    by (rule peerFilterIndex_spec [OF srt, of p]) blast
  show ?thesis
  proof (cases "r \<noteq> [] \<and> pf_nodeID (hd r) = p")
    case True
    then obtain pf r' where r: "r = pf # r'" "pf_nodeID pf = p" by (cases r) auto
    then have gt: "\<forall>q \<in> set r'. p < pf_nodeID q" using lr(5) by simp
    have "removePeerKeyFilter e p =
        (if waiting pf then e\<lparr>kf_unfilteredPeers := kf_unfilteredPeers e - 1\<rparr> else e)\<lparr>kf_peerKeyFilters := l @ r'\<rparr>"
      using True by (simp add: removePeerKeyFilter_def lr(1,2) r Let_def waiting_def)
    also have "\<dots> = e\<lparr>kf_peerKeyFilters := l @ r', kf_unfilteredPeers := kf_unfilteredPeers e - of_bool (waiting pf)\<rparr>"
      by (cases e) simp
    finally have "removePeerKeyFilter e p = e\<lparr>kf_peerKeyFilters := l @ r', kf_unfilteredPeers := kf_unfilteredPeers e - of_bool (waiting pf)\<rparr>" .
    moreover have "map_of (map (\<lambda>pf. (pf_nodeID pf, pf)) l) p = None" "map_of (map (\<lambda>pf. (pf_nodeID pf, pf)) r') p = None"
      using lr(3) gt by (auto intro!: map_of_ids)
    then have "entry (e\<lparr>kf_peerKeyFilters := l @ r', kf_unfilteredPeers := n\<rparr>) = (entry e)(p := None)" for n
      using r(2)
      by (auto simp: entry_def lr(1) r fun_eq_iff map_add_def split: option.splits)
    ultimately show ?thesis
      using ok by (simp add: peers_ok_def ids_def lr(1) r sorted_wrt_append same_own_def)
  next
    case False
    then have rm: "removePeerKeyFilter e p = e" by (auto simp: removePeerKeyFilter_def lr(2))
    have "\<forall>q \<in> set r. pf_nodeID q \<noteq> p" using False lr(4) by (cases r) auto
    moreover have "\<forall>q \<in> set l. pf_nodeID q \<noteq> p" using lr(3) by auto
    ultimately have "entry e p = None" using map_of_ids [of l p] map_of_ids [of r p] by (simp add: entry_def lr(1) map_add_def)
    then show ?thesis using ok by (auto simp: rm same_own_def fun_eq_iff)
  qed
qed

section \<open>Runs\<close>

datatype kf_event =
    OwnAdd bytes
  | Snapshot
  | PeerAdd uint64 bytes
  | Connected uint64
  | Cache uint64 octets uint64
  | Remove uint64

primrec kf_step :: "(bytes \<Rightarrow> uint64) \<Rightarrow> kf_event \<Rightarrow> key_filters \<Rightarrow> key_filters option" where
  "kf_step sum64 (OwnAdd key) e = ownFilterAdd sum64 e key"
| "kf_step sum64 Snapshot e = Some (snd (OwnKeyFilterSnapshot e))"
| "kf_step sum64 (PeerAdd p key) e = peerFilterAdd sum64 e p key"
| "kf_step sum64 (Connected p) e = Some (NotePeerConnected e p)"
| "kf_step sum64 (Cache p data v) e = CachePeerFilter e p data v"
| "kf_step sum64 (Remove p) e = Some (removePeerKeyFilter e p)"

text \<open>What the environment has to respect: the own version does not wrap, no realtime segment fills up below the
  rotation threshold, and a frame decodes without a header that makes the size computations wrap.\<close>

primrec admissible :: "(bytes \<Rightarrow> uint64) \<Rightarrow> kf_event \<Rightarrow> key_filters \<Rightarrow> bool" where
  "admissible sum64 (OwnAdd key) e \<longleftrightarrow> kf_ownFilterVer e \<noteq> - 1"
| "admissible sum64 Snapshot e \<longleftrightarrow> True"
| "admissible sum64 (PeerAdd p key) e \<longleftrightarrow> \<not> chain_full sum64 (pf_realtime (known e p)) key"
| "admissible sum64 (Connected p) e \<longleftrightarrow> True"
| "admissible sum64 (Cache p data v) e \<longleftrightarrow>
     (case chain_UnmarshalBinary data of None \<Rightarrow> False | Some (Inl _) \<Rightarrow> True | Some (Inr d) \<Rightarrow> plausible d)"
| "admissible sum64 (Remove p) e \<longleftrightarrow> True"

primrec kf_run :: "(bytes \<Rightarrow> uint64) \<Rightarrow> kf_event list \<Rightarrow> key_filters \<Rightarrow> key_filters option" where
  "kf_run sum64 [] e = Some e"
| "kf_run sum64 (ev # evs) e = do { e' \<leftarrow> kf_step sum64 ev e; kf_run sum64 evs e' }"

primrec admissible_run :: "(bytes \<Rightarrow> uint64) \<Rightarrow> kf_event list \<Rightarrow> key_filters \<Rightarrow> bool" where
  "admissible_run sum64 [] e \<longleftrightarrow> True"
| "admissible_run sum64 (ev # evs) e \<longleftrightarrow>
     admissible sum64 ev e \<and> (case kf_step sum64 ev e of None \<Rightarrow> True | Some e' \<Rightarrow> admissible_run sum64 evs e')"

lemma own_ok_same: "same_own e e' \<Longrightarrow> own_ok e' \<longleftrightarrow> own_ok e"
  by (cases "kf_ownFilterBytes e") (simp_all add: same_own_def own_ok_def)

lemma ownFilterAdd_spec:
  assumes ok: "own_ok e" and ver: "kf_ownFilterVer e \<noteq> - 1"
  shows "\<exists>e'. ownFilterAdd sum64 e key = Some e' \<and> own_ok e' \<and> kf_nodeID e' = kf_nodeID e \<and>
    kf_peerKeyFilters e' = kf_peerKeyFilters e \<and> kf_unfilteredPeers e' = kf_unfilteredPeers e"
proof -
  have "chain_ok (kf_ownKeyFilter e)" using ok by (simp add: own_ok_def own_chain_def)
  then obtain ch cc where a: "chain_Add sum64 (kf_ownKeyFilter e) key = Some (ch, cc)" "own_chain cc" "ch \<longleftrightarrow> cc \<noteq> kf_ownKeyFilter e"
    using chain_Add_spec ok unfolding own_ok_def by blast
  have "1 + kf_ownFilterVer e \<noteq> 0" using ver by (simp add: add_eq_0_iff)
  then have v: "b < kf_ownFilterVer e + 1" if "b \<le> kf_ownFilterVer e" for b
    using that unatSuc [of "kf_ownFilterVer e"] by (simp add: word_le_nat_alt word_less_nat_alt add.commute)
  show ?thesis
  proof (cases "kf_ownFilterBytes e")
    case None
    then show ?thesis using a by (auto simp: ownFilterAdd_def own_ok_def Let_def)
  next
    case (Some b)
    then have "kf_ownFilterBytesVer e < kf_ownFilterVer e + 1" using ok v by (simp add: own_ok_def)
    then have "kf_ownFilterBytesVer e \<le> kf_ownFilterVer e + 1" "kf_ownFilterBytesVer e \<noteq> kf_ownFilterVer e + 1" by auto
    then show ?thesis using ok a Some by (cases ch) (simp_all add: ownFilterAdd_def own_ok_def Let_def)
  qed
qed

lemma Snapshot_spec:
  assumes "own_ok e"
  shows "fst (OwnKeyFilterSnapshot e) = (chain_MarshalBinary (kf_ownKeyFilter e), kf_ownFilterVer e)"
    "own_ok (snd (OwnKeyFilterSnapshot e))" "kf_nodeID (snd (OwnKeyFilterSnapshot e)) = kf_nodeID e"
    "kf_peerKeyFilters (snd (OwnKeyFilterSnapshot e)) = kf_peerKeyFilters e"
    "kf_unfilteredPeers (snd (OwnKeyFilterSnapshot e)) = kf_unfilteredPeers e"
  using assms by (auto simp: OwnKeyFilterSnapshot_def own_ok_def Let_def split: option.splits)

lemma same_peers:
  assumes "kf_nodeID e' = kf_nodeID e" "kf_peerKeyFilters e' = kf_peerKeyFilters e" "kf_unfilteredPeers e' = kf_unfilteredPeers e"
  shows "peers_ok e' = peers_ok e" "entry e' = entry e"
  using assms by (simp_all add: peers_ok_def ids_def entry_def)

text \<open>What a peer's entry tells about it: the realtime additions and the missing bulk filter.\<close>

definition announced :: "(bytes \<Rightarrow> uint64) \<Rightarrow> key_filters \<Rightarrow> uint64 \<Rightarrow> bytes \<Rightarrow> bool" where
  "announced sum64 e p key \<longleftrightarrow> (\<exists>pf. entry e p = Some pf \<and> chain_has sum64 (pf_realtime pf) key)"

definition presumed :: "key_filters \<Rightarrow> uint64 \<Rightarrow> bool" where
  "presumed e p \<longleftrightarrow> (\<exists>pf. entry e p = Some pf \<and> waiting pf)"

definition good_step :: "(bytes \<Rightarrow> uint64) \<Rightarrow> kf_event \<Rightarrow> key_filters \<Rightarrow> key_filters \<Rightarrow> bool" where
  "good_step sum64 ev e e' \<longleftrightarrow> kf_ok e' \<and> kf_nodeID e' = kf_nodeID e \<and>
    (\<forall>p key. announced sum64 e p key \<and> ev \<noteq> Remove p \<longrightarrow> announced sum64 e' p key) \<and>
    (\<forall>p. presumed e p \<and> ev \<noteq> Remove p \<and> (\<forall>data v. ev \<noteq> Cache p data v) \<longrightarrow> presumed e' p)"

lemma good_step_same:
  assumes "kf_ok e'" "kf_nodeID e' = kf_nodeID e" "entry e' = entry e"
  shows "good_step sum64 ev e e'"
  using assms by (simp add: good_step_def announced_def presumed_def)

lemma good_step_upsert:
  assumes ok: "kf_ok e" and e': "peers_ok e'" "same_own e e'" "entry e' = (entry e)(q \<mapsto> pf')"
    and rt: "\<And>k. chain_has sum64 (pf_realtime (known e q)) k \<Longrightarrow> chain_has sum64 (pf_realtime pf') k"
    and w: "waiting (known e q) \<longrightarrow> waiting pf' \<or> (\<exists>data v. ev = Cache q data v)"
  shows "good_step sum64 ev e e'"
proof -
  have "kf_ok e'" "kf_nodeID e' = kf_nodeID e"
    using ok e'(1,2) own_ok_same [OF e'(2)] by (simp_all add: kf_ok_def same_own_def)
  moreover have "announced sum64 e' p key" if "announced sum64 e p key" for p key
    using that rt by (auto simp: announced_def e'(3) known_def split: if_splits)
  moreover have "presumed e' p" if "presumed e p" "\<forall>data v. ev \<noteq> Cache p data v" for p
    using that w by (auto simp: presumed_def e'(3) known_def split: if_splits)
  ultimately show ?thesis unfolding good_step_def by blast
qed

lemma Cache_good_step:
  assumes ok: "kf_ok e" and adm: "admissible sum64 (Cache q data v) e"
  shows "\<exists>e'. CachePeerFilter e q data v = Some e' \<and> good_step sum64 (Cache q data v) e e'"
proof (cases "q = kf_nodeID e")
  case True
  then show ?thesis using good_step_same [OF ok] by (simp add: CachePeerFilter_def)
next
  case own: False
  show ?thesis
  proof (cases "chain_UnmarshalBinary data")
    case None
    then show ?thesis using adm by simp
  next
    case (Some r)
    show ?thesis
    proof (cases r)
      case (Inl err)
      then show ?thesis using Some own good_step_same [OF ok] by (simp add: CachePeerFilter_def)
    next
      case (Inr d)
      then have dec: "chain_UnmarshalBinary data = Some (Inr d)" and "plausible d" using Some adm by simp_all
      then have d: "chain_ok d" using chain_Unmarshal_ok by blast
      have "peers_ok e" using ok by (simp add: kf_ok_def)
      then obtain e' where "CachePeerFilter e q data v = Some e'" and e': "peers_ok e'" "same_own e e'"
        "entry e' = (entry e)(q \<mapsto> (if \<not> pf_hasBulk (known e q) \<or> v > pf_bulkVer (known e q)
           then (known e q)\<lparr>pf_bulk := d, pf_bulkVer := v, pf_hasBulk := True\<rparr> else known e q))"
        using CachePeerFilter_spec [OF _ own dec d] by blast
      moreover have "good_step sum64 (Cache q data v) e e'"
        by (rule good_step_upsert [OF ok e']) (simp_all split: if_splits)
      ultimately show ?thesis by blast
    qed
  qed
qed

lemma kf_step_spec:
  assumes ok: "kf_ok e" and adm: "admissible sum64 ev e"
  shows "\<exists>e'. kf_step sum64 ev e = Some e' \<and> good_step sum64 ev e e'"
proof -
  have pok: "peers_ok e" and ook: "own_ok e" using ok by (simp_all add: kf_ok_def)
  show ?thesis
  proof (cases ev)
    case (OwnAdd key)
    then obtain e' where "ownFilterAdd sum64 e key = Some e'" "own_ok e'" and e': "kf_nodeID e' = kf_nodeID e"
      "kf_peerKeyFilters e' = kf_peerKeyFilters e" "kf_unfilteredPeers e' = kf_unfilteredPeers e"
      using ownFilterAdd_spec [OF ook] adm by auto
    then show ?thesis using OwnAdd pok same_peers [OF e'] good_step_same [of e' e] by (simp add: kf_ok_def)
  next
    case Snapshot
    then show ?thesis
      using Snapshot_spec(2-5) [OF ook] same_peers [OF Snapshot_spec(3-5) [OF ook]] pok
        good_step_same [of "snd (OwnKeyFilterSnapshot e)" e] by (simp add: kf_ok_def)
  next
    case (PeerAdd q key)
    show ?thesis
    proof (cases "q = kf_nodeID e")
      case True
      then show ?thesis using PeerAdd good_step_same [OF ok] by (simp add: peerFilterAdd_def)
    next
      case False
      from peerFilterAdd_spec [OF pok False, of sum64 key] obtain e' cc where
        "peerFilterAdd sum64 e q key = Some e'" and e': "peers_ok e'" "same_own e e'"
        "entry e' = (entry e)(q \<mapsto> (known e q)\<lparr>pf_realtime := cc\<rparr>)"
        and keep: "\<forall>k. chain_has sum64 (pf_realtime (known e q)) k \<longrightarrow> chain_has sum64 cc k"
        using adm PeerAdd by auto
      moreover have "good_step sum64 ev e e'"
        by (rule good_step_upsert [OF ok e']) (use keep in \<open>simp_all add: waiting_def\<close>)
      ultimately show ?thesis using PeerAdd by simp
    qed
  next
    case (Connected q)
    show ?thesis
    proof (cases "q = kf_nodeID e")
      case True
      then show ?thesis using Connected good_step_same [OF ok] by (simp add: NotePeerConnected_def)
    next
      case False
      note n = NotePeerConnected_spec [OF pok False]
      have "good_step sum64 ev e (NotePeerConnected e q)"
        by (rule good_step_upsert [OF ok n [THEN conjunct1] n [THEN conjunct2, THEN conjunct1] n [THEN conjunct2, THEN conjunct2]])
          (simp_all add: waiting_def)
      then show ?thesis using Connected by simp
    qed
  next
    case (Cache q data v)
    then show ?thesis using Cache_good_step [OF ok] adm by simp
  next
    case (Remove q)
    then show ?thesis
      using removePeerKeyFilter_spec [OF pok, of q] own_ok_same [of e "removePeerKeyFilter e q"] ook
      by (simp add: good_step_def kf_ok_def same_own_def announced_def presumed_def)
  qed
qed

lemma kf_run_spec:
  "kf_ok e \<Longrightarrow> admissible_run sum64 evs e \<Longrightarrow>
   \<exists>e'. kf_run sum64 evs e = Some e' \<and> kf_ok e' \<and> kf_nodeID e' = kf_nodeID e \<and>
     (\<forall>p key. announced sum64 e p key \<and> Remove p \<notin> set evs \<longrightarrow> announced sum64 e' p key) \<and>
     (\<forall>p. presumed e p \<and> Remove p \<notin> set evs \<and> (\<forall>data v. Cache p data v \<notin> set evs) \<longrightarrow> presumed e' p)"
proof (induction evs arbitrary: e)
  case (Cons ev evs)
  obtain e1 where e1: "kf_step sum64 ev e = Some e1" "good_step sum64 ev e e1"
    using kf_step_spec [OF Cons.prems(1)] Cons.prems(2) by auto
  then have "kf_ok e1" "admissible_run sum64 evs e1" using Cons.prems(2) by (simp_all add: good_step_def)
  then obtain e' where e': "kf_run sum64 evs e1 = Some e'" "kf_ok e'" "kf_nodeID e' = kf_nodeID e1"
    and keep: "\<forall>p key. announced sum64 e1 p key \<and> Remove p \<notin> set evs \<longrightarrow> announced sum64 e' p key"
      "\<forall>p. presumed e1 p \<and> Remove p \<notin> set evs \<and> (\<forall>data v. Cache p data v \<notin> set evs) \<longrightarrow> presumed e' p"
    using Cons.IH by blast
  have "announced sum64 e' p key" if "announced sum64 e p key" "Remove p \<notin> set (ev # evs)" for p key
    using that e1(2) keep(1) by (auto simp: good_step_def)
  moreover have "presumed e' p" if p: "presumed e p" "Remove p \<notin> set (ev # evs)" "\<forall>data v. Cache p data v \<notin> set (ev # evs)" for p
  proof -
    have "ev \<noteq> Remove p" "\<forall>data v. ev \<noteq> Cache p data v" using p(2,3) by auto
    then have "presumed e1 p" using e1(2) p(1) by (simp add: good_step_def)
    then show ?thesis using keep(2) p(2,3) by simp
  qed
  ultimately show ?case using e' e1 by (simp add: good_step_def)
qed simp

section \<open>Properties\<close>

text \<open>C31: no admissible sequence of operations panics; each keeps the slice sorted without
  duplicates and without the node itself, every chain well formed, the counter equal to the number of connected peers
  whose bulk filter is missing, and the cached encoding current whenever its version is. In every state so reached the
  answer to a reader is exact: positive if and only if a connected peer has not delivered its filter or some
  peer's bulk or realtime chain admits the key.\<close>

theorem key_filter_run_ok:
  assumes "kf_ok e" "admissible_run sum64 evs e"
  shows "\<exists>e'. kf_run sum64 evs e = Some e' \<and> kf_ok e' \<and>
    clusterMaybeHasKey sum64 e' key = Some (\<exists>pf \<in> set (kf_peerKeyFilters e'). (pf_counted pf \<and> \<not> pf_hasBulk pf) \<or>
      chain_MaybeContains sum64 (pf_bulk pf) key = Some True \<or> chain_MaybeContains sum64 (pf_realtime pf) key = Some True)"
proof -
  obtain e' where "kf_run sum64 evs e = Some e'" "kf_ok e'" using kf_run_spec [OF assms] by blast
  then show ?thesis using cluster_iff [of e' sum64 key] by (simp add: kf_ok_def waiting_def chain_has_def)
qed

definition lone_node :: key_filters where
  "lone_node = \<lparr>kf_nodeID = 1, kf_ownKeyFilter = empty_chain, kf_ownFilterVer = 0, kf_ownFilterBytes = None,
     kf_ownFilterBytesVer = 0, kf_peerKeyFilters = [], kf_unfilteredPeers = 0\<rparr>"

lemma lone_node_ok: "kf_ok lone_node"
  by (simp add: lone_node_def kf_ok_def peers_ok_def own_ok_def ids_def own_chain_def new_peer_filter_ok(3))
    (simp add: empty_chain_def segments_def)

theorem key_filter_run_ok_witness:
  "\<exists>e'. kf_run (\<lambda>k. of_nat (length k)) [Connected 2, Remove 3, Connected 1] lone_node = Some e' \<and> kf_ok e' \<and>
    clusterMaybeHasKey (\<lambda>k. of_nat (length k)) e' ''k'' = Some (\<exists>pf \<in> set (kf_peerKeyFilters e').
      (pf_counted pf \<and> \<not> pf_hasBulk pf) \<or>
      chain_MaybeContains (\<lambda>k. of_nat (length k)) (pf_bulk pf) ''k'' = Some True \<or>
      chain_MaybeContains (\<lambda>k. of_nat (length k)) (pf_realtime pf) ''k'' = Some True)"
  by (rule key_filter_run_ok [OF lone_node_ok]) simp

text \<open>C32: once a peer has announced a key, and until the peer is removed, every reader is told that the
  cluster may hold the key and is sent to the peers first, whatever else happens in between. Once a peer without a bulk filter
  has connected, and until it is removed or delivers one, this holds for every key.\<close>

theorem no_false_miss:
  assumes "kf_ok e" "p \<noteq> kf_nodeID e" "Remove p \<notin> set evs"
  shows "(admissible_run sum64 (PeerAdd p key # evs) e \<longrightarrow>
      (\<exists>e'. kf_run sum64 (PeerAdd p key # evs) e = Some e' \<and> clusterMaybeHasKey sum64 e' key = Some True \<and>
        fetchHint sum64 e' key = Some PreferPeers)) \<and>
    (admissible_run sum64 (Connected p # evs) e \<and> \<not> pf_hasBulk (known e p) \<and> (\<forall>data v. Cache p data v \<notin> set evs) \<longrightarrow>
      (\<exists>e'. kf_run sum64 (Connected p # evs) e = Some e' \<and> (\<forall>k. clusterMaybeHasKey sum64 e' k = Some True)))"
proof (intro conjI impI)
  have pok: "peers_ok e" using assms(1) by (simp add: kf_ok_def)
  show "\<exists>e'. kf_run sum64 (PeerAdd p key # evs) e = Some e' \<and> clusterMaybeHasKey sum64 e' key = Some True \<and>
      fetchHint sum64 e' key = Some PreferPeers" if adm: "admissible_run sum64 (PeerAdd p key # evs) e"
  proof -
    obtain e1 where e1: "kf_step sum64 (PeerAdd p key) e = Some e1" "kf_ok e1"
      using kf_step_spec [OF assms(1), of sum64 "PeerAdd p key"] adm by (auto simp: good_step_def)
    have "announced sum64 e1 p key"
      using peerFilterAdd_spec [OF pok assms(2), of sum64 key] e1(1) by (auto simp: announced_def)
    moreover have "admissible_run sum64 evs e1" using adm e1(1) by simp
    ultimately obtain e' where e': "kf_run sum64 evs e1 = Some e'" "kf_ok e'" "announced sum64 e' p key"
      using kf_run_spec [OF e1(2), of sum64 evs] assms(3) by blast
    then have "clusterMaybeHasKey sum64 e' key = Some True" using cluster_entry by (auto simp: kf_ok_def announced_def)
    then show ?thesis using e' e1(1) by (simp add: fetchHint_def)
  qed
  show "\<exists>e'. kf_run sum64 (Connected p # evs) e = Some e' \<and> (\<forall>k. clusterMaybeHasKey sum64 e' k = Some True)"
    if adm: "admissible_run sum64 (Connected p # evs) e \<and> \<not> pf_hasBulk (known e p) \<and> (\<forall>data v. Cache p data v \<notin> set evs)"
  proof -
    let ?e1 = "NotePeerConnected e p"
    have "kf_ok ?e1" using kf_step_spec [OF assms(1), of sum64 "Connected p"] by (simp add: good_step_def)
    moreover have "presumed ?e1 p" using NotePeerConnected_spec [OF pok assms(2)] adm by (simp add: presumed_def waiting_def)
    ultimately obtain e' where e': "kf_run sum64 evs ?e1 = Some e'" "kf_ok e'" "presumed e' p"
      using kf_run_spec [of ?e1 sum64 evs] adm assms(3) by auto
    then have "clusterMaybeHasKey sum64 e' k = Some True" for k using cluster_entry by (auto simp: kf_ok_def presumed_def)
    then show ?thesis using e' by simp
  qed
qed

lemma empty_chain_fits: "\<not> chain_full sum64 empty_chain key"
proof -
  obtain f where f: "NewCuckooFilter cuckooChainChunk = Some f" "cuckoo_ok f" "set (cf_buckets f) \<subseteq> {0}"
    by (rule fresh_segment) blast
  then obtain f' where "cuckoo_Add sum64 f key = Some (None, f')" using Add_empty by blast
  then show ?thesis by (simp add: chain_full_def rotated_def empty_chain_def f(1))
qed

lemma lone_node_knows_none: "known lone_node p = new_peer_filter p"
  by (simp add: known_def entry_def lone_node_def)

lemma lone_node_admits: "admissible_run sum64 (PeerAdd 2 key # [Connected 3, Remove 3]) lone_node"
  using empty_chain_fits by (simp add: lone_node_knows_none new_peer_filter_def split: option.split)

theorem no_false_miss_witness:
  "(\<exists>e'. kf_run (\<lambda>k. of_nat (length k)) (PeerAdd 2 ''k'' # [Connected 3, Remove 3]) lone_node = Some e' \<and>
        clusterMaybeHasKey (\<lambda>k. of_nat (length k)) e' ''k'' = Some True \<and>
        fetchHint (\<lambda>k. of_nat (length k)) e' ''k'' = Some PreferPeers) \<and>
    (\<exists>e'. kf_run (\<lambda>k. of_nat (length k)) (Connected 2 # [Connected 3, Remove 3]) lone_node = Some e' \<and>
        (\<forall>k. clusterMaybeHasKey (\<lambda>k. of_nat (length k)) e' k = Some True))"
proof -
  have p: "2 \<noteq> kf_nodeID lone_node" "Remove 2 \<notin> set [Connected 3, Remove 3]" by (simp_all add: lone_node_def)
  have c: "admissible_run (\<lambda>k. of_nat (length k)) (Connected 2 # [Connected 3, Remove 3]) lone_node \<and>
      \<not> pf_hasBulk (known lone_node 2) \<and> (\<forall>data v. Cache 2 data v \<notin> set [Connected 3, Remove 3])"
    by (simp add: lone_node_knows_none new_peer_filter_def)
  note nm = no_false_miss [OF lone_node_ok p, of "\<lambda>k. of_nat (length k)" "''k''"]
  show ?thesis using nm [THEN conjunct1, THEN mp, OF lone_node_admits] nm [THEN conjunct2, THEN mp, OF c] by blast
qed

text \<open>C33: the filter a node publishes, cached encoding or fresh, decodes at a peer without error,
  and once the peer has applied it (because it had none of that node, or an older version), every key the node's own filter
  answers is answered there too.\<close>

theorem own_filter_reaches_peer:
  assumes a: "kf_ok a" "length (segments (kf_ownKeyFilter a)) < 2 ^ 32"
    and b: "kf_ok b" "kf_nodeID a \<noteq> kf_nodeID b"
    and new: "\<not> pf_hasBulk (known b (kf_nodeID a)) \<or> kf_ownFilterVer a > pf_bulkVer (known b (kf_nodeID a))"
  shows "\<exists>b'. CachePeerFilter b (kf_nodeID a) (fst (fst (OwnKeyFilterSnapshot a))) (snd (fst (OwnKeyFilterSnapshot a))) = Some b' \<and>
    kf_ok b' \<and> (\<forall>key. chain_MaybeContains sum64 (kf_ownKeyFilter a) key = Some True \<longrightarrow>
      clusterMaybeHasKey sum64 b' key = Some True)"
proof -
  let ?own = "kf_ownKeyFilter a" and ?p = "kf_nodeID a"
  have own: "own_chain ?own" "chain_ok ?own" using a(1) by (simp_all add: kf_ok_def own_ok_def own_chain_def)
  define d where "d = \<lparr>cc_sealed = map (\<lambda>f. f\<lparr>cf_kickSeed := 0\<rparr>) (segments ?own), cc_active = None\<rparr>"
  have dec: "chain_UnmarshalBinary (chain_MarshalBinary ?own) = Some (Inr d)"
    using chain_codec [OF own(2) own_chain_small [OF own(1) a(2)]] by (simp add: d_def)
  have d: "chain_ok d" "\<And>key. chain_MaybeContains sum64 d key = chain_MaybeContains sum64 ?own key"
    unfolding d_def by (rule seeded_has [OF own(2)])+
  have b_ok: "peers_ok b" "own_ok b" using b(1) by (simp_all add: kf_ok_def)
  obtain b' where b': "CachePeerFilter b ?p (chain_MarshalBinary ?own) (kf_ownFilterVer a) = Some b'" "peers_ok b'" "same_own b b'"
    "entry b' = (entry b)(?p \<mapsto> (known b ?p)\<lparr>pf_bulk := d, pf_bulkVer := kf_ownFilterVer a, pf_hasBulk := True\<rparr>)"
    using CachePeerFilter_spec [OF b_ok(1) b(2) dec d(1), of "kf_ownFilterVer a"] new by auto
  have "clusterMaybeHasKey sum64 b' key = Some True" if "chain_MaybeContains sum64 ?own key = Some True" for key
    using that d(2) [of key] unfolding cluster_entry [OF b'(2)] b'(4) by (auto simp: chain_has_def intro!: exI [of _ ?p])
  moreover have "kf_ok b'" using b'(2,3) b_ok(2) own_ok_same by (simp add: kf_ok_def)
  moreover have "fst (OwnKeyFilterSnapshot a) = (chain_MarshalBinary ?own, kf_ownFilterVer a)"
    using Snapshot_spec(1) a(1) by (simp add: kf_ok_def)
  ultimately show ?thesis using b'(1) by simp
qed

theorem own_filter_reaches_peer_witness:
  "\<exists>b'. CachePeerFilter lone_node (kf_nodeID (lone_node\<lparr>kf_nodeID := 2\<rparr>)) (fst (fst (OwnKeyFilterSnapshot (lone_node\<lparr>kf_nodeID := 2\<rparr>))))
      (snd (fst (OwnKeyFilterSnapshot (lone_node\<lparr>kf_nodeID := 2\<rparr>)))) = Some b' \<and>
    kf_ok b' \<and> (\<forall>key. chain_MaybeContains (\<lambda>k. of_nat (length k)) (kf_ownKeyFilter (lone_node\<lparr>kf_nodeID := 2\<rparr>)) key = Some True \<longrightarrow>
      clusterMaybeHasKey (\<lambda>k. of_nat (length k)) b' key = Some True)"
proof (rule own_filter_reaches_peer)
  show "kf_ok (lone_node\<lparr>kf_nodeID := 2\<rparr>)"
    using lone_node_ok by (simp add: kf_ok_def peers_ok_def own_ok_def ids_def lone_node_def)
  show "length (segments (kf_ownKeyFilter (lone_node\<lparr>kf_nodeID := 2\<rparr>))) < 2 ^ 32"
    by (simp add: lone_node_def empty_chain_def segments_def)
qed (rule lone_node_ok, simp_all add: lone_node_def known_def entry_def new_peer_filter_def)

text \<open>C34: a sixteen-byte frame from a peer, one segment whose header claims \<open>2 ^ 62\<close> buckets,
  is accepted as that peer's filter, and from then on every query of every key panics instead of answering.\<close>

theorem overflowing_frame_panics:
  "\<exists>e'. CachePeerFilter lone_node 2 (be32 1 @ be32 8 @ be64 (2 ^ 62)) version = Some e' \<and>
     clusterMaybeHasKey sum64 e' key = None"
proof -
  let ?bad = "\<lparr>cf_buckets = [], cf_numBuckets = 2 ^ 62, cf_count = 0, cf_kickSeed = 0\<rparr>"
  have n: "be_nat (be32 8) = 8" "be_nat (be32 1) = 1" using be_nat_be32 [of 8] be_nat_be32 [of 1] by simp_all
  have "unmarshal_loop 1 (be32 1 @ be32 8 @ be64 (2 ^ 62)) 4 [] = Some (Inr [?bad])"
    using Unmarshal_overflow [of "\<lambda>_. 0" "[]"] by (simp add: Let_def n del: power_numeral)
  then have dec: "chain_UnmarshalBinary (be32 1 @ be32 8 @ be64 (2 ^ 62)) = Some (Inr \<lparr>cc_sealed = [?bad], cc_active = None\<rparr>)"
    by (simp add: chain_UnmarshalBinary_def Let_def n del: power_numeral)
  have search: "binary_search [] 2 0 0 = 0" by (simp add: binary_search.simps)
  show ?thesis
    using Unmarshal_overflow [of sum64 key]
    by (simp add: CachePeerFilter_def dec lone_node_def getOrCreatePeerFilter_def peerFilterIndex_def search Let_def
        new_peer_filter_def set_peer_def clusterMaybeHasKey_def pf_maybeContains_def chain_MaybeContains_def del: power_numeral)
qed

end
