(* ===== verification/Crit_Bits.thy ===== *)
theory Crit_Bits
  imports Go_Base
begin

text \<open>
  Critical bits of byte strings (keytrie/critbit.go). A position is a byte index and a mask with all bits set
  but one, or, as \<open>0xFF\<close>, the question whether the string reaches that byte. The laws at the end say what
  the trie relies on: distinct keys differ at their critical position, agree before it, and are ordered
  by it.
\<close>

unbundle bit_operations_syntax

section \<open>The model\<close>

type_synonym crit_pos = "32 word \<times> 8 word"

definition key_byte :: "bytes \<Rightarrow> nat \<Rightarrow> 8 word" where
  "key_byte key i = of_nat (of_char (key ! i))"

definition highestBit :: "8 word \<Rightarrow> 8 word" where
  "highestBit b =
     (if b = 0 then 0
      else
        let b = b OR drop_bit 1 b; b = b OR drop_bit 2 b; b = b OR drop_bit 4 b
        in b XOR drop_bit 1 b)"

definition findCritBit :: "bytes \<Rightarrow> bytes \<Rightarrow> crit_pos" where
  "findCritBit a b =
     (let minLen = min (length b) (length a) in
      case find (\<lambda>i. a ! i \<noteq> b ! i) [0..<minLen] of
        Some i \<Rightarrow> (of_nat i, highestBit (key_byte a i XOR key_byte b i) XOR 0xFF)
      | None \<Rightarrow>
          if length a \<noteq> length b
          then let a = (if length a < length b then b else a)
            in (of_nat minLen, highestBit (key_byte a minLen) XOR 0xFF)
          else (0, 0))"

definition getDirection :: "bytes \<Rightarrow> crit_pos \<Rightarrow> nat" where
  "getDirection key p =
     (let (bytePos, otherbits) = p in
      if unat bytePos \<ge> length key then 0
      else unat (drop_bit 8 (1 + (ucast (otherbits OR key_byte key (unat bytePos)) :: 16 word))))"

definition shouldInsertBefore :: "crit_pos \<Rightarrow> crit_pos \<Rightarrow> bool" where
  "shouldInsertBefore new cur \<longleftrightarrow> fst new < fst cur \<or> fst new = fst cur \<and> snd new < snd cur"

section \<open>Masks\<close>

definition mask_for :: "nat \<Rightarrow> 8 word" where
  "mask_for k = NOT (2 ^ k)"

lemma mask_for_bit: "k < 8 \<Longrightarrow> bit (mask_for k) n \<longleftrightarrow> n < 8 \<and> n \<noteq> k"
  by (auto simp: mask_for_def bit_not_iff bit_exp_iff)

lemma full_mask: "(0xFF :: 8 word) = - 1"
  by simp

lemma or_full_iff: "k < 8 \<Longrightarrow> mask_for k OR c = - 1 \<longleftrightarrow> bit c k"
  by (subst bit_eq_iff) (auto simp: bit_or_iff mask_for_bit)

lemma carry: "unat (drop_bit 8 (1 + (ucast x :: 16 word))) = of_bool (x = (- 1 :: 8 word))"
proof -
  have lt: "unat x < 256" using unsigned_less [of x, where ?'a = nat] by simp
  have full: "x = - 1 \<longleftrightarrow> unat x = 255" using word_unat_eq_iff [of x "0xFF"] by (simp only: full_mask [symmetric]) simp
  have u: "unat (1 + (ucast x :: 16 word)) = unat x + 1"
    using lt by (subst unat_add_lem [THEN iffD1]) (simp_all add: unsigned_ucast_eq take_bit_nat_eq_self)
  have "unat (drop_bit 8 (1 + (ucast x :: 16 word))) = (unat x + 1) div 256"
    by (simp only: unat_drop_bit_eq u) (simp add: drop_bit_eq_div)
  then show ?thesis using full lt by auto
qed

lemma direction_bit:
  "k < 8 \<Longrightarrow> getDirection key (p, mask_for k) = of_bool (unat p < length key \<and> bit (key_byte key (unat p)) k)"
  by (auto simp: getDirection_def carry or_full_iff)

lemma direction_length: "getDirection key (p, 0xFF) = of_bool (unat p < length key)"
proof -
  have "(0xFF :: 8 word) OR c = - 1" for c unfolding full_mask by simp
  then show ?thesis by (auto simp: getDirection_def carry)
qed

section \<open>The highest set bit\<close>

lemma smear_step:
  fixes b x :: "8 word"
  assumes "\<And>n. bit x n \<longleftrightarrow> (\<exists>d<m. bit b (n + d))"
  shows "bit (x OR drop_bit m x) n \<longleftrightarrow> (\<exists>d<m + m. bit b (n + d))"
proof -
  have "(\<exists>d<m + m. bit b (n + d)) \<longleftrightarrow> (\<exists>d<m. bit b (n + d)) \<or> (\<exists>d<m. bit b (n + (m + d)))"
  proof
    assume "\<exists>d<m + m. bit b (n + d)"
    then obtain d where d: "d < m + m" "bit b (n + d)" by blast
    show "(\<exists>d<m. bit b (n + d)) \<or> (\<exists>d<m. bit b (n + (m + d)))"
    proof (cases "d < m")
      case False
      then have "d - m < m" "m + (d - m) = d" using d(1) by simp_all
      then show ?thesis using d(2) by metis
    qed (use d in blast)
  qed (metis nat_add_left_cancel_less trans_less_add1)
  then show ?thesis using assms by (simp add: bit_or_iff bit_drop_bit_eq add.assoc add.left_commute)
qed

lemma highestBit_spec:
  assumes "b \<noteq> 0"
  obtains k where "k < 8" "bit b k" "\<And>j. k < j \<Longrightarrow> \<not> bit b j" "highestBit b = 2 ^ k"
proof -
  have fin: "finite {n. bit b n}" by (rule finite_subset [of _ "{..<8}"]) (auto dest: bit_imp_le_length)
  have ne: "{n. bit b n} \<noteq> {}" using assms by (auto simp: bit_eq_iff [of b 0])
  define k where "k = Max {n. bit b n}"
  have k: "bit b k" using Max_in [OF fin ne] by (simp add: k_def)
  have top: "j \<le> k" if "bit b j" for j using Max_ge [OF fin] that by (simp add: k_def)
  have k8: "k < 8" using bit_imp_le_length [OF k] by simp
  define s1 s2 s where "s1 = b OR drop_bit 1 b" "s2 = s1 OR drop_bit 2 s1" "s = s2 OR drop_bit 4 s2"
  note sdefs = s1_s2_s_def
  have "bit s1 n \<longleftrightarrow> (\<exists>d<2. bit b (n + d))" for n
    using smear_step [of b 1 b n] by (simp add: sdefs numeral_2_eq_2)
  then have "bit s2 n \<longleftrightarrow> (\<exists>d<4. bit b (n + d))" for n
    using smear_step [of s1 2 b n] by (simp add: sdefs)
  then have w: "bit s n \<longleftrightarrow> (\<exists>d<8. bit b (n + d))" for n
    using smear_step [of s2 4 b n] by (simp add: sdefs)
  have s: "bit s n \<longleftrightarrow> n \<le> k" for n
  proof
    assume "bit s n"
    then obtain d where "bit b (n + d)" using w by blast
    then show "n \<le> k" using top by fastforce
  next
    assume "n \<le> k"
    then have "k - n < 8" "bit b (n + (k - n))" using k k8 by simp_all
    then show "bit s n" using w by blast
  qed
  have "highestBit b = s XOR drop_bit 1 s" using assms by (simp only: highestBit_def sdefs Let_def if_False)
  also have "\<dots> = 2 ^ k"
    using k8 by (intro bit_eqI) (auto simp: bit_xor_iff bit_drop_bit_eq s bit_exp_iff)
  finally show thesis using that [of k] k8 k top by (meson leD)
qed

section \<open>The laws\<close>

text \<open>Positions of the trie, and the keys whose bytes a position can address.\<close>

definition posn :: "crit_pos \<Rightarrow> bool" where
  "posn p \<longleftrightarrow> snd p = 0xFF \<or> (\<exists>k<8. snd p = mask_for k)"

definition short_key :: "bytes \<Rightarrow> bool" where
  "short_key key \<longleftrightarrow> length key < 2 ^ 32"

lemma before_order:
  "\<not> shouldInsertBefore p p"
  "shouldInsertBefore p q \<Longrightarrow> shouldInsertBefore q r \<Longrightarrow> shouldInsertBefore p r"
  "p \<noteq> q \<Longrightarrow> shouldInsertBefore p q \<or> shouldInsertBefore q p"
  by (auto simp: shouldInsertBefore_def prod_eq_iff)

lemma mask_for_less:
  assumes "j < 8" "k < 8"
  shows "mask_for j < mask_for k \<longleftrightarrow> k < j" "mask_for j < 0xFF"
proof -
  have m: "unat (mask_for i) = 255 - 2 ^ i" if "i < 8" for i
  proof -
    have "(2::nat) ^ i < 2 ^ 8" using that by (rule power_strict_increasing) simp
    then have "unat (2 ^ i :: 8 word) = 2 ^ i" using unat_of_nat [of "2 ^ i", where ?'a = 8] by simp
    moreover have "mask_for i = 0xFF - 2 ^ i" unfolding full_mask mask_for_def by (simp add: not_eq_complement)
    ultimately show ?thesis using \<open>2 ^ i < 2 ^ 8\<close> by (simp add: unat_sub word_le_nat_alt)
  qed
  have le: "(2::nat) ^ i \<le> 128" if "i < 8" for i
    using power_increasing [of i 7 "2::nat"] that by simp
  have "255 - 2 ^ j < 255 - (2::nat) ^ k \<longleftrightarrow> (2::nat) ^ k < 2 ^ j" using le [OF assms(1)] le [OF assms(2)] by linarith
  then show "mask_for j < mask_for k \<longleftrightarrow> k < j" using assms by (simp add: word_less_nat_alt m)
  have "(0::nat) < 2 ^ j" by simp
  then show "mask_for j < 0xFF" using le [OF assms(1)] by (simp add: word_less_nat_alt m [OF assms(1)])
qed

text \<open>The byte of a key, with zeros behind its end.\<close>

definition pad_byte :: "bytes \<Rightarrow> nat \<Rightarrow> 8 word" where
  "pad_byte key i = (if i < length key then key_byte key i else 0)"

lemma direction_pad: "k < 8 \<Longrightarrow> getDirection key (p, mask_for k) = of_bool (bit (pad_byte key (unat p)) k)"
  by (auto simp: direction_bit pad_byte_def)

lemma xor_full: "x XOR 0xFF = NOT (x :: 8 word)"
  unfolding full_mask by simp

text \<open>Two keys that agree up to byte \<open>i\<close> and differ there, as padded bytes or in length.\<close>

lemma crit_at:
  assumes i: "unat p = i" and agree: "\<And>j. j < i \<Longrightarrow> j < length a \<and> j < length b \<and> a ! j = b ! j"
    and d: "pad_byte a i XOR pad_byte b i = d" "d \<noteq> 0 \<or> (i < length a) \<noteq> (i < length b)"
    and pos: "pos = (p, highestBit d XOR 0xFF)"
  shows "posn pos" "getDirection a pos \<noteq> getDirection b pos"
    "posn q \<Longrightarrow> shouldInsertBefore q pos \<Longrightarrow> getDirection a q = getDirection b q"
proof -
  have earlier: "getDirection a q = getDirection b q" if "posn q" "unat (fst q) < i" for q
  proof -
    have "pad_byte a (unat (fst q)) = pad_byte b (unat (fst q))" "unat (fst q) < length a" "unat (fst q) < length b"
      using agree [OF that(2)] by (simp_all add: pad_byte_def key_byte_def)
    then show ?thesis using that(1) by (cases q) (auto simp: posn_def direction_pad direction_length)
  qed
  have "posn pos \<and> getDirection a pos \<noteq> getDirection b pos \<and>
    (\<forall>q. posn q \<and> shouldInsertBefore q pos \<longrightarrow> getDirection a q = getDirection b q)"
  proof (cases "d = 0")
    case True
    have pos': "pos = (p, 0xFF)" using True by (simp add: pos highestBit_def)
    have same: "pad_byte a i = pad_byte b i"
    proof (rule bit_eqI)
      fix n show "bit (pad_byte a i) n = bit (pad_byte b i) n"
        using d(1) True by (metis bit_xor_iff bit_0_eq bot_apply bot_bool_def)
    qed
    have "getDirection a q = getDirection b q" if "posn q" "shouldInsertBefore q pos" for q
    proof (cases "unat (fst q) < i")
      case False
      then have "fst q = p" "snd q < 0xFF" using that(2) i by (auto simp: shouldInsertBefore_def pos' word_less_nat_alt)
      then show ?thesis using that(1) same i by (cases q) (auto simp: posn_def direction_pad)
    qed (rule earlier [OF that(1)])
    then show ?thesis using d(2) True i by (auto simp: pos' posn_def direction_length)
  next
    case False
    obtain k where k: "k < 8" "bit d k" "\<And>j. k < j \<Longrightarrow> \<not> bit d j" "highestBit d = 2 ^ k"
      by (rule highestBit_spec [OF False]) blast
    have pos': "pos = (p, mask_for k)" by (simp add: pos k(4) xor_full mask_for_def)
    have bits: "bit d j \<longleftrightarrow> bit (pad_byte a i) j \<noteq> bit (pad_byte b i) j" for j
      unfolding d(1) [symmetric] by (simp add: bit_xor_iff)
    have "getDirection a q = getDirection b q" if pq: "posn q" "shouldInsertBefore q pos" for q
    proof (cases "unat (fst q) < i")
      case False
      then have q: "fst q = p" "snd q < mask_for k" using pq(2) i by (auto simp: shouldInsertBefore_def pos' word_less_nat_alt)
      moreover have "\<not> (0xFF :: 8 word) < mask_for k" using mask_for_less(2) [OF k(1) k(1)] by simp
      ultimately obtain j where "j < 8" "snd q = mask_for j" "k < j"
        using pq(1) mask_for_less(1) [OF _ k(1)] by (auto simp: posn_def)
      then show ?thesis using q(1) k(3) [of j] bits [of j] i by (cases q) (auto simp: direction_pad)
    qed (rule earlier [OF pq(1)])
    then show ?thesis using k(1,2) bits [of k] i by (auto simp: pos' posn_def direction_pad)
  qed
  then show "posn pos" "getDirection a pos \<noteq> getDirection b pos"
    "posn q \<Longrightarrow> shouldInsertBefore q pos \<Longrightarrow> getDirection a q = getDirection b q" by blast+
qed

lemma bits_less:
  fixes x y :: "8 word"
  assumes "bit x k" "\<not> bit y k" "\<And>j. k < j \<Longrightarrow> bit x j = bit y j"
  shows "y < x"
proof -
  have up: "unat z div 2 ^ k = 2 * (unat z div 2 ^ Suc k) + of_bool (bit z k)" for z :: "8 word"
  proof -
    have "bit z k \<longleftrightarrow> odd (unat z div 2 ^ k)" using bit_iff_odd [of "unat z" k] by (simp add: bit_unsigned_iff)
    moreover have "unat z div 2 ^ k = 2 * (unat z div 2 ^ k div 2) + of_bool (odd (unat z div 2 ^ k))" by simp
    moreover have "unat z div 2 ^ k div 2 = unat z div 2 ^ Suc k" unfolding power_Suc2 by (simp add: div_mult2_eq)
    ultimately show ?thesis by simp
  qed
  have "drop_bit (Suc k) x = drop_bit (Suc k) y" using assms(3) by (intro bit_eqI) (simp add: bit_drop_bit_eq)
  then have "unat (drop_bit (Suc k) x) = unat (drop_bit (Suc k) y)" by simp
  then have "drop_bit (Suc k) (unat x) = drop_bit (Suc k) (unat y)" by (simp only: unat_drop_bit_eq)
  then have "unat x div 2 ^ Suc k = unat y div 2 ^ Suc k" by (simp only: drop_bit_eq_div)
  then have "unat y div 2 ^ k < unat x div 2 ^ k" using up [of x] up [of y] assms(1,2) by simp
  then have "unat y < unat x" by (meson div_le_mono leD leI)
  then show ?thesis by (simp add: word_less_nat_alt)
qed

lemma lex_at:
  assumes "\<And>j. j < i \<Longrightarrow> j < length a \<and> j < length b \<and> a ! j = b ! j"
    and "i < length b" "i \<ge> length a \<or> a ! i < b ! i"
  shows "(a :: bytes) < b"
proof -
  have app: "p @ xs < p @ ys \<longleftrightarrow> xs < ys" for p xs ys :: bytes by (induction p) auto
  have "i \<le> length a" "i \<le> length b" using assms(1) by (meson leI less_irrefl)+
  then have t: "take i a = take i b" using assms(1) by (intro nth_equalityI) auto
  show ?thesis
  proof (cases "i < length a")
    case True
    have "take i b @ a ! i # drop (Suc i) a < take i b @ b ! i # drop (Suc i) b" using assms(3) True by (simp add: app)
    then show ?thesis using id_take_nth_drop [OF True] id_take_nth_drop [OF assms(2)] t by metis
  next
    case False
    then have "a = take i b" using t by simp
    moreover have "take i b @ [] < take i b @ b ! i # drop (Suc i) b" unfolding app by simp
    ultimately show ?thesis using id_take_nth_drop [OF assms(2)] by (metis append_Nil2)
  qed
qed

lemma crit_order_at:
  assumes i: "unat p = i" and agree: "\<And>j. j < i \<Longrightarrow> j < length a \<and> j < length b \<and> a ! j = b ! j"
    and d: "pad_byte a i XOR pad_byte b i = d" and pos: "pos = (p, highestBit d XOR 0xFF)"
    and dir: "getDirection a pos = 0" "getDirection b pos = 1"
  shows "a < b"
proof (cases "d = 0")
  case True
  then have "pos = (p, 0xFF)" by (simp add: pos highestBit_def)
  then have "i \<ge> length a" "i < length b" using dir i by (simp_all add: direction_length of_bool_def split: if_splits)
  then show ?thesis using lex_at [OF agree] by blast
next
  case False
  obtain k where k: "k < 8" "bit d k" "\<And>j. k < j \<Longrightarrow> \<not> bit d j" "highestBit d = 2 ^ k"
    by (rule highestBit_spec [OF False]) blast
  have pos': "pos = (p, mask_for k)" by (simp add: pos k(4) xor_full mask_for_def)
  have "bit (pad_byte b i) k" "\<not> bit (pad_byte a i) k" using dir i k(1) by (simp_all add: pos' direction_pad of_bool_def split: if_splits)
  moreover have "bit (pad_byte b i) j = bit (pad_byte a i) j" if "k < j" for j
    using k(3) [OF that] unfolding d [symmetric] by (auto simp: bit_xor_iff)
  ultimately have less: "pad_byte a i < pad_byte b i" by (rule bits_less)
  then have ib: "i < length b" by (auto simp: pad_byte_def split: if_splits)
  moreover have "a ! i < b ! i" if "i < length a"
  proof -
    have u: "unat (key_byte x i) = of_char (x ! i)" for x
      unfolding key_byte_def using unat_of_nat [of "of_char (x ! i)", where ?'a = 8] by simp
    have "unat (key_byte a i) < unat (key_byte b i)" using less that ib by (simp add: pad_byte_def word_less_nat_alt)
    then show ?thesis unfolding u by (simp add: less_char_def)
  qed
  ultimately show ?thesis using lex_at [OF agree] by (meson leI)
qed

lemma key_byte_eq: "key_byte a i = key_byte b i \<longleftrightarrow> a ! i = b ! i"
proof -
  have u: "unat (key_byte x i) = of_char (x ! i)" for x
    unfolding key_byte_def using unat_of_nat [of "of_char (x ! i)", where ?'a = 8] by simp
  show ?thesis unfolding word_unat_eq_iff u by simp
qed

lemma xor_zero:
  fixes x y :: "8 word"
  assumes "x XOR y = 0"
  shows "x = y"
proof -
  have "(x XOR y) XOR y = x" by (simp add: xor.assoc)
  then show ?thesis using assms by simp
qed

lemma findCritBit_at:
  assumes "short_key a" "short_key b" "a \<noteq> b"
  obtains i p d where "unat p = i" "\<And>j. j < i \<Longrightarrow> j < length a \<and> j < length b \<and> a ! j = b ! j"
    "pad_byte a i XOR pad_byte b i = d" "d \<noteq> 0 \<or> (i < length a) \<noteq> (i < length b)"
    "findCritBit a b = (p, highestBit d XOR 0xFF)"
proof -
  let ?m = "min (length b) (length a)"
  have un: "unat (of_nat i :: 32 word) = i" if "i \<le> ?m" for i
    using that assms(1,2) unat_of_nat [of i, where ?'a = 32] by (simp add: short_key_def)
  show thesis
  proof (cases "find (\<lambda>i. a ! i \<noteq> b ! i) [0..<?m]")
    case (Some i)
    then have i: "i < ?m" "a ! i \<noteq> b ! i" "\<forall>j<i. a ! j = b ! j" by (auto simp: find_Some_iff)
    have "key_byte a i XOR key_byte b i \<noteq> 0" using i(2) key_byte_eq [of a i b] xor_zero by blast
    then show thesis using i un [of i] Some
      by (intro that [of "of_nat i" i "key_byte a i XOR key_byte b i"]) (auto simp: pad_byte_def findCritBit_def)
  next
    case None
    then have same: "\<forall>j<?m. a ! j = b ! j" by (auto simp: find_None_iff)
    have len: "length a \<noteq> length b"
    proof
      assume "length a = length b"
      then have "a = b" using same by (intro nth_equalityI) auto
      then show False using assms(3) by blast
    qed
    show thesis
    proof (cases "length a < length b")
      case True
      then have m: "?m = length a" by simp
      show thesis using True None same un [of "length a"]
        by (intro that [of "of_nat (length a)" "length a" "pad_byte a (length a) XOR pad_byte b (length a)"])
          (auto simp: pad_byte_def findCritBit_def m Let_def)
    next
      case False
      then have m: "?m = length b" "length b < length a" using len by simp_all
      show thesis using m(2) None same un [of "length b"]
        by (intro that [of "of_nat (length b)" "length b" "pad_byte a (length b) XOR pad_byte b (length b)"])
          (auto simp: pad_byte_def findCritBit_def m(1) Let_def)
    qed
  qed
qed

lemma crit_posn: "short_key a \<Longrightarrow> short_key b \<Longrightarrow> a \<noteq> b \<Longrightarrow> posn (findCritBit a b)"
  by (erule (2) findCritBit_at) (rule crit_at(1))

lemma crit_differs: "short_key a \<Longrightarrow> short_key b \<Longrightarrow> a \<noteq> b \<Longrightarrow> getDirection a (findCritBit a b) \<noteq> getDirection b (findCritBit a b)"
  by (erule (2) findCritBit_at) (rule crit_at(2))

lemma crit_first:
  "short_key a \<Longrightarrow> short_key b \<Longrightarrow> a \<noteq> b \<Longrightarrow> posn q \<Longrightarrow> shouldInsertBefore q (findCritBit a b) \<Longrightarrow>
   getDirection a q = getDirection b q"
  by (erule (2) findCritBit_at) (rule crit_at(3))

lemma direction_cases: "posn p \<Longrightarrow> getDirection key p = 0 \<or> getDirection key p = 1"
  by (cases p) (auto simp: posn_def direction_pad direction_length)

lemma crit_order:
  assumes "short_key a" "short_key b" "a \<noteq> b"
  shows "a < b \<longleftrightarrow> getDirection a (findCritBit a b) = 0"
proof -
  let ?p = "findCritBit a b"
  obtain i p d where at: "unat p = i" "\<And>j. j < i \<Longrightarrow> j < length a \<and> j < length b \<and> a ! j = b ! j"
    "pad_byte a i XOR pad_byte b i = d" "?p = (p, highestBit d XOR 0xFF)"
    by (rule findCritBit_at [OF assms]) blast
  have sym: "\<And>j. j < i \<Longrightarrow> j < length b \<and> j < length a \<and> b ! j = a ! j" "pad_byte b i XOR pad_byte a i = d"
    using at(2,3) by (auto simp: xor.commute)
  have "getDirection a ?p = 0 \<and> getDirection b ?p = 1 \<or> getDirection b ?p = 0 \<and> getDirection a ?p = 1"
    using crit_differs [OF assms] direction_cases [OF crit_posn [OF assms]] by metis
  then show ?thesis
    using crit_order_at [OF at] crit_order_at [OF at(1) sym at(4)] by (auto dest: less_not_sym)
qed

end
