(* ===== verification/Crit_Trie.thy ===== *)
theory Crit_Trie
  imports Crit_Bits "HOL-Library.Monad_Syntax"
begin

text \<open>
  The crit-bit trie as a search tree (keytrie/critbit.go, keytrie/reclaim.go): descent, the splice of a new
  leaf, and the unlinking of dead leaves. A node's role never changes, so the tree is a datatype; the
  leaf's payload is opaque here but for its key. The invariant is that a node separates its subtrees by
  a bit before which all its keys agree; it makes every operation find the right leaf and the in-order
  sequence of keys increasing.
\<close>

section \<open>The model\<close>

datatype 'l trie = Leaf 'l | Node crit_pos "'l trie" "'l trie"

primrec findBestMatch :: "'l trie \<Rightarrow> bytes \<Rightarrow> 'l" where
  "findBestMatch (Leaf x) key = x"
| "findBestMatch (Node p l r) key = (if getDirection key p = 0 then findBestMatch l key else findBestMatch r key)"

text \<open>The internal node that replaces \<open>node\<close>: the new leaf on one side, the old subtree on the other.\<close>

definition splice :: "bytes \<Rightarrow> 'l \<Rightarrow> crit_pos \<Rightarrow> 'l trie \<Rightarrow> 'l trie" where
  "splice key x pos node = (if getDirection key pos = 0 then Node pos (Leaf x) node else Node pos node (Leaf x))"

text \<open>The descent of \<open>Insert\<close> to the link to replace; \<open>None\<close> is \<open>continue\<close>, another attempt.\<close>

primrec link_insert :: "('l \<Rightarrow> bytes) \<Rightarrow> bytes \<Rightarrow> 'l \<Rightarrow> crit_pos \<Rightarrow> 'l trie \<Rightarrow> 'l trie option" where
  "link_insert kf key x pos (Leaf y) =
     (if findCritBit key (kf y) \<noteq> pos then None else Some (splice key x pos (Leaf y)))"
| "link_insert kf key x pos (Node p l r) =
     (if shouldInsertBefore p pos
      then if getDirection key p = 0
        then map_option (\<lambda>t. Node p t r) (link_insert kf key x pos l)
        else map_option (\<lambda>t. Node p l t) (link_insert kf key x pos r)
      else if \<not> shouldInsertBefore pos p then None
      else Some (splice key x pos (Node p l r)))"

text \<open>Replacing the payload of the leaf a key leads to.\<close>

primrec update_leaf :: "bytes \<Rightarrow> ('l \<Rightarrow> 'l) \<Rightarrow> 'l trie \<Rightarrow> 'l trie" where
  "update_leaf key f (Leaf x) = Leaf (f x)"
| "update_leaf key f (Node p l r) =
     (if getDirection key p = 0 then Node p (update_leaf key f l) r else Node p l (update_leaf key f r))"

text \<open>\<open>pruneLeaf\<close> at the end of the path of a key: the parent is replaced by the leaf's sibling; \<open>None\<close> is the empty
  trie.\<close>

primrec prune :: "bytes \<Rightarrow> 'l trie \<Rightarrow> 'l trie option" where
  "prune key (Leaf x) = None"
| "prune key (Node p l r) =
     (if getDirection key p = 0
      then case prune key l of None \<Rightarrow> Some r | Some t \<Rightarrow> Some (Node p t r)
      else case prune key r of None \<Rightarrow> Some l | Some t \<Rightarrow> Some (Node p l t))"

text \<open>The bottom-up pass of \<open>reap\<close> over the internal nodes: each loses at most one dead child, and a dead leaf that is
  left is pruned at the next level up. The count is the number of prunes.\<close>

primrec reap_nodes :: "('l \<Rightarrow> bool) \<Rightarrow> 'l trie \<Rightarrow> 'l trie \<times> nat" where
  "reap_nodes dead (Leaf x) = (Leaf x, 0)"
| "reap_nodes dead (Node p l r) =
     (case (reap_nodes dead l, reap_nodes dead r) of ((l', m), (r', n)) \<Rightarrow>
        if (case l' of Leaf x \<Rightarrow> dead x | _ \<Rightarrow> False) then (r', Suc (m + n))
        else if (case r' of Leaf x \<Rightarrow> dead x | _ \<Rightarrow> False) then (l', Suc (m + n))
        else (Node p l' r', m + n))"

section \<open>The invariant\<close>

text \<open>A position is a pair that the proofs never open.\<close>

declare split_paired_All [simp del]

primrec leaves :: "'l trie \<Rightarrow> 'l list" where
  "leaves (Leaf x) = [x]"
| "leaves (Node p l r) = leaves l @ leaves r"

primrec below :: "crit_pos \<Rightarrow> 'l trie \<Rightarrow> bool" where
  "below p (Leaf x) \<longleftrightarrow> True"
| "below p (Node q l r) \<longleftrightarrow> shouldInsertBefore p q"

definition agree :: "('l \<Rightarrow> bytes) \<Rightarrow> crit_pos \<Rightarrow> 'l list \<Rightarrow> bool" where
  "agree kf p xs \<longleftrightarrow> (\<forall>x \<in> set xs. \<forall>y \<in> set xs. \<forall>q. posn q \<longrightarrow> shouldInsertBefore q p \<longrightarrow>
     getDirection (kf x) q = getDirection (kf y) q)"

primrec trie_ok :: "('l \<Rightarrow> bytes) \<Rightarrow> 'l trie \<Rightarrow> bool" where
  "trie_ok kf (Leaf x) \<longleftrightarrow> short_key (kf x)"
| "trie_ok kf (Node p l r) \<longleftrightarrow> trie_ok kf l \<and> trie_ok kf r \<and> posn p \<and> below p l \<and> below p r \<and>
     (\<forall>x \<in> set (leaves l). getDirection (kf x) p = 0) \<and> (\<forall>x \<in> set (leaves r). getDirection (kf x) p = 1) \<and>
     agree kf p (leaves l @ leaves r)"

lemma leaves_ne [simp]: "leaves t \<noteq> []"
  by (induction t) auto

lemma best_in_leaves: "findBestMatch t key \<in> set (leaves t)"
  by (induction t) auto

lemma trie_short: "trie_ok kf t \<Longrightarrow> x \<in> set (leaves t) \<Longrightarrow> short_key (kf x)"
  by (induction t) auto

lemma agreeD: "agree kf p xs \<Longrightarrow> x \<in> set xs \<Longrightarrow> y \<in> set xs \<Longrightarrow> posn q \<Longrightarrow> shouldInsertBefore q p \<Longrightarrow>
    getDirection (kf x) q = getDirection (kf y) q"
  unfolding agree_def by blast

text \<open>The leaf a key leads to holds the key if any leaf does.\<close>

lemma best_match:
  "trie_ok kf t \<Longrightarrow> x \<in> set (leaves t) \<Longrightarrow> findBestMatch t (kf x) = x"
  by (induction t) auto

lemma leaves_inj: "trie_ok kf t \<Longrightarrow> x \<in> set (leaves t) \<Longrightarrow> y \<in> set (leaves t) \<Longrightarrow> kf x = kf y \<Longrightarrow> x = y"
  using best_match by metis

text \<open>In-order, the keys increase.\<close>

lemma crit_is_node:
  assumes "short_key a" "short_key b" "posn p" "getDirection a p = 0" "getDirection b p = 1"
    and "\<And>q. posn q \<Longrightarrow> shouldInsertBefore q p \<Longrightarrow> getDirection a q = getDirection b q"
  shows "findCritBit a b = p"
proof -
  have ne: "a \<noteq> b" using assms(4,5) by auto
  note c = crit_posn [OF assms(1,2) ne] crit_differs [OF assms(1,2) ne] crit_first [OF assms(1,2) ne]
  show ?thesis using before_order(3) [of "findCritBit a b" p] c assms(3-6) by fastforce
qed

lemma keys_sorted: "trie_ok kf t \<Longrightarrow> sorted_wrt (<) (map kf (leaves t))"
proof (induction t)
  case (Node p l r)
  have "kf x < kf y" if xy: "x \<in> set (leaves l)" "y \<in> set (leaves r)" for x y
  proof -
    have sh: "short_key (kf x)" "short_key (kf y)" using Node.prems xy trie_short by auto
    have d: "getDirection (kf x) p = 0" "getDirection (kf y) p = 1" using Node.prems xy by auto
    have "findCritBit (kf x) (kf y) = p"
      by (rule crit_is_node [OF sh _ d]) (use Node.prems xy in \<open>auto dest: agreeD [of kf p _ x y]\<close>)
    moreover have "kf x \<noteq> kf y" using d by auto
    ultimately show ?thesis using crit_order [OF sh] d by simp
  qed
  then show ?case using Node by (auto simp: sorted_wrt_append)
qed simp

lemma leaves_distinct: "trie_ok kf t \<Longrightarrow> distinct (leaves t)"
  using keys_sorted [of kf t] by (simp add: strict_sorted_iff distinct_map)

section \<open>Insertion\<close>

lemma below_trans: "shouldInsertBefore p q \<Longrightarrow> below q t \<Longrightarrow> below p t"
  using before_order(2) by (cases t) auto

lemma agree_insert:
  assumes "agree kf p (leaves t)" "b \<in> set (leaves t)" "set xs = insert x (set (leaves t))"
    and "\<And>q. posn q \<Longrightarrow> shouldInsertBefore q p \<Longrightarrow> getDirection (kf x) q = getDirection (kf b) q"
  shows "agree kf p xs"
  unfolding agree_def assms(3) using assms(1,2,4) unfolding agree_def by (metis insertE)

lemma splice_ok:
  assumes ok: "trie_ok kf t" and x: "short_key (kf x)" and bel: "below pos t" and b: "b \<in> set (leaves t)"
    and pos: "pos = findCritBit (kf x) (kf b)" "kf x \<noteq> kf b" and ag: "agree kf pos (leaves t)"
    and same: "\<And>y. y \<in> set (leaves t) \<Longrightarrow> getDirection (kf y) pos = getDirection (kf b) pos"
  shows "trie_ok kf (splice (kf x) x pos t)" "set (leaves (splice (kf x) x pos t)) = insert x (set (leaves t))"
proof -
  have sb: "short_key (kf b)" by (rule trie_short [OF ok b])
  note c = crit_posn [OF x sb pos(2), folded pos(1)] crit_differs [OF x sb pos(2), folded pos(1)] crit_first [OF x sb pos(2), folded pos(1)]
  show set: "set (leaves (splice (kf x) x pos t)) = insert x (set (leaves t))" by (auto simp: splice_def)
  have "agree kf pos (leaves (splice (kf x) x pos t))" by (rule agree_insert [OF ag b set]) (rule c(3))
  moreover have "getDirection (kf x) pos = 0 \<longleftrightarrow> getDirection (kf b) pos = 1"
    using direction_cases [OF c(1), of "kf x"] direction_cases [OF c(1), of "kf b"] c(2) by auto
  ultimately show "trie_ok kf (splice (kf x) x pos t)"
    using ok x bel c(1) same direction_cases [OF c(1), of "kf x"] direction_cases [OF c(1), of "kf b"]
    by (auto simp: splice_def)
qed

lemma link_insert_ok:
  "trie_ok kf t \<Longrightarrow> short_key (kf x) \<Longrightarrow> b = findBestMatch t (kf x) \<Longrightarrow> kf x \<noteq> kf b \<Longrightarrow> pos = findCritBit (kf x) (kf b) \<Longrightarrow>
   \<exists>t'. link_insert kf (kf x) x pos t = Some t' \<and> trie_ok kf t' \<and> set (leaves t') = insert x (set (leaves t)) \<and>
     (\<forall>p. below p t \<and> shouldInsertBefore p pos \<longrightarrow> below p t')"
proof (induction t)
  case (Leaf y)
  then have "trie_ok kf (splice (kf x) x pos (Leaf y))" "set (leaves (splice (kf x) x pos (Leaf y))) = insert x (set (leaves (Leaf y)))"
    by (intro splice_ok [of kf "Leaf y" x pos y]; simp add: agree_def)+
  then show ?case using Leaf.prems by (auto simp: splice_def)
next
  case (Node p l r)
  have b: "b \<in> set (leaves (Node p l r))" using Node.prems(3) best_in_leaves by metis
  have sb: "short_key (kf b)" using trie_short Node.prems(1) b by metis
  note c = crit_posn [OF Node.prems(2) sb Node.prems(4), folded Node.prems(5)]
    crit_differs [OF Node.prems(2) sb Node.prems(4), folded Node.prems(5)]
    crit_first [OF Node.prems(2) sb Node.prems(4), folded Node.prems(5)]
  have p: "posn p" using Node.prems(1) by simp
  have ag: "agree kf p (leaves (Node p l r))" using Node.prems(1) by simp
  have dir: "getDirection (kf b) p = getDirection (kf x) p"
    using Node.prems(1,3) best_in_leaves [of l "kf x"] best_in_leaves [of r "kf x"] direction_cases [OF p, of "kf x"] by auto
  show ?case
  proof (cases "shouldInsertBefore p pos")
    case True
    let ?t = "if getDirection (kf x) p = 0 then l else r"
    have "\<exists>t'. link_insert kf (kf x) x pos ?t = Some t' \<and> trie_ok kf t' \<and> set (leaves t') = insert x (set (leaves ?t)) \<and>
        (\<forall>p. below p ?t \<and> shouldInsertBefore p pos \<longrightarrow> below p t')"
      using Node.IH Node.prems by (auto split: if_splits)
    then obtain t' where t': "link_insert kf (kf x) x pos ?t = Some t'" "trie_ok kf t'" "set (leaves t') = insert x (set (leaves ?t))"
      "below p t'" using True Node.prems(1) by (auto split: if_splits)
    let ?n = "if getDirection (kf x) p = 0 then Node p t' r else Node p l t'"
    have set: "set (leaves ?n) = insert x (set (leaves (Node p l r)))" using t'(3) by (auto split: if_splits)
    have "agree kf p (leaves ?n)"
      by (rule agree_insert [OF ag b set]) (use c(3) before_order(2) True in blast)
    then have "trie_ok kf ?n" using Node.prems(1) t'(2-4) direction_cases [OF p, of "kf x"] by (auto split: if_splits)
    then show ?thesis using t'(1) True set by (intro exI [of _ ?n]) (auto split: if_splits)
  next
    case False
    then have lt: "shouldInsertBefore pos p" using before_order(3) [of p pos] dir c(2) by (cases "p = pos") auto
    have "below pos (Node p l r)" using lt by simp
    moreover have "agree kf pos (leaves (Node p l r))" using ag lt before_order(2) unfolding agree_def by blast
    moreover have "getDirection (kf y) pos = getDirection (kf b) pos" if "y \<in> set (leaves (Node p l r))" for y
      using agreeD [OF ag that b c(1) lt] .
    ultimately have "trie_ok kf (splice (kf x) x pos (Node p l r))"
      "set (leaves (splice (kf x) x pos (Node p l r))) = insert x (set (leaves (Node p l r)))"
      using splice_ok [OF Node.prems(1,2) _ b Node.prems(5,4)] by metis+
    then show ?thesis using False lt by (intro exI [of _ "splice (kf x) x pos (Node p l r)"]) (auto simp: splice_def)
  qed
qed

section \<open>Updating and unlinking\<close>

lemma agree_subset: "agree kf p xs \<Longrightarrow> set ys \<subseteq> set xs \<Longrightarrow> agree kf p ys"
  unfolding agree_def by blast

lemma update_leaf_ok:
  assumes "\<And>y. kf (f y) = kf y"
  shows "trie_ok kf t \<Longrightarrow> trie_ok kf (update_leaf key f t)"
    and "trie_ok kf t \<Longrightarrow> x \<in> set (leaves t) \<Longrightarrow> leaves (update_leaf (kf x) f t) = map (\<lambda>y. if y = x then f y else y) (leaves t)"
proof -
  have keys: "map kf (leaves (update_leaf key f t)) = map kf (leaves t)" for t by (induction t) (auto simp: assms)
  have agree_keys: "agree kf p xs \<longleftrightarrow> (\<forall>a \<in> kf ` set xs. \<forall>b \<in> kf ` set xs. \<forall>q. posn q \<longrightarrow> shouldInsertBefore q p \<longrightarrow>
      getDirection a q = getDirection b q)" for p xs unfolding agree_def by blast
  have img: "kf ` set (leaves (update_leaf key f t)) = kf ` set (leaves t)" for t
    using arg_cong [OF keys, of set] by simp
  have dirs: "(\<forall>x \<in> set (leaves (update_leaf key f t)). getDirection (kf x) p = d) \<longleftrightarrow>
      (\<forall>x \<in> set (leaves t). getDirection (kf x) p = d)" for p d t
    using arg_cong [OF img [of t], of "\<lambda>ks. \<forall>k \<in> ks. getDirection k p = d"] by simp
  have ag: "agree kf p (leaves (update_leaf key f t) @ xs) = agree kf p (leaves t @ xs)"
    "agree kf p (xs @ leaves (update_leaf key f t)) = agree kf p (xs @ leaves t)" for p t xs
    unfolding agree_keys set_append image_Un img by (rule refl)+
  have bel: "below p (update_leaf key f t) = below p t" for p t by (cases t) auto
  show "trie_ok kf t \<Longrightarrow> trie_ok kf (update_leaf key f t)"
  proof (induction t)
    case (Node p l r)
    then show ?case by (cases "getDirection key p = 0") (simp_all add: dirs bel ag)
  qed (simp add: assms)
  show "trie_ok kf t \<Longrightarrow> x \<in> set (leaves t) \<Longrightarrow> leaves (update_leaf (kf x) f t) = map (\<lambda>y. if y = x then f y else y) (leaves t)"
  proof (induction t)
    case (Node p l r)
    have "x \<notin> set (leaves l) \<or> x \<notin> set (leaves r)" using Node.prems(1) by auto
    then show ?case using Node by (auto intro!: map_idI [symmetric])
  qed simp
qed

lemma prune_ok:
  "trie_ok kf t \<Longrightarrow> x \<in> set (leaves t) \<Longrightarrow>
   (case prune (kf x) t of None \<Rightarrow> leaves t = [x]
    | Some t' \<Rightarrow> trie_ok kf t' \<and> leaves t' = filter (\<lambda>y. y \<noteq> x) (leaves t) \<and> (\<forall>p. below p t \<longrightarrow> below p t'))"
proof (induction t)
  case (Node p l r)
  have ag: "agree kf p (leaves l @ leaves r)" using Node.prems(1) by simp
  have keepl: "filter (\<lambda>y. y \<noteq> x) (leaves l) = leaves l" if "x \<in> set (leaves r)"
    using Node.prems(1) that by (auto simp: filter_id_conv)
  have keepr: "filter (\<lambda>y. y \<noteq> x) (leaves r) = leaves r" if "x \<in> set (leaves l)"
    using Node.prems(1) that by (auto simp: filter_id_conv)
  from Node.prems(2) consider "x \<in> set (leaves l)" | "x \<in> set (leaves r)" by auto
  then show ?case
  proof cases
    case 1
    then have d: "getDirection (kf x) p = 0" using Node.prems(1) by auto
    show ?thesis
    proof (cases "prune (kf x) l")
      case None
      then have "leaves l = [x]" using Node.IH(1) Node.prems(1) 1 by simp
      then show ?thesis using None d Node.prems(1) keepr [OF 1] by (auto intro: below_trans)
    next
      case (Some t')
      then have t': "trie_ok kf t'" "leaves t' = filter (\<lambda>y. y \<noteq> x) (leaves l)" "below p t'"
        using Node.IH(1) Node.prems(1) 1 by auto
      then have "agree kf p (leaves t' @ leaves r)" by (intro agree_subset [OF ag]) auto
      then show ?thesis using Some d Node.prems(1) t' keepr [OF 1] by auto
    qed
  next
    case 2
    then have d: "getDirection (kf x) p = 1" using Node.prems(1) by auto
    show ?thesis
    proof (cases "prune (kf x) r")
      case None
      then have "leaves r = [x]" using Node.IH(2) Node.prems(1) 2 by simp
      then show ?thesis using None d Node.prems(1) keepl [OF 2] by (auto intro: below_trans)
    next
      case (Some t')
      then have t': "trie_ok kf t'" "leaves t' = filter (\<lambda>y. y \<noteq> x) (leaves r)" "below p t'"
        using Node.IH(2) Node.prems(1) 2 by auto
      then have "agree kf p (leaves l @ leaves t')" by (intro agree_subset [OF ag]) auto
      then show ?thesis using Some d Node.prems(1) t' keepl [OF 2] by auto
    qed
  qed
qed simp

text \<open>A pass of \<open>reap\<close> leaves the live leaves, or one dead leaf when there is no live one.\<close>

lemma reap_nodes_ok:
  "trie_ok kf t \<Longrightarrow> reap_nodes dead t = (t', n) \<Longrightarrow>
   trie_ok kf t' \<and> n + length (leaves t') = length (leaves t) \<and> (\<forall>p. below p t \<longrightarrow> below p t') \<and>
   (leaves t' = filter (\<lambda>x. \<not> dead x) (leaves t) \<or>
    (\<exists>x \<in> set (leaves t). t' = Leaf x) \<and> (\<forall>y \<in> set (leaves t). dead y))"
proof (induction t arbitrary: t' n)
  case (Node p l r)
  obtain l' a r' b where lr: "reap_nodes dead l = (l', a)" "reap_nodes dead r = (r', b)" by fastforce
  have ag: "agree kf p (leaves l @ leaves r)" and bel: "below p l" "below p r" using Node.prems(1) by auto
  have L: "trie_ok kf l'" "a + length (leaves l') = length (leaves l)" "below p l'"
      "leaves l' = filter (\<lambda>x. \<not> dead x) (leaves l) \<or> (\<exists>x \<in> set (leaves l). l' = Leaf x) \<and> (\<forall>y \<in> set (leaves l). dead y)"
    using Node.IH(1) [OF _ lr(1)] Node.prems(1) bel by simp_all
  have R: "trie_ok kf r'" "b + length (leaves r') = length (leaves r)" "below p r'"
      "leaves r' = filter (\<lambda>x. \<not> dead x) (leaves r) \<or> (\<exists>x \<in> set (leaves r). r' = Leaf x) \<and> (\<forall>y \<in> set (leaves r). dead y)"
    using Node.IH(2) [OF _ lr(2)] Node.prems(1) bel by simp_all
  let ?dl = "case l' of Leaf x \<Rightarrow> dead x | _ \<Rightarrow> False" and ?dr = "case r' of Leaf x \<Rightarrow> dead x | _ \<Rightarrow> False"
  have dead: "\<forall>y \<in> set (leaves t). dead y" "\<exists>x \<in> set (leaves t). s = Leaf x" "length (leaves s) = 1"
    if "case s of Leaf x \<Rightarrow> dead x | _ \<Rightarrow> False"
      "leaves s = filter (\<lambda>x. \<not> dead x) (leaves t) \<or> (\<exists>x \<in> set (leaves t). s = Leaf x) \<and> (\<forall>y \<in> set (leaves t). dead y)"
    for s t :: "'a trie" using that by (auto split: trie.splits simp: filter_eq_Cons_iff dest!: sym [of "[_]"])
  have live: "leaves s = filter (\<lambda>x. \<not> dead x) (leaves t)" "set (leaves s) \<subseteq> set (leaves t)"
    if "\<not> (case s of Leaf x \<Rightarrow> dead x | _ \<Rightarrow> False)"
      "leaves s = filter (\<lambda>x. \<not> dead x) (leaves t) \<or> (\<exists>x \<in> set (leaves t). s = Leaf x) \<and> (\<forall>y \<in> set (leaves t). dead y)"
    for s t :: "'a trie" using that by auto
  consider "?dl" | "\<not> ?dl" "?dr" | "\<not> ?dl" "\<not> ?dr" by blast
  then show ?case
  proof cases
    case 1
    then have t': "t' = r'" "n = Suc (a + b)" using Node.prems(2) lr by auto
    show ?thesis using t' R L(2) dead [OF 1 L(4)] below_trans [OF _ R(3)] by auto
  next
    case 2
    then have t': "t' = l'" "n = Suc (a + b)" using Node.prems(2) lr by auto
    show ?thesis using t' L R(2) dead [OF 2(2) R(4)] live(1) [OF 2(1) L(4)] below_trans [OF _ L(3)] by auto
  next
    case 3
    then have t': "t' = Node p l' r'" "n = a + b" using Node.prems(2) lr by auto
    note s = live [OF 3(1) L(4)] live [OF 3(2) R(4)]
    have "agree kf p (leaves l' @ leaves r')" by (rule agree_subset [OF ag]) (use s in auto)
    then show ?thesis using t' L(1-3) R(1-3) s Node.prems(1) by auto
  qed
qed (auto split: if_splits)

end
