(* ===== verification/Tip_Sets.thy ===== *)
theory Tip_Sets
  imports Go_Base
begin

text \<open>
  Tip sets (keytrie/types.go): immutable, duplicate-free lists of effect references that the key index swaps by
  pointer. A pointer is the object's identity with its contents, nil is \<open>None\<close>; the laws say that a new set has
  the given references once each and that the two differences of a transition are exactly the reference
  counts it takes and releases.
\<close>

section \<open>The model\<close>

record tip_set =
  ts_id :: nat
  ts_tips :: "tip list"

type_synonym tips_ptr = "tip_set option"

definition smallTipSetDedup :: nat where
  "smallTipSetDedup = 8"

text \<open>The loop of \<open>NewTipSet\<close>: \<open>seen\<close> is the map of large sets, nil for small ones.\<close>

fun dedup_loop :: "tip list \<Rightarrow> tip fset option \<Rightarrow> tip list \<Rightarrow> tip list" where
  "dedup_loop deduped seen_map [] = deduped"
| "dedup_loop deduped (Some s) (r # rs) =
     (if r |\<in>| s then dedup_loop deduped (Some s) rs else dedup_loop (deduped @ [r]) (Some (finsert r s)) rs)"
| "dedup_loop deduped None (r # rs) =
     (if r \<in> set deduped then dedup_loop deduped None rs else dedup_loop (deduped @ [r]) None rs)"

definition NewTipSet :: "nat \<Rightarrow> tip list \<Rightarrow> tip_set" where
  "NewTipSet n refs =
     (if length refs = 0 then \<lparr>ts_id = n, ts_tips = []\<rparr>
      else \<lparr>ts_id = n, ts_tips = dedup_loop [] (if length refs > smallTipSetDedup then Some {||} else None) refs\<rparr>)"

definition Tips :: "tips_ptr \<Rightarrow> tip list" where
  "Tips ts = (case ts of None \<Rightarrow> [] | Some t \<Rightarrow> ts_tips t)"

definition ts_Len :: "tips_ptr \<Rightarrow> nat" where
  "ts_Len ts = (case ts of None \<Rightarrow> 0 | Some t \<Rightarrow> length (ts_tips t))"

definition ts_Contains :: "tips_ptr \<Rightarrow> tip \<Rightarrow> bool" where
  "ts_Contains ts ref = (case ts of None \<Rightarrow> False | Some t \<Rightarrow> ref \<in> set (ts_tips t))"

definition ts_Single :: "tips_ptr \<Rightarrow> tip \<times> bool" where
  "ts_Single ts =
     (case ts of None \<Rightarrow> (zero_tip, False)
      | Some t \<Rightarrow> if length (ts_tips t) \<noteq> 1 then (zero_tip, False) else (ts_tips t ! 0, True))"

primrec ts_ContainsAll :: "tips_ptr \<Rightarrow> tip list \<Rightarrow> bool" where
  "ts_ContainsAll ts [] = True"
| "ts_ContainsAll ts (r # rs) = (if \<not> ts_Contains ts r then False else ts_ContainsAll ts rs)"

definition tipDifference :: "tip list \<Rightarrow> tip list \<Rightarrow> tip list" where
  "tipDifference refs excluded =
     (if length excluded = 0 then refs
      else
        let remaining = length (filter (\<lambda>r. r \<notin> set excluded) refs)
        in if remaining = 0 then []
           else if remaining = length refs then refs
           else filter (\<lambda>r. r \<notin> set excluded) refs)"

section \<open>Laws\<close>

lemma dedup_loop_correct:
  assumes "distinct deduped" "case seen_map of None \<Rightarrow> True | Some s \<Rightarrow> fset s = set deduped"
  shows "distinct (dedup_loop deduped seen_map rs) \<and> set (dedup_loop deduped seen_map rs) = set deduped \<union> set rs"
  using assms by (induction deduped seen_map rs rule: dedup_loop.induct) (auto split: option.splits)

lemma NewTipSet_correct [simp]:
  "distinct (ts_tips (NewTipSet n refs))" "set (ts_tips (NewTipSet n refs)) = set refs" "ts_id (NewTipSet n refs) = n"
  using dedup_loop_correct [of "[]" "if length refs > smallTipSetDedup then Some {||} else None" refs]
  by (auto simp: NewTipSet_def)

lemma Tips_simps [simp]: "Tips None = []" "Tips (Some t) = ts_tips t"
  by (simp_all add: Tips_def)

lemma ContainsAll_iff: "ts_ContainsAll ts rs \<longleftrightarrow> set rs \<subseteq> set (Tips ts)"
  by (induction rs) (auto simp: ts_Contains_def split: option.splits)

lemma tipDifference_filter [simp]: "tipDifference refs excluded = filter (\<lambda>r. r \<notin> set excluded) refs"
proof -
  have "filter P xs = xs" if "length (filter P xs) = length xs" for P and xs :: "tip list"
    using that by (metis filter_True length_filter_less less_irrefl)
  from this [of "\<lambda>r. r \<notin> set excluded" refs] show ?thesis
    unfolding tipDifference_def Let_def by (auto simp del: filter_notin_set_eq_Nil)
qed

text \<open>Taking the added references and dropping the removed ones turns the old set into the new.\<close>

lemma filter_notin_mset: "distinct xs \<Longrightarrow> distinct ys \<Longrightarrow> mset (filter (\<lambda>r. r \<notin> set ys) xs) = mset xs - mset ys"
  by (rule multiset_eqI) (auto simp: distinct_count_atmost_1 count_mset_0_iff)

lemma tip_delta_balance:
  assumes "distinct xs" "distinct ys"
  shows "mset xs + mset (tipDifference ys xs) = mset ys + mset (tipDifference xs ys)"
  unfolding tipDifference_filter filter_notin_mset [OF assms] filter_notin_mset [OF assms(2,1)]
  by (rule multiset_eqI) (simp add: max_def)

end
