(* ===== verification/Crit_Index.thy ===== *)
theory Crit_Index
  imports Crit_Trie Tip_Sets
begin

text \<open>
  The key index (keytrie/critbit.go, access.go, reclaim.go): leaves with tip sets and payloads in the crit-bit trie,
  the counters kept beside it, and every operation that changes them, as atomic steps under the index's lock.

  A leaf is identified by its allocation number, which stands for the address of its arena slot; the memory
  accounting of the arenas is not part of the state. The reap queue is a bounded queue of another package and is
  a parameter of the operations that use it. The reference-count hook is a trace of its calls. Clock readings and
  the verdict of the pressure hook are arguments.
\<close>

section \<open>State\<close>

record 'd crit_leaf =
  lid :: nat
  lkey :: bytes
  ltips :: tips_ptr
  ldeleted :: bool
  lfreq :: int
  lpins :: "32 word"
  ldata :: "'d option"
  lpinned :: bool
  laccess :: uint64
  lepoch :: uint64

type_synonym 'd delta = "tip list \<times> tip list \<times> 'd option"

record ('d, 'q) critbit =
  cb_root :: "'d crit_leaf trie option"
  cb_size :: int
  cb_closed :: bool
  cb_deletedCount :: int
  cb_ghostCount :: int
  cb_reapRunning :: bool
  cb_reapQueue :: "'q option"
  cb_reapDropped :: int
  cb_readRevision :: uint64
  cb_evictActive :: bool
  cb_evictDecider :: "(bytes \<Rightarrow> bool) option"
  cb_evictHand :: uint64
  cb_evictK :: int
  cb_prevHitRate :: uint64
  cb_rateLow :: int
  cb_rateHigh :: int
  cb_lastKDir :: int
  cb_lastAdaptCheck :: uint64
  cb_evictClock :: uint64
  cb_decayEvery :: uint64
  cb_decayEpochN :: uint64
  cb_windowHits :: uint64
  cb_windowOps :: uint64
  cb_reachedProt :: uint64
  cb_evictedProt :: uint64
  cb_evictedUnprot :: uint64
  cb_refDelta :: bool
  cb_deltas :: "'d delta list"
  cb_next :: nat

record 'q mpmc =
  q_new :: 'q
  q_enq :: "nat \<Rightarrow> 'q \<Rightarrow> bool \<times> 'q"
  q_deq :: "'q \<Rightarrow> (nat \<times> 'q) option"

definition maxLeafFreq :: int where
  "maxLeafFreq = 15"

definition reapBatchSize :: nat where
  "reapBatchSize = 64"

definition defaultProtectedFreqThreshold :: int where
  "defaultProtectedFreqThreshold = 0"

definition defaultRateLow :: int where
  "defaultRateLow = 2500"

definition defaultRateHigh :: int where
  "defaultRateHigh = 5000"

definition NewCritbit :: "('d, 'q) critbit" where
  "NewCritbit =
     \<lparr>cb_root = None, cb_size = 0, cb_closed = False, cb_deletedCount = 0, cb_ghostCount = 0, cb_reapRunning = False,
      cb_reapQueue = None, cb_reapDropped = 0, cb_readRevision = 0, cb_evictActive = False, cb_evictDecider = None,
      cb_evictHand = 0, cb_evictK = defaultProtectedFreqThreshold, cb_prevHitRate = 0, cb_rateLow = defaultRateLow,
      cb_rateHigh = defaultRateHigh, cb_lastKDir = 0, cb_lastAdaptCheck = 0, cb_evictClock = 0, cb_decayEvery = 0, cb_decayEpochN = 0, cb_windowHits = 0, cb_windowOps = 0,
      cb_reachedProt = 0, cb_evictedProt = 0, cb_evictedUnprot = 0, cb_refDelta = False, cb_deltas = [], cb_next = 0\<rparr>"

definition SetRefDelta :: "('d, 'q) critbit \<Rightarrow> ('d, 'q) critbit" where
  "SetRefDelta c = c\<lparr>cb_refDelta := True\<rparr>"

definition SetEvictHooks :: "(bytes \<Rightarrow> bool) option \<Rightarrow> ('d, 'q) critbit \<Rightarrow> ('d, 'q) critbit" where
  "SetEvictHooks decider c = c\<lparr>cb_evictDecider := decider, cb_evictActive := True\<rparr>"

section \<open>Leaves\<close>

definition allocLeafNode :: "bytes \<Rightarrow> tips_ptr \<Rightarrow> uint64 \<Rightarrow> ('d, 'q) critbit \<Rightarrow> 'd crit_leaf \<times> ('d, 'q) critbit" where
  "allocLeafNode key ts now c =
     (\<lparr>lid = cb_next c, lkey = key, ltips = ts, ldeleted = True, lfreq = 1, lpins = 0, ldata = None,
       lpinned = (case cb_evictDecider c of None \<Rightarrow> False | Some decider \<Rightarrow> \<not> decider key),
       laccess = now, lepoch = cb_decayEpochN c\<rparr>,
      c\<lparr>cb_next := cb_next c + 1\<rparr>)"

text \<open>A write through the pointer of a linked leaf.\<close>

definition set_leaf :: "'d crit_leaf \<Rightarrow> ('d crit_leaf \<Rightarrow> 'd crit_leaf) \<Rightarrow> ('d, 'q) critbit \<Rightarrow> ('d, 'q) critbit" where
  "set_leaf leaf f c = c\<lparr>cb_root := map_option (update_leaf (lkey leaf) f) (cb_root c)\<rparr>"

definition liveLeaf :: "bytes \<Rightarrow> ('d, 'q) critbit \<Rightarrow> 'd crit_leaf option" where
  "liveLeaf key c =
     (if cb_closed c then None
      else case cb_root c of
        None \<Rightarrow> None
      | Some t \<Rightarrow>
          let leaf = findBestMatch t key
          in if lkey leaf \<noteq> key \<or> ldeleted leaf then None else Some leaf)"

definition fireTipDelta :: "tips_ptr \<Rightarrow> tips_ptr \<Rightarrow> 'd option \<Rightarrow> ('d, 'q) critbit \<Rightarrow> ('d, 'q) critbit" where
  "fireTipDelta old newTips droppedData c =
     (if \<not> cb_refDelta c then c
      else
        let added = (if old \<noteq> newTips then tipDifference (Tips newTips) (Tips old) else []);
            removed = (if old \<noteq> newTips then tipDifference (Tips old) (Tips newTips) else [])
        in if length added > 0 \<or> length removed > 0 \<or> droppedData \<noteq> None
           then c\<lparr>cb_deltas := cb_deltas c @ [(added, removed, droppedData)]\<rparr> else c)"

definition promoteIfGhost :: "'d crit_leaf \<Rightarrow> ('d, 'q) critbit \<Rightarrow> ('d, 'q) critbit" where
  "promoteIfGhost leaf c =
     (let f = lfreq leaf in
      if f \<ge> 0 then c
      else
        let c = set_leaf leaf (\<lambda>l. l\<lparr>lfreq := min (- f + 1) maxLeafFreq, lepoch := cb_decayEpochN c\<rparr>) c
        in c\<lparr>cb_ghostCount := cb_ghostCount c - 1, cb_windowOps := cb_windowOps c + 1\<rparr>)"

section \<open>Insert\<close>

text \<open>The key has a leaf: one compare-and-swap of its tips, and the leaf's revival if it was deleted.\<close>

definition insert_existing ::
  "'d crit_leaf \<Rightarrow> tips_ptr \<Rightarrow> tips_ptr \<Rightarrow> ('d, 'q) critbit \<Rightarrow> (tips_ptr \<times> bool) \<times> ('d, 'q) critbit" where
  "insert_existing bestLeaf old newTips c =
     (let current = ltips bestLeaf;
          old = (if old = None \<and> ldeleted bestLeaf then current else old)
      in if current = old
         then
           let c = set_leaf bestLeaf (\<lambda>l. l\<lparr>ltips := newTips, ldeleted := False\<rparr>) c;
               c = (if ldeleted bestLeaf
                 then
                   let c = c\<lparr>cb_size := cb_size c + 1\<rparr>
                   in if lfreq bestLeaf < 0 then promoteIfGhost bestLeaf c
                      else c\<lparr>cb_deletedCount := cb_deletedCount c - 1\<rparr>
                 else c)
           in ((None, True), fireTipDelta old newTips None c)
         else ((current, False), c))"

text \<open>The link to a new leaf is published: the leaf comes alive.\<close>

definition publish_leaf :: "('d crit_leaf \<Rightarrow> 'd crit_leaf trie option) \<Rightarrow> bytes \<Rightarrow> tips_ptr \<Rightarrow> tips_ptr \<Rightarrow> uint64 \<Rightarrow>
    ('d, 'q) critbit \<Rightarrow> ((tips_ptr \<times> bool) \<times> ('d, 'q) critbit) option" where
  "publish_leaf link key old newTips now c =
     (case allocLeafNode key newTips now c of (newLeaf, c') \<Rightarrow>
        case link (newLeaf\<lparr>ldeleted := False\<rparr>) of
          None \<Rightarrow> None
        | Some t \<Rightarrow> Some ((None, True), fireTipDelta old newTips None (c'\<lparr>cb_root := Some t, cb_size := cb_size c' + 1\<rparr>)))"

text \<open>One turn of the loop of \<open>Insert\<close>; \<open>None\<close> is \<open>continue\<close>.\<close>

definition insert_once ::
  "bytes \<Rightarrow> tips_ptr \<Rightarrow> tips_ptr \<Rightarrow> uint64 \<Rightarrow> ('d, 'q) critbit \<Rightarrow> ((tips_ptr \<times> bool) \<times> ('d, 'q) critbit) option" where
  "insert_once key old newTips now c =
     (if cb_closed c then Some ((None, False), c)
      else case cb_root c of
        None \<Rightarrow> publish_leaf (\<lambda>leaf. Some (Leaf leaf)) key old newTips now c
      | Some t \<Rightarrow>
          let bestLeaf = findBestMatch t key
          in if lkey bestLeaf = key then Some (insert_existing bestLeaf old newTips c)
             else publish_leaf (\<lambda>leaf. link_insert lkey key leaf (findCritBit key (lkey bestLeaf)) t) key old newTips now c)"

partial_function (option) Insert ::
  "bytes \<Rightarrow> tips_ptr \<Rightarrow> tips_ptr \<Rightarrow> uint64 \<Rightarrow> ('d, 'q) critbit \<Rightarrow> ((tips_ptr \<times> bool) \<times> ('d, 'q) critbit) option" where
  "Insert key old newTips now c =
     (case insert_once key old newTips now c of None \<Rightarrow> Insert key old newTips now c | Some r \<Rightarrow> Some r)"

declare Insert.simps [code]

section \<open>Removal\<close>

definition RemoveTips :: "nat \<Rightarrow> bytes \<Rightarrow> tip list \<Rightarrow> ('d, 'q) critbit \<Rightarrow> ('d, 'q) critbit" where
  "RemoveTips fresh key refs c =
     (if length refs = 0 then c
      else case liveLeaf key c of
        None \<Rightarrow> c
      | Some leaf \<Rightarrow>
          case ltips leaf of
            None \<Rightarrow> c
          | Some current \<Rightarrow>
              let kept = tipDifference (ts_tips current) refs
              in if length kept = length (ts_tips current) then c
                 else
                   let newTips = Some \<lparr>ts_id = fresh, ts_tips = kept\<rparr>
                   in fireTipDelta (Some current) newTips None (set_leaf leaf (\<lambda>l. l\<lparr>ltips := newTips\<rparr>) c))"

definition enqueueReap :: "'q mpmc \<Rightarrow> 'd crit_leaf \<Rightarrow> ('d, 'q) critbit \<Rightarrow> ('d, 'q) critbit" where
  "enqueueReap Q leaf c =
     (let q = (case cb_reapQueue c of None \<Rightarrow> q_new Q | Some q \<Rightarrow> q) in
      case q_enq Q (lid leaf) q of (ok, q') \<Rightarrow>
        let c = c\<lparr>cb_reapQueue := Some q'\<rparr>
        in if \<not> ok then c\<lparr>cb_reapDropped := cb_reapDropped c + 1\<rparr> else c)"

definition maybeReap :: "('d, 'q) critbit \<Rightarrow> ('d, 'q) critbit" where
  "maybeReap c = (if cb_reapRunning c then c else c\<lparr>cb_reapRunning := True\<rparr>)"

definition clearLeaf :: "'d crit_leaf \<Rightarrow> ('d, 'q) critbit \<Rightarrow> 'd option \<times> ('d, 'q) critbit" where
  "clearLeaf leaf c =
     (let c = set_leaf leaf (\<lambda>l. l\<lparr>ldata := None\<rparr>) c in (ldata leaf, c\<lparr>cb_size := cb_size c - 1\<rparr>))"

definition DeleteAndSnapshot :: "'q mpmc \<Rightarrow> bytes \<Rightarrow> tips_ptr \<Rightarrow> ('d, 'q) critbit \<Rightarrow> tips_ptr \<times> ('d, 'q) critbit" where
  "DeleteAndSnapshot Q key old c =
     (case liveLeaf key c of
        None \<Rightarrow> (None, c)
      | Some leaf \<Rightarrow>
          if ltips leaf \<noteq> old then (None, c)
          else
            case clearLeaf leaf (set_leaf leaf (\<lambda>l. l\<lparr>ltips := None, ldeleted := True\<rparr>) c) of
              (droppedData, c) \<Rightarrow>
                let c = c\<lparr>cb_deletedCount := cb_deletedCount c + 1\<rparr>;
                    c = fireTipDelta old None droppedData (enqueueReap Q leaf c);
                    deleted = cb_deletedCount c;
                    live = cb_size c
                in (old, if deleted > 0 \<and> deleted > (live + deleted) div 10 then maybeReap c else c))"

definition Delete :: "'q mpmc \<Rightarrow> bytes \<Rightarrow> tips_ptr \<Rightarrow> ('d, 'q) critbit \<Rightarrow> bool \<times> ('d, 'q) critbit" where
  "Delete Q key old c = (case DeleteAndSnapshot Q key old c of (prev, c') \<Rightarrow> (prev \<noteq> None, c'))"

section \<open>Access\<close>

definition Contains :: "bytes \<Rightarrow> ('d, 'q) critbit \<Rightarrow> tips_ptr" where
  "Contains key c = (case liveLeaf key c of None \<Rightarrow> None | Some leaf \<Rightarrow> ltips leaf)"

definition Pin :: "bytes \<Rightarrow> ('d, 'q) critbit \<Rightarrow> bool \<times> ('d, 'q) critbit" where
  "Pin key c =
     (case liveLeaf key c of
        None \<Rightarrow> (False, c)
      | Some leaf \<Rightarrow>
          let c' = set_leaf leaf (\<lambda>l. l\<lparr>lpins := lpins l + 1\<rparr>) c
          in if ldeleted leaf then (False, set_leaf leaf (\<lambda>l. l\<lparr>lpins := lpins l - 1\<rparr>) c') else (True, c'))"

text \<open>\<open>None\<close> is the panic on an unpin without a pin.\<close>

definition Unpin :: "bytes \<Rightarrow> ('d, 'q) critbit \<Rightarrow> (bool \<times> ('d, 'q) critbit) option" where
  "Unpin key c =
     (case liveLeaf key c of
        None \<Rightarrow> Some (False, c)
      | Some leaf \<Rightarrow>
          if sint (lpins leaf - 1) < 0 then None
          else Some (True, set_leaf leaf (\<lambda>l. l\<lparr>lpins := lpins l - 1\<rparr>) c))"

definition bumpAccess :: "bool option \<Rightarrow> uint64 \<Rightarrow> 'd crit_leaf \<Rightarrow> ('d, 'q) critbit \<Rightarrow> ('d, 'q) critbit" where
  "bumpAccess underPressure now leaf c =
     (if \<not> cb_evictActive c then c
      else
        let f = lfreq leaf;
            c = (if f < 0 \<or> f \<ge> maxLeafFreq then c
              else
                let c = set_leaf leaf (\<lambda>l. l\<lparr>lfreq := f + 1\<rparr>) c; k = cb_evictK c
                in if (k = 0 \<or> f = k) \<and> underPressure = Some True then c\<lparr>cb_reachedProt := cb_reachedProt c + 1\<rparr> else c);
            c = set_leaf leaf (\<lambda>l. l\<lparr>laccess := now\<rparr>) c
        in c\<lparr>cb_windowHits := cb_windowHits c + 1, cb_windowOps := cb_windowOps c + 1\<rparr>)"

definition LoadData :: "bool option \<Rightarrow> uint64 \<Rightarrow> bytes \<Rightarrow> ('d, 'q) critbit \<Rightarrow> 'd option \<times> ('d, 'q) critbit" where
  "LoadData underPressure now key c =
     (case liveLeaf key c of None \<Rightarrow> (None, c) | Some leaf \<Rightarrow> (ldata leaf, bumpAccess underPressure now leaf c))"

definition LoadOrStoreData ::
  "bool option \<Rightarrow> uint64 \<Rightarrow> bytes \<Rightarrow> 'd option \<Rightarrow> ('d, 'q) critbit \<Rightarrow> ('d option \<times> bool) \<times> ('d, 'q) critbit" where
  "LoadOrStoreData underPressure now key def c =
     (case liveLeaf key c of
        None \<Rightarrow> ((None, False), c)
      | Some leaf \<Rightarrow>
          let c = bumpAccess underPressure now leaf c
          in if ldata leaf \<noteq> None then ((ldata leaf, True), c)
             else ((def, False), set_leaf leaf (\<lambda>l. l\<lparr>ldata := def\<rparr>) c))"

definition TryClaimKey :: "bytes \<Rightarrow> ('d, 'q) critbit \<Rightarrow> bool" where
  "TryClaimKey key c \<longleftrightarrow> liveLeaf key c \<noteq> None"

definition Size :: "('d, 'q) critbit \<Rightarrow> int" where
  "Size c = (if cb_closed c then 0 else cb_size c)"

definition Close :: "('d, 'q) critbit \<Rightarrow> ('d, 'q) critbit" where
  "Close c =
     (if cb_closed c then c
      else c\<lparr>cb_closed := True, cb_root := None, cb_readRevision := cb_readRevision c + 1, cb_size := 0, cb_reapQueue := None\<rparr>)"

section \<open>Reclamation\<close>

definition leaf_list :: "('d, 'q) critbit \<Rightarrow> 'd crit_leaf list" where
  "leaf_list c = (case cb_root c of None \<Rightarrow> [] | Some t \<Rightarrow> leaves t)"

definition dead :: "'d crit_leaf \<Rightarrow> bool" where
  "dead leaf \<longleftrightarrow> ldeleted leaf \<and> lfreq leaf \<ge> 0"

text \<open>The leaf is given by its address. A retired slot keeps no key and no path leads to it; a linked leaf is
  compared with the one its key leads to.\<close>

definition unlinkLeaf :: "nat \<Rightarrow> ('d, 'q) critbit \<Rightarrow> bool \<times> ('d, 'q) critbit" where
  "unlinkLeaf n c =
     (case cb_root c of
        None \<Rightarrow> (False, c)
      | Some t \<Rightarrow>
          case find (\<lambda>l. lid l = n) (leaves t) of
            None \<Rightarrow> (False, c)
          | Some leaf \<Rightarrow>
              if \<not> ldeleted leaf \<or> lfreq leaf < 0 then (False, c)
              else if lid (findBestMatch t (lkey leaf)) \<noteq> n then (False, c)
              else (True, c\<lparr>cb_root := prune (lkey leaf) t, cb_deletedCount := cb_deletedCount c - 1,
                            cb_readRevision := cb_readRevision c + 1\<rparr>))"

primrec unlink_all :: "nat list \<Rightarrow> ('d, 'q) critbit \<Rightarrow> ('d, 'q) critbit" where
  "unlink_all [] c = c"
| "unlink_all (n # ns) c = unlink_all ns (snd (unlinkLeaf n c))"

text \<open>At most \<open>n\<close> leaves are taken from the queue.\<close>

primrec dequeue_batch :: "'q mpmc \<Rightarrow> nat \<Rightarrow> 'q \<Rightarrow> nat list \<times> 'q" where
  "dequeue_batch Q 0 q = ([], q)"
| "dequeue_batch Q (Suc n) q =
     (case q_deq Q q of None \<Rightarrow> ([], q) | Some (leaf, q') \<Rightarrow> (case dequeue_batch Q n q' of (ls, q'') \<Rightarrow> (leaf # ls, q'')))"

definition drainReap :: "'q mpmc \<Rightarrow> ('d, 'q) critbit \<Rightarrow> nat \<times> ('d, 'q) critbit" where
  "drainReap Q c =
     (case cb_reapQueue c of
        None \<Rightarrow> (0, c)
      | Some q \<Rightarrow>
          if cb_closed c then (0, c)
          else case dequeue_batch Q reapBatchSize q of (batch, q') \<Rightarrow>
            let c = c\<lparr>cb_reapQueue := Some q'\<rparr>
            in if length batch = 0 then (0, c) else (length batch, unlink_all batch c))"

definition reap :: "('d, 'q) critbit \<Rightarrow> nat \<times> ('d, 'q) critbit" where
  "reap c =
     (if cb_closed c then (0, c)
      else case cb_root c of
        None \<Rightarrow> (0, c)
      | Some t \<Rightarrow>
          case reap_nodes dead t of (t', reaped) \<Rightarrow>
            let c = c\<lparr>cb_root := Some t', cb_deletedCount := cb_deletedCount c - int reaped,
                      cb_readRevision := cb_readRevision c + of_nat reaped\<rparr>
            in case t' of
                 Leaf leaf \<Rightarrow> (case unlinkLeaf (lid leaf) c of (ok, c) \<Rightarrow> (if ok then reaped + 1 else reaped, c))
               | Node _ _ _ \<Rightarrow> (reaped, c))"

text \<open>The worker started by \<open>maybeReap\<close>, without the compaction it ends with.\<close>

partial_function (option) drain_all :: "'q mpmc \<Rightarrow> ('d, 'q) critbit \<Rightarrow> ('d, 'q) critbit option" where
  "drain_all Q c = (case drainReap Q c of (n, c') \<Rightarrow> if n > 0 then drain_all Q c' else Some c')"

definition reap_worker :: "'q mpmc \<Rightarrow> ('d, 'q) critbit \<Rightarrow> ('d, 'q) critbit option" where
  "reap_worker Q c =
     do {
       c \<leftarrow> drain_all Q c;
       let c = (if cb_reapDropped c > 0 then snd (reap (c\<lparr>cb_reapDropped := 0\<rparr>)) else c\<lparr>cb_reapDropped := 0\<rparr>);
       Some (c\<lparr>cb_reapRunning := False\<rparr>)
     }"

end
