(* ===== verification/Crit_Evict.thy ===== *)
theory Crit_Evict
  imports Crit_Index Go_Float
begin

text \<open>
  Eviction from the key index (keytrie/evict.go, evict_sample.go): a clock hand samples leaf slots, the oldest cold leaves
  of the sample are evicted, most of them as ghosts that remember their frequency, and the protection threshold
  adapts to the hit rate.

  The directory of the leaf arena, which slot holds which node, is an argument: a slot whose node is not linked is
  one the sweep skips. \<open>slices.SortFunc\<close> is not stable, so the sort is an argument too.
\<close>

section \<open>Sampling\<close>

record candidate =
  cand_leaf :: nat
  cand_access :: uint64

text \<open>Cold leaves in the order found, ghosts in the reverse order, and the oldest evictable leaf.\<close>

record evict_sample =
  s_cold :: "candidate list"
  s_ghosts :: "candidate list"
  s_oldest :: "nat option"
  s_oldest_access :: uint64

definition leaf_at :: "nat \<Rightarrow> ('d, 'q) critbit \<Rightarrow> 'd crit_leaf option" where
  "leaf_at n c = find (\<lambda>l. lid l = n) (leaf_list c)"

definition decayLeaf :: "uint64 \<Rightarrow> 'd crit_leaf \<Rightarrow> 'd crit_leaf" where
  "decayLeaf epoch leaf =
     (let prev = lepoch leaf in
      if prev \<ge> epoch then leaf
      else
        let steps = epoch - prev; f = lfreq leaf; leaf = leaf\<lparr>lepoch := epoch\<rparr>
        in if f \<le> 1 then leaf else leaf\<lparr>lfreq := f - min (uint steps) (f - 1)\<rparr>)"

definition sample_consider :: "int \<Rightarrow> uint64 \<Rightarrow> nat \<Rightarrow> evict_sample \<times> ('d, 'q) critbit \<Rightarrow> evict_sample \<times> ('d, 'q) critbit" where
  "sample_consider threshold epoch n st =
     (case st of (s, c) \<Rightarrow>
        case leaf_at n c of
          None \<Rightarrow> (s, c)
        | Some leaf \<Rightarrow>
            let candidate = \<lparr>cand_leaf = n, cand_access = laccess leaf\<rparr>
            in if ldeleted leaf then (s\<lparr>s_ghosts := candidate # s_ghosts s\<rparr>, c)
               else
                 let leaf' = (if epoch > 0 then decayLeaf epoch leaf else leaf);
                     c = set_leaf leaf (if epoch > 0 then decayLeaf epoch else id) c
                 in if lpinned leaf' \<or> lpins leaf' \<noteq> 0 then (s, c)
                    else
                      let s = (if cand_access candidate < s_oldest_access s
                               then s\<lparr>s_oldest := Some n, s_oldest_access := cand_access candidate\<rparr> else s)
                      in if threshold = 0 \<or> lfreq leaf' \<le> threshold
                         then (s\<lparr>s_cold := s_cold s @ [candidate]\<rparr>, c) else (s, c))"

section \<open>The clock hand\<close>

type_synonym directory = "nat list option list"

definition sweepSegments :: nat where
  "sweepSegments = 8"

definition minSweep :: nat where
  "minSweep = 128"

text \<open>One segment from \<open>origin\<close>; the result is the slots it spans. A hole is skipped to the next chunk.\<close>

function sweep_segment :: "directory \<Rightarrow> nat \<Rightarrow> (nat \<Rightarrow> 's \<times> ('d, 'q) critbit \<Rightarrow> 's \<times> ('d, 'q) critbit) \<Rightarrow> uint64 \<Rightarrow> nat \<Rightarrow> nat \<Rightarrow>
    nat \<Rightarrow> nat \<Rightarrow> 's \<times> ('d, 'q) critbit \<Rightarrow> nat \<times> ('s \<times> ('d, 'q) critbit)" where
  "sweep_segment chunks chunkSize fn origin want segGap j occupied st =
     (if occupied < want \<and> j < segGap
      then
        let total = length chunks * chunkSize;
            idx = unat (origin + of_nat j) mod total
        in case chunks ! (idx div chunkSize) of
             None \<Rightarrow> sweep_segment chunks chunkSize fn origin want segGap (j + (chunkSize - 1 - idx mod chunkSize) + 1) occupied st
           | Some nodes \<Rightarrow>
               let n = nodes ! (idx mod chunkSize)
               in if (case leaf_at n (snd st) of None \<Rightarrow> True | Some l \<Rightarrow> dead l)
                  then sweep_segment chunks chunkSize fn origin want segGap (j + 1) occupied st
                  else sweep_segment chunks chunkSize fn origin want segGap (j + 1) (occupied + 1) (fn n st)
      else (j, st))"
  by pat_completeness auto
termination
  by (relation "measure (\<lambda>(chunks, chunkSize, fn, origin, want, segGap, j, occupied, st). segGap - j)") auto

declare sweep_segment.simps [simp del]

primrec sweep_segments :: "directory \<Rightarrow> nat \<Rightarrow> (nat \<Rightarrow> 's \<times> ('d, 'q) critbit \<Rightarrow> 's \<times> ('d, 'q) critbit) \<Rightarrow> nat \<Rightarrow> nat \<Rightarrow> nat \<Rightarrow>
    uint64 \<Rightarrow> nat list \<Rightarrow> nat \<times> ('s \<times> ('d, 'q) critbit) \<Rightarrow> nat \<times> ('s \<times> ('d, 'q) critbit)" where
  "sweep_segments chunks chunkSize fn base nSeg segGap hand [] r = r"
| "sweep_segments chunks chunkSize fn base nSeg segGap hand (s # ss) r =
     (let segLen = base div nSeg;
          want = (if s = nSeg - 1 then base - segLen * (nSeg - 1) else segLen)
      in case sweep_segment chunks chunkSize fn (hand + of_nat s * of_nat segGap) want segGap 0 0 (snd r) of (j, st) \<Rightarrow>
           sweep_segments chunks chunkSize fn base nSeg segGap hand ss (if s = 0 then max j 1 else fst r, st))"

definition sweepLeaves :: "directory \<Rightarrow> nat \<Rightarrow> nat \<Rightarrow> (nat \<Rightarrow> 's \<times> ('d, 'q) critbit \<Rightarrow> 's \<times> ('d, 'q) critbit) \<Rightarrow>
    's \<times> ('d, 'q) critbit \<Rightarrow> 's \<times> ('d, 'q) critbit" where
  "sweepLeaves chunks chunkSize base fn st =
     (let total = length chunks * chunkSize in
      if total = 0 then st
      else
        let base = max base 1;
            nSeg = (if int base \<ge> cb_size (snd st) \<or> base < sweepSegments then 1 else sweepSegments);
            segGap = (if total div nSeg = 0 then total else total div nSeg);
            hand = cb_evictHand (snd st)
        in case sweep_segments chunks chunkSize fn base nSeg segGap hand [0..<nSeg] (0, st) of (advance, (s, c)) \<Rightarrow>
             (s, c\<lparr>cb_evictHand := hand + of_nat advance\<rparr>))"

section \<open>Evicting\<close>

record 'd evicted_leaf =
  ev_key :: bytes
  ev_tips :: tips_ptr
  ev_data :: "'d option"

definition advanceDecay :: "('d, 'q) critbit \<Rightarrow> ('d, 'q) critbit" where
  "advanceDecay c =
     (let c = c\<lparr>cb_evictClock := cb_evictClock c + 1\<rparr>;
          every = (if cb_decayEvery c = 0 then max 8 (word_of_int (cb_size c) div 2) else cb_decayEvery c)
      in if every \<noteq> - 1 \<and> cb_evictClock c \<ge> every
         then c\<lparr>cb_evictClock := 0, cb_decayEpochN := cb_decayEpochN c + 1\<rparr> else c)"

definition SetDecayInterval :: "int \<Rightarrow> ('d, 'q) critbit \<Rightarrow> ('d, 'q) critbit" where
  "SetDecayInterval n c = (if n > 0 then c\<lparr>cb_decayEvery := word_of_int n\<rparr> else c\<lparr>cb_decayEvery := - 1\<rparr>)"

definition ghostCap :: "('d, 'q) critbit \<Rightarrow> int" where
  "ghostCap c = max (cb_size c div 8) 16"

text \<open>The leaf is claimed unless it is deleted or held; \<open>None\<close> is a refusal.\<close>

definition claimForEviction :: "nat \<Rightarrow> ('d, 'q) critbit \<Rightarrow> ('d crit_leaf \<times> ('d, 'q) critbit) option" where
  "claimForEviction n c =
     (case leaf_at n c of
        None \<Rightarrow> None
      | Some leaf \<Rightarrow>
          if ldeleted leaf then None
          else if lpins leaf \<noteq> 0 then None
          else Some (leaf, set_leaf leaf (\<lambda>l. l\<lparr>ldeleted := True\<rparr>) c))"

definition detachEvictedLeaf :: "'d crit_leaf \<Rightarrow> ('d, 'q) critbit \<Rightarrow> 'd evicted_leaf \<times> ('d, 'q) critbit" where
  "detachEvictedLeaf leaf c =
     (case clearLeaf leaf (set_leaf leaf (\<lambda>l. l\<lparr>ltips := None\<rparr>) c) of
        (data, c) \<Rightarrow> (\<lparr>ev_key = lkey leaf, ev_tips = ltips leaf, ev_data = data\<rparr>, c))"

definition reclaimGhost :: "'q mpmc \<Rightarrow> nat \<Rightarrow> ('d, 'q) critbit \<Rightarrow> bool \<times> ('d, 'q) critbit" where
  "reclaimGhost Q n c =
     (case leaf_at n c of
        None \<Rightarrow> (False, c)
      | Some g \<Rightarrow>
          if lfreq g \<ge> 0 then (False, c)
          else
            let c = set_leaf g (\<lambda>l. l\<lparr>lfreq := 0\<rparr>) c;
                c = c\<lparr>cb_ghostCount := cb_ghostCount c - 1, cb_deletedCount := cb_deletedCount c + 1\<rparr>
            in (True, enqueueReap Q g c))"

primrec reclaimOldestGhost :: "'q mpmc \<Rightarrow> candidate list \<Rightarrow> ('d, 'q) critbit \<Rightarrow> bool \<times> candidate list \<times> ('d, 'q) critbit" where
  "reclaimOldestGhost Q [] c = (False, [], c)"
| "reclaimOldestGhost Q (g # gs) c =
     (case reclaimGhost Q (cand_leaf g) c of (ok, c') \<Rightarrow> if ok then (True, gs, c') else reclaimOldestGhost Q gs c')"

text \<open>The loop over the cold candidates: each becomes a ghost while there is room for ghosts, else a deleted leaf.\<close>

primrec evict_cold :: "'q mpmc \<Rightarrow> candidate list \<Rightarrow> candidate list \<Rightarrow> 'd evicted_leaf list \<Rightarrow> ('d, 'q) critbit \<Rightarrow>
    'd evicted_leaf list \<times> candidate list \<times> ('d, 'q) critbit" where
  "evict_cold Q [] ghosts victims c = (victims, ghosts, c)"
| "evict_cold Q (cd # cold) ghosts victims c =
     (case claimForEviction (cand_leaf cd) c of
        None \<Rightarrow> evict_cold Q cold ghosts victims c
      | Some (leaf, c) \<Rightarrow>
          case detachEvictedLeaf leaf c of (victim, c) \<Rightarrow>
          case (if cb_ghostCount c \<ge> ghostCap c then snd (reclaimOldestGhost Q ghosts c) else (ghosts, c)) of (ghosts, c) \<Rightarrow>
            let c = (if cb_ghostCount c < ghostCap c
                then
                  let c = set_leaf leaf (\<lambda>l. l\<lparr>lfreq := - max (lfreq l) 1\<rparr>) c
                  in c\<lparr>cb_ghostCount := cb_ghostCount c + 1\<rparr>
                else enqueueReap Q leaf (c\<lparr>cb_deletedCount := cb_deletedCount c + 1\<rparr>))
            in evict_cold Q cold ghosts (victims @ [victim]) (advanceDecay c))"

text \<open>No cold leaf in the sample: the oldest ghost, else the oldest evictable leaf.\<close>

definition evict_fallback :: "'q mpmc \<Rightarrow> candidate list \<Rightarrow> nat option \<Rightarrow> ('d, 'q) critbit \<Rightarrow>
    bool \<times> 'd evicted_leaf list \<times> ('d, 'q) critbit" where
  "evict_fallback Q ghosts oldest c =
     (case reclaimOldestGhost Q ghosts c of (ok, _, c') \<Rightarrow>
        if ok then (True, [], advanceDecay (c'\<lparr>cb_evictedUnprot := cb_evictedUnprot c' + 1\<rparr>))
        else case Option.bind oldest (\<lambda>n. claimForEviction n c') of
          None \<Rightarrow> (False, [], c')
        | Some (leaf, c) \<Rightarrow>
            (case detachEvictedLeaf leaf c of (victim, c) \<Rightarrow>
               let c = enqueueReap Q leaf (c\<lparr>cb_deletedCount := cb_deletedCount c + 1\<rparr>)
               in (False, [victim], advanceDecay (c\<lparr>cb_evictedProt := cb_evictedProt c + 1\<rparr>))))"

section \<open>Adapting the threshold\<close>

definition fdiv :: "float64 \<Rightarrow> float64 \<Rightarrow> float64" where
  "fdiv x y =
     (case (x, y) of
        (Fin s a, Fin t b) \<Rightarrow> if b = 0 then (if a = 0 then FNaN else FInf (s \<noteq> t)) else round_f64 (s \<noteq> t) (a / b)
      | (Fin s a, FInf t) \<Rightarrow> Fin (s \<noteq> t) 0
      | (FInf s, Fin t b) \<Rightarrow> FInf (s \<noteq> t)
      | _ \<Rightarrow> FNaN)"

definition fmul :: "float64 \<Rightarrow> float64 \<Rightarrow> float64" where
  "fmul x y =
     (case (x, y) of
        (Fin s a, Fin t b) \<Rightarrow> round_f64 (s \<noteq> t) (a * b)
      | (Fin s a, FInf t) \<Rightarrow> if a = 0 then FNaN else FInf (s \<noteq> t)
      | (FInf s, Fin t b) \<Rightarrow> if b = 0 then FNaN else FInf (s \<noteq> t)
      | (FInf s, FInf t) \<Rightarrow> FInf (s \<noteq> t)
      | _ \<Rightarrow> FNaN)"

definition f64_to_uint64 :: "float64 \<Rightarrow> uint64" where
  "f64_to_uint64 x = (case x of Fin False a \<Rightarrow> word_of_int \<lfloor>a\<rfloor> | _ \<Rightarrow> 0)"

definition f64_of_uint64 :: "uint64 \<Rightarrow> float64" where
  "f64_of_uint64 w = f64_of_int (uint w)"

definition adapt_rates :: "uint64 \<Rightarrow> ('d, 'q) critbit \<Rightarrow> ('d, 'q) critbit" where
  "adapt_rates hitRate c =
     (let prev = cb_prevHitRate c; lastDir = cb_lastKDir c in
      if prev > 0 \<and> lastDir \<noteq> 0
      then
        let up = lastDir \<ge> 0;
            (bot, top) = (if up then (3000, 8000) else (500, 4000));
            increase = (if up then hitRate \<le> prev else hitRate > prev);
            val = (if up then cb_rateHigh c else cb_rateLow c);
            val' = (if increase \<and> val < top - 1000 then val + 1000
                    else if \<not> increase \<and> val > bot + 1000 then val - 1000 else val)
        in if up then c\<lparr>cb_rateHigh := val'\<rparr> else c\<lparr>cb_rateLow := val'\<rparr>
      else c)"

definition adapt_k :: "uint64 \<Rightarrow> uint64 \<Rightarrow> ('d, 'q) critbit \<Rightarrow> ('d, 'q) critbit" where
  "adapt_k graduated evictions c =
     (let rate = fdiv (f64_of_uint64 graduated) (f64_of_uint64 evictions);
          rateLow = fdiv (f64_of_int (cb_rateLow c)) (f64_of_int 10000);
          rateHigh = fdiv (f64_of_int (cb_rateHigh c)) (f64_of_int 10000);
          k = cb_evictK c
      in if fless rate rateLow \<and> k > 0 then c\<lparr>cb_evictK := k - 1, cb_lastKDir := - 1\<rparr>
         else if fless rateHigh rate \<and> k < maxLeafFreq - 1 then c\<lparr>cb_evictK := k + 1, cb_lastKDir := 1\<rparr>
         else c\<lparr>cb_lastKDir := 0\<rparr>)"

definition maybeAdaptK :: "('d, 'q) critbit \<Rightarrow> ('d, 'q) critbit" where
  "maybeAdaptK c =
     (let total = cb_evictedUnprot c + cb_evictedProt c in
      if total - cb_lastAdaptCheck c < 1000 then c
      else
        let ops = cb_windowOps c in
        if ops < 2000 then c
        else
          let c = c\<lparr>cb_lastAdaptCheck := total\<rparr>; graduated = cb_reachedProt c in
          if total = 0 then (if graduated > 100 then c\<lparr>cb_reachedProt := graduated div 2\<rparr> else c)
          else
            let hits = min (cb_windowHits c) ops;
                hitRate = f64_to_uint64 (fmul (fdiv (f64_of_uint64 hits) (f64_of_uint64 ops)) (f64_of_int 10000));
                c = adapt_rates hitRate c;
                c = c\<lparr>cb_prevHitRate := hitRate, cb_windowOps := 0, cb_windowHits := 0\<rparr>;
                c = adapt_k graduated total c;
                c = (if graduated > 100 then c\<lparr>cb_reachedProt := graduated div 2\<rparr> else c)
            in if total > 100
               then c\<lparr>cb_evictedUnprot := cb_evictedUnprot c div 2, cb_evictedProt := cb_evictedProt c div 2\<rparr> else c)"

section \<open>A batch\<close>

definition notify_victims :: "'d evicted_leaf list \<Rightarrow> ('d, 'q) critbit \<Rightarrow> ('d, 'q) critbit" where
  "notify_victims vs c = fold (\<lambda>v c. fireTipDelta (ev_tips v) None (ev_data v) c) vs c"

definition EvictBatch :: "'q mpmc \<Rightarrow> (candidate list \<Rightarrow> candidate list) \<Rightarrow> directory \<Rightarrow> nat \<Rightarrow> int \<Rightarrow> ('d, 'q) critbit \<Rightarrow>
    int \<times> 'd evicted_leaf list \<times> ('d, 'q) critbit" where
  "EvictBatch Q srt chunks chunkSize want c =
     (if cb_closed c \<or> want \<le> 0 then (0, [], c)
      else
        let window = max (nat want * 2) minSweep in
        case sweepLeaves chunks chunkSize window (sample_consider (cb_evictK c) (cb_decayEpochN c))
            (\<lparr>s_cold = [], s_ghosts = [], s_oldest = None, s_oldest_access = - 1\<rparr>, c) of (s, c) \<Rightarrow>
        let cold = (if int (length (s_cold s)) > want then take (nat want) (srt (s_cold s)) else s_cold s) in
        case evict_cold Q cold (srt (s_ghosts s)) [] c of (victims, ghosts, c) \<Rightarrow>
        case (if victims = [] then evict_fallback Q ghosts (s_oldest s) c
              else (False, victims, c\<lparr>cb_evictedUnprot := cb_evictedUnprot c + of_nat (length victims)\<rparr>)) of
          (reclaimedGhost, victims, c) \<Rightarrow>
            let c = maybeReap (notify_victims victims (maybeAdaptK c))
            in (if reclaimedGhost then 1 else int (length victims), victims, c))"

definition EvictBounded :: "'q mpmc \<Rightarrow> (candidate list \<Rightarrow> candidate list) \<Rightarrow> directory \<Rightarrow> nat \<Rightarrow> ('d, 'q) critbit \<Rightarrow> bool \<times> ('d, 'q) critbit" where
  "EvictBounded Q srt chunks chunkSize c = (case EvictBatch Q srt chunks chunkSize 1 c of (n, _, c') \<Rightarrow> (n > 0, c'))"

end
