(* ===== verification/Crit_Index_Inv.thy ===== *)
theory Crit_Index_Inv
  imports Crit_Index
begin

text \<open>
  The invariant of the key index: the trie is well formed, leaves have distinct addresses, deleted leaves hold nothing,
  and the three counters are the numbers of live, deleted and ghost leaves. Every operation is a replacement of
  one leaf, the link of a new one or the unlink of dead ones; the lemmas here say what each does to the
  invariant, to the live keys and to the tip references held.
\<close>

section \<open>Definitions\<close>

definition leafset :: "('d, 'q) critbit \<Rightarrow> 'd crit_leaf set" where
  "leafset c = set (leaf_list c)"

definition ghost :: "'d crit_leaf \<Rightarrow> bool" where
  "ghost leaf \<longleftrightarrow> ldeleted leaf \<and> lfreq leaf < 0"

definition tally :: "('a \<Rightarrow> bool) \<Rightarrow> 'a set \<Rightarrow> int" where
  "tally P S = int (card {x \<in> S. P x})"

definition leaf_ok :: "'d crit_leaf \<Rightarrow> bool" where
  "leaf_ok l \<longleftrightarrow> \<bar>lfreq l\<bar> \<le> maxLeafFreq \<and> distinct (Tips (ltips l)) \<and>
     (if ldeleted l then ltips l = None \<and> ldata l = None else lfreq l \<ge> 0)"

definition tree_ok :: "('d, 'q) critbit \<Rightarrow> bool" where
  "tree_ok c \<longleftrightarrow> (case cb_root c of None \<Rightarrow> True | Some t \<Rightarrow> \<not> cb_closed c \<and> trie_ok lkey t)"

definition counts_ok :: "('d, 'q) critbit \<Rightarrow> bool" where
  "counts_ok c \<longleftrightarrow> cb_size c = tally (\<lambda>l. \<not> ldeleted l) (leafset c) \<and>
     cb_deletedCount c = tally dead (leafset c) \<and> cb_ghostCount c = tally ghost (leafset c)"

definition index_ok :: "('d, 'q) critbit \<Rightarrow> bool" where
  "index_ok c \<longleftrightarrow> tree_ok c \<and> inj_on lid (leafset c) \<and> (\<forall>l \<in> leafset c. leaf_ok l \<and> lid l < cb_next c) \<and>
     (\<not> cb_closed c \<longrightarrow> counts_ok c)"

text \<open>The tip references the leaves hold, and those the hook was told to take and to release.\<close>

definition held :: "('d, 'q) critbit \<Rightarrow> tip multiset" where
  "held c = (\<Sum>l \<in> leafset c. mset (Tips (ltips l)))"

definition taken :: "('d, 'q) critbit \<Rightarrow> tip multiset" where
  "taken c = (\<Sum>(a, r, d) \<leftarrow> cb_deltas c. mset a)"

definition released :: "('d, 'q) critbit \<Rightarrow> tip multiset" where
  "released c = (\<Sum>(a, r, d) \<leftarrow> cb_deltas c. mset r)"

definition refs_ok :: "('d, 'q) critbit \<Rightarrow> bool" where
  "refs_ok c \<longleftrightarrow> taken c = held c + released c"

section \<open>Leaves and live keys\<close>

lemma tally_insert: "finite S \<Longrightarrow> x \<notin> S \<Longrightarrow> tally P (insert x S) = tally P S + of_bool (P x)"
proof -
  assume "finite S" "x \<notin> S"
  moreover have "{y \<in> insert x S. P y} = (if P x then insert x {y \<in> S. P y} else {y \<in> S. P y})" by auto
  ultimately show ?thesis by (simp add: tally_def)
qed

lemma tally_remove: "finite S \<Longrightarrow> x \<in> S \<Longrightarrow> tally P (S - {x}) = tally P S - of_bool (P x)"
  using tally_insert [of "S - {x}" x P] by (simp add: insert_absorb)

lemma finite_leafset [simp]: "finite (leafset c)"
  by (simp add: leafset_def)

lemma leafset_root: "leafset c = (case cb_root c of None \<Rightarrow> {} | Some t \<Rightarrow> set (leaves t))"
  by (simp add: leafset_def leaf_list_def split: option.split)

lemma leafset_key_inj: "tree_ok c \<Longrightarrow> x \<in> leafset c \<Longrightarrow> y \<in> leafset c \<Longrightarrow> lkey x = lkey y \<Longrightarrow> x = y"
  by (auto simp: tree_ok_def leafset_root split: option.splits dest: leaves_inj)

lemma best_match_iff:
  assumes "tree_ok c" "cb_root c = Some t"
  shows "lkey (findBestMatch t key) = key \<longleftrightarrow> (\<exists>l \<in> leafset c. lkey l = key)"
  using assms best_in_leaves [of t key] best_match by (fastforce simp: tree_ok_def leafset_root)

lemma liveLeaf_iff:
  assumes "tree_ok c"
  shows "liveLeaf key c = Some l \<longleftrightarrow> l \<in> leafset c \<and> lkey l = key \<and> \<not> ldeleted l"
proof (cases "cb_root c")
  case (Some t)
  then have "trie_ok lkey t" "\<not> cb_closed c" using assms by (auto simp: tree_ok_def)
  then show ?thesis using Some best_in_leaves [of t key] best_match [of lkey t]
    by (auto simp: liveLeaf_def leafset_root Let_def)
qed (auto simp: liveLeaf_def leafset_root)

lemma option_eqI: "(\<And>x. a = Some x \<longleftrightarrow> b = Some x) \<Longrightarrow> a = b"
  by (cases a; cases b) auto

lemma liveLeaf_eqI:
  assumes "tree_ok c" "tree_ok c'" "\<And>l. lkey l = key \<Longrightarrow> \<not> ldeleted l \<Longrightarrow> l \<in> leafset c' \<longleftrightarrow> l \<in> leafset c"
  shows "liveLeaf key c' = liveLeaf key c"
  by (rule option_eqI, unfold liveLeaf_iff [OF assms(1)] liveLeaf_iff [OF assms(2)]) (use assms(3) in blast)

lemma liveLeaf_leaf:
  assumes "tree_ok c" "x \<in> leafset c"
  shows "liveLeaf (lkey x) c = (if ldeleted x then None else Some x)"
proof (rule option_eqI)
  fix l
  have "l \<in> leafset c \<and> lkey l = lkey x \<longleftrightarrow> l = x" using leafset_key_inj [OF assms(1) _ assms(2)] assms(2) by blast
  then show "liveLeaf (lkey x) c = Some l \<longleftrightarrow> (if ldeleted x then None else Some x) = Some l"
    unfolding liveLeaf_iff [OF assms(1)] by (cases "l = x") (simp_all, blast)
qed

section \<open>Replacing a leaf\<close>

lemma update_leaf_id [simp]: "update_leaf key id t = t"
  by (induction t) auto

lemma update_leaf_comp: "update_leaf key g (update_leaf key f t) = update_leaf key (\<lambda>x. g (f x)) t"
  by (induction t) auto

lemma set_leaf_sel [simp]:
  "cb_size (set_leaf l f c) = cb_size c" "cb_closed (set_leaf l f c) = cb_closed c"
  "cb_deletedCount (set_leaf l f c) = cb_deletedCount c" "cb_ghostCount (set_leaf l f c) = cb_ghostCount c"
  "cb_next (set_leaf l f c) = cb_next c" "cb_deltas (set_leaf l f c) = cb_deltas c" "cb_refDelta (set_leaf l f c) = cb_refDelta c"
  "cb_root (set_leaf l f c) = map_option (update_leaf (lkey l) f) (cb_root c)"
  "cb_evictK (set_leaf l f c) = cb_evictK c" "cb_decayEpochN (set_leaf l f c) = cb_decayEpochN c"
  "cb_evictActive (set_leaf l f c) = cb_evictActive c"
  by (simp_all add: set_leaf_def)

lemma set_leaf_twice [simp]: "map_option (update_leaf k g) (map_option (update_leaf k f) r) = map_option (update_leaf k (\<lambda>x. g (f x))) r"
  by (simp add: option.map_comp comp_def update_leaf_comp)

lemma update_root:
  assumes "tree_ok c" "x \<in> leafset c" "\<And>y. lkey (f y) = lkey y"
    and "cb_root c' = map_option (update_leaf (lkey x) f) (cb_root c)" "cb_closed c' = cb_closed c"
  shows "tree_ok c'" "leafset c' = insert (f x) (leafset c - {x})"
proof -
  obtain t where t: "cb_root c = Some t" "trie_ok lkey t" "x \<in> set (leaves t)" "\<not> cb_closed c"
    using assms(1,2) by (auto simp: tree_ok_def leafset_root split: option.splits)
  show "tree_ok c'" using t assms(4,5) update_leaf_ok(1) [of lkey f t "lkey x"] assms(3) by (simp add: tree_ok_def)
  have "leaves (update_leaf (lkey x) f t) = map (\<lambda>y. if y = x then f y else y) (leaves t)"
    using update_leaf_ok(2) [OF assms(3) t(2,3)] .
  then show "leafset c' = insert (f x) (leafset c - {x})" using t assms(4) by (auto simp: leafset_root)
qed

lemma replaced:
  assumes ok: "index_ok c" "x \<in> leafset c" and key: "\<And>y. lkey (f y) = lkey y" and new: "lid (f x) = lid x" "leaf_ok (f x)"
    and root: "cb_root c' = map_option (update_leaf (lkey x) f) (cb_root c)" "cb_closed c' = cb_closed c" "cb_next c' = cb_next c"
    and counts: "cb_size c' = cb_size c - of_bool (\<not> ldeleted x) + of_bool (\<not> ldeleted (f x))"
      "cb_deletedCount c' = cb_deletedCount c - of_bool (dead x) + of_bool (dead (f x))"
      "cb_ghostCount c' = cb_ghostCount c - of_bool (ghost x) + of_bool (ghost (f x))"
  shows "index_ok c'" and "liveLeaf k c' = (if k = lkey x then (if ldeleted (f x) then None else Some (f x)) else liveLeaf k c)"
    and "held c' + mset (Tips (ltips x)) = held c + mset (Tips (ltips (f x)))" and "leafset c' = insert (f x) (leafset c - {x})"
proof -
  have tree: "tree_ok c" using ok by (simp add: index_ok_def)
  note upd = update_root [OF tree ok(2) key root(1,2)]
  show "leafset c' = insert (f x) (leafset c - {x})" by (rule upd(2))
  have nin: "f x \<notin> leafset c - {x}" using leafset_key_inj [OF tree ok(2), of "f x"] key by auto
  have fin: "finite (leafset c - {x})" by simp
  note tl = tally_insert [OF fin nin] tally_remove [OF finite_leafset ok(2)]
  have "counts_ok c'" if "\<not> cb_closed c'" using that ok(1) counts root(2) unfolding index_ok_def counts_ok_def upd(2) by (simp add: tl)
  moreover have "inj_on lid (leafset c')" using ok new(1) unfolding index_ok_def upd(2) inj_on_def by auto
  ultimately show "index_ok c'" using ok new upd(1) root(3) unfolding index_ok_def upd(2) by auto
  show "liveLeaf k c' = (if k = lkey x then (if ldeleted (f x) then None else Some (f x)) else liveLeaf k c)"
  proof (cases "k = lkey x")
    case True
    have "l = f x" if "l \<in> leafset c'" "lkey l = k" for l
      using that True leafset_key_inj [OF tree ok(2), of l] unfolding upd(2) by auto
    then have "liveLeaf k c' = Some l \<longleftrightarrow> l = f x \<and> \<not> ldeleted (f x)" for l
      unfolding liveLeaf_iff [OF upd(1)] using True key [of x] upd(2) by auto
    then have "liveLeaf k c' = (if ldeleted (f x) then None else Some (f x))" by (intro option_eqI) auto
    then show ?thesis using True by simp
  next
    case False
    then have "liveLeaf k c' = liveLeaf k c" by (intro liveLeaf_eqI [OF tree upd(1)]) (auto simp: upd(2) key)
    then show ?thesis using False by simp
  qed
  show "held c' + mset (Tips (ltips x)) = held c + mset (Tips (ltips (f x)))"
    unfolding held_def upd(2) sum.insert [OF fin nin] by (simp add: sum.remove [OF finite_leafset ok(2)] add_ac)
qed

section \<open>Linking a leaf\<close>

lemma linked:
  assumes ok: "index_ok c" and x: "lkey x \<notin> lkey ` leafset c" "lid x = cb_next c" "leaf_ok x" "\<not> ldeleted x"
    and c': "leafset c' = insert x (leafset c)" "tree_ok c'" "cb_closed c' = cb_closed c" "cb_next c' = cb_next c + 1" "cb_size c' = cb_size c + 1"
      "cb_deletedCount c' = cb_deletedCount c" "cb_ghostCount c' = cb_ghostCount c"
  shows "index_ok c'" and "liveLeaf k c' = (if k = lkey x then Some x else liveLeaf k c)" and "held c' = held c + mset (Tips (ltips x))"
proof -
  have nin: "x \<notin> leafset c" using x(1) by auto
  have tree: "tree_ok c" using ok by (simp add: index_ok_def)
  have "counts_ok c'" if "\<not> cb_closed c'"
    using that ok c'(3,5-7) x(4) unfolding index_ok_def counts_ok_def c'(1) by (simp add: tally_insert [OF finite_leafset nin] dead_def ghost_def)
  moreover have "lid l \<noteq> lid x" if "l \<in> leafset c" for l using ok x(2) that by (auto simp: index_ok_def)
  then have "lid x \<notin> lid ` leafset c" by force
  then have "inj_on lid (leafset c')" using ok nin unfolding index_ok_def c'(1) inj_on_insert by simp
  ultimately show "index_ok c'" using ok c'(2,4) x(2,3) unfolding index_ok_def c'(1) by auto
  show "liveLeaf k c' = (if k = lkey x then Some x else liveLeaf k c)"
  proof (cases "k = lkey x")
    case True
    then show ?thesis using liveLeaf_iff [OF c'(2), of k x] x(4) c'(1) by simp
  next
    case False
    then show ?thesis using liveLeaf_eqI [OF tree c'(2), of k] c'(1) by auto
  qed
  show "held c' = held c + mset (Tips (ltips x))" unfolding held_def c'(1) sum.insert [OF finite_leafset nin] by simp
qed

section \<open>Unlinking dead leaves\<close>

lemma unlinked:
  assumes ok: "index_ok c" and sub: "leafset c' \<subseteq> leafset c" "\<And>l. l \<in> leafset c - leafset c' \<Longrightarrow> dead l" and tree: "tree_ok c'"
    and c': "cb_closed c' = cb_closed c" "cb_next c' = cb_next c" "cb_size c' = cb_size c" "cb_ghostCount c' = cb_ghostCount c"
      "cb_deletedCount c' = cb_deletedCount c - int (card (leafset c - leafset c'))"
  shows "index_ok c'" and "liveLeaf k c' = liveLeaf k c" and "held c' = held c"
proof -
  let ?D = "leafset c - leafset c'"
  have split: "tally P (leafset c) = tally P (leafset c') + tally P ?D" for P
  proof -
    have "{x \<in> leafset c. P x} = {x \<in> leafset c'. P x} \<union> {x \<in> ?D. P x}" using sub(1) by auto
    then show ?thesis unfolding tally_def by (simp only:) (subst card_Un_disjoint; simp; blast)
  qed
  have none: "tally P ?D = 0" if "\<And>l. dead l \<Longrightarrow> \<not> P l" for P using that sub(2) by (auto simp: tally_def card_eq_0_iff)
  have all: "tally dead ?D = int (card ?D)" using sub(2) by (auto simp: tally_def intro!: arg_cong [of _ _ card])
  have "counts_ok c'" if "\<not> cb_closed c'"
  proof -
    have "counts_ok c" using ok that c'(1) by (simp add: index_ok_def)
    then show ?thesis unfolding counts_ok_def c'(3-5) split [of dead] split [of ghost] split [of "\<lambda>l. \<not> ldeleted l"] all
      using none [of ghost] none [of "\<lambda>l. \<not> ldeleted l"] by (simp add: dead_def ghost_def)
  qed
  moreover have "inj_on lid (leafset c')" using ok sub(1) by (auto simp: index_ok_def inj_on_def)
  ultimately show "index_ok c'" using ok sub(1) tree c'(2) by (auto simp: index_ok_def)
  show "liveLeaf k c' = liveLeaf k c"
    using ok sub by (intro liveLeaf_eqI [OF _ tree]) (auto simp: index_ok_def dead_def)
  have "leaf_ok l" if "l \<in> ?D" for l using ok that by (auto simp: index_ok_def)
  then have "(\<Sum>l \<in> ?D. mset (Tips (ltips l))) = 0" using sub(2) by (intro sum.neutral ballI) (auto simp: leaf_ok_def dead_def)
  then show "held c' = held c" unfolding held_def using sum.subset_diff [OF sub(1) finite_leafset, of "\<lambda>l. mset (Tips (ltips l))"] by simp
qed

section \<open>The hook\<close>

lemma fire_sel [simp]:
  "cb_size (fireTipDelta a b d c) = cb_size c" "cb_closed (fireTipDelta a b d c) = cb_closed c"
  "cb_deletedCount (fireTipDelta a b d c) = cb_deletedCount c" "cb_ghostCount (fireTipDelta a b d c) = cb_ghostCount c"
  "cb_next (fireTipDelta a b d c) = cb_next c" "cb_root (fireTipDelta a b d c) = cb_root c"
  "cb_refDelta (fireTipDelta a b d c) = cb_refDelta c"
  by (simp_all add: fireTipDelta_def Let_def)

lemma fire_counts:
  assumes "cb_refDelta c"
  shows "taken (fireTipDelta a b d c) = taken c + mset (tipDifference (Tips b) (Tips a))"
    "released (fireTipDelta a b d c) = released c + mset (tipDifference (Tips a) (Tips b))"
proof -
  have self: "tipDifference xs xs = []" for xs by simp
  show "taken (fireTipDelta a b d c) = taken c + mset (tipDifference (Tips b) (Tips a))"
    "released (fireTipDelta a b d c) = released c + mset (tipDifference (Tips a) (Tips b))"
    using assms by (cases "a = b"; simp add: fireTipDelta_def Let_def taken_def released_def self del: tipDifference_filter)+
qed

end
