(* ===== verification/Crit_Index_Ops.thy ===== *)
theory Crit_Index_Ops
  imports Crit_Index_Inv
begin

text \<open>
  What each operation of the key index does, seen from outside: to the map from live keys to tip sets and payloads, to the
  invariant, and to the reference counts.
\<close>

section \<open>Definitions\<close>

definition view :: "('d, 'q) critbit \<Rightarrow> bytes \<rightharpoonup> tips_ptr \<times> 'd option" where
  "view c k = map_option (\<lambda>l. (ltips l, ldata l)) (liveLeaf k c)"

text \<open>The compare-and-swap of \<open>Insert\<close> succeeds. A key without a leaf takes any expectation.\<close>

definition accepts :: "bytes \<Rightarrow> tips_ptr \<Rightarrow> ('d, 'q) critbit \<Rightarrow> bool" where
  "accepts key old c \<longleftrightarrow>
     (case liveLeaf key c of Some l \<Rightarrow> ltips l = old | None \<Rightarrow> old = None \<or> key \<notin> lkey ` leafset c)"

text \<open>A step that clients do not see.\<close>

definition quiet :: "('d, 'q) critbit \<Rightarrow> ('d, 'q) critbit \<Rightarrow> bool" where
  "quiet c c' \<longleftrightarrow> (index_ok c \<longrightarrow> index_ok c') \<and> (index_ok c \<longrightarrow> (\<forall>k. liveLeaf k c' = liveLeaf k c)) \<and>
     (index_ok c \<longrightarrow> held c' = held c) \<and> cb_deltas c' = cb_deltas c \<and> cb_refDelta c' = cb_refDelta c \<and> cb_closed c' = cb_closed c"

text \<open>The outcome of an insertion in an open index.\<close>

definition inserted :: "bytes \<Rightarrow> tips_ptr \<Rightarrow> tips_ptr \<Rightarrow> ('d, 'q) critbit \<Rightarrow> ('d, 'q) critbit \<Rightarrow> bool" where
  "inserted key old newTips c c' \<longleftrightarrow> index_ok c' \<and> cb_closed c' = cb_closed c \<and> cb_refDelta c' = cb_refDelta c \<and>
     (if accepts key old c then view c' = (view c)(key \<mapsto> (newTips, Option.bind (view c key) snd)) else c' = c) \<and>
     (cb_refDelta c \<and> refs_ok c \<and> (old = None \<or> key \<in> lkey ` leafset c) \<longrightarrow> refs_ok c') \<and>
     (accepts key old c \<longrightarrow> (\<forall>x \<in> leafset c. lkey x = key \<longrightarrow> (\<exists>y. liveLeaf key c' = Some y \<and> lpins y = lpins x \<and> lpinned y = lpinned x))) \<and>
     (key \<notin> lkey ` leafset c \<longrightarrow> cb_deltas c' = cb_deltas (fireTipDelta old newTips None c))"

section \<open>Silent steps\<close>

lemma same_core:
  assumes "cb_root c' = cb_root c" "cb_closed c' = cb_closed c" "cb_next c' = cb_next c" "cb_size c' = cb_size c"
    "cb_deletedCount c' = cb_deletedCount c" "cb_ghostCount c' = cb_ghostCount c"
  shows "leafset c' = leafset c" "index_ok c' \<longleftrightarrow> index_ok c" "liveLeaf k c' = liveLeaf k c" "held c' = held c"
proof -
  show ls: "leafset c' = leafset c" by (simp add: leafset_root assms)
  show "index_ok c' \<longleftrightarrow> index_ok c" unfolding index_ok_def tree_ok_def counts_ok_def ls assms by (rule refl)
  show "liveLeaf k c' = liveLeaf k c" unfolding liveLeaf_def assms by (rule refl)
  show "held c' = held c" unfolding held_def ls by (rule refl)
qed

lemma fire_keeps [simp]:
  "leafset (fireTipDelta a b d c) = leafset c" "index_ok (fireTipDelta a b d c) \<longleftrightarrow> index_ok c"
  "liveLeaf k (fireTipDelta a b d c) = liveLeaf k c" "held (fireTipDelta a b d c) = held c"
  by (rule same_core; simp)+

lemma quiet_refl [simp]: "quiet c c"
  by (simp add: quiet_def)

lemma quiet_trans [trans]: "quiet a b \<Longrightarrow> quiet b c \<Longrightarrow> quiet a c"
  by (simp add: quiet_def)

lemma quiet_same:
  assumes "cb_root c' = cb_root c" "cb_closed c' = cb_closed c" "cb_next c' = cb_next c" "cb_size c' = cb_size c"
    "cb_deletedCount c' = cb_deletedCount c" "cb_ghostCount c' = cb_ghostCount c" "cb_deltas c' = cb_deltas c" "cb_refDelta c' = cb_refDelta c"
  shows "quiet c c'"
  unfolding quiet_def using same_core [OF assms(1-6)] assms by simp

lemma quiet_view: "quiet c c' \<Longrightarrow> index_ok c \<Longrightarrow> view c' = view c"
  by (auto simp: quiet_def view_def)

lemma quiet_refs: "quiet c c' \<Longrightarrow> index_ok c \<Longrightarrow> refs_ok c' = refs_ok c"
  by (simp add: quiet_def refs_ok_def taken_def released_def)

lemma view_leaf: "liveLeaf k c = Some l \<Longrightarrow> view c k = Some (ltips l, ldata l)" "liveLeaf k c = None \<Longrightarrow> view c k = None"
  by (simp_all add: view_def)

section \<open>Unlinking\<close>

lemma unlinkLeaf_quiet: "quiet c (snd (unlinkLeaf n c))"
proof (cases "fst (unlinkLeaf n c)")
  case True
  then obtain t x where x: "cb_root c = Some t" "find (\<lambda>l. lid l = n) (leaves t) = Some x" "dead x"
    and c': "snd (unlinkLeaf n c) = c\<lparr>cb_root := prune (lkey x) t, cb_deletedCount := cb_deletedCount c - 1, cb_readRevision := cb_readRevision c + 1\<rparr>"
    by (auto simp: unlinkLeaf_def dead_def split: option.splits if_splits)
  have xin: "x \<in> set (leaves t)" using x(2) by (auto simp: find_Some_iff)
  let ?c = "snd (unlinkLeaf n c)"
  have "index_ok ?c \<and> (\<forall>k. liveLeaf k ?c = liveLeaf k c) \<and> held ?c = held c" if ok: "index_ok c"
  proof -
    have t: "trie_ok lkey t" "\<not> cb_closed c" using ok x(1) by (auto simp: index_ok_def tree_ok_def)
    note pr = prune_ok [OF t(1) xin]
    have ls: "leafset ?c = leafset c - {x}" using pr by (auto simp: c' leafset_root x(1) split: option.splits)
    have "tree_ok ?c" using pr t(2) by (auto simp: c' tree_ok_def split: option.splits)
    moreover have "leafset c - leafset ?c = {x}" using ls xin x(1) by (auto simp: leafset_root)
    ultimately show ?thesis using unlinked [OF ok, of ?c] ls x(3) by (auto simp: c')
  qed
  then show ?thesis by (simp add: quiet_def c')
next
  case False
  then have "snd (unlinkLeaf n c) = c" by (auto simp: unlinkLeaf_def split: option.splits if_splits)
  then show ?thesis by simp
qed

lemma unlink_all_quiet: "quiet c (unlink_all ns c)"
proof (induction ns arbitrary: c)
  case (Cons n ns)
  then show ?case using quiet_trans [OF unlinkLeaf_quiet Cons.IH] by simp
qed simp

lemma drainReap_quiet: "quiet c (snd (drainReap Q c))"
proof -
  have q: "quiet c (c\<lparr>cb_reapQueue := q\<rparr>)" for q by (rule quiet_same) simp_all
  show ?thesis using q quiet_trans [OF q unlink_all_quiet] by (auto simp: drainReap_def Let_def split: option.splits prod.splits)
qed

lemma reap_quiet: "quiet c (snd (reap c))"
proof (cases "cb_root c = None \<or> cb_closed c")
  case False
  then obtain t where t: "cb_root c = Some t" "\<not> cb_closed c" by auto
  obtain t' n where r: "reap_nodes dead t = (t', n)" by fastforce
  let ?c = "c\<lparr>cb_root := Some t', cb_deletedCount := cb_deletedCount c - int n, cb_readRevision := cb_readRevision c + of_nat n\<rparr>"
  have "index_ok ?c \<and> (\<forall>k. liveLeaf k ?c = liveLeaf k c) \<and> held ?c = held c" if ok: "index_ok c"
  proof -
    have tr: "trie_ok lkey t" using ok t(1) by (auto simp: index_ok_def tree_ok_def)
    note ro = reap_nodes_ok [OF tr r]
    have sub: "leafset ?c \<subseteq> leafset c" using ro t(1) by (auto simp: leafset_root)
    have dd: "dead l" if "l \<in> leafset c - leafset ?c" for l using ro t(1) that by (auto simp: leafset_root)
    have "card (leafset c) = length (leaves t)" "card (leafset ?c) = length (leaves t')"
      using leaves_distinct [OF tr] leaves_distinct [OF conjunct1 [OF ro]] t(1) by (simp_all add: leafset_root distinct_card)
    then have "card (leafset c - leafset ?c) = n" using card_Diff_subset [OF finite_leafset sub] conjunct1 [OF conjunct2 [OF ro]] by linarith
    then show ?thesis using unlinked [OF ok sub dd] ro t(2) by (simp add: tree_ok_def)
  qed
  then have q: "quiet c ?c" by (simp add: quiet_def)
  have "snd (reap c) = (case t' of Leaf l \<Rightarrow> snd (unlinkLeaf (lid l) ?c) | Node _ _ _ \<Rightarrow> ?c)"
    using t r by (simp add: reap_def Let_def split: trie.split prod.split)
  then show ?thesis using q quiet_trans [OF q unlinkLeaf_quiet] by (cases t') simp_all
qed (auto simp: reap_def)

lemma drain_all_quiet:
  assumes "drain_all Q c = Some c'"
  shows "quiet c c'"
proof (rule drain_all.raw_induct [OF _ assms])
  fix drain Q and c c' :: "('a, 'b) critbit"
  assume IH: "\<And>Q c c'. drain Q c = Some c' \<Longrightarrow> quiet c c'"
    and r: "(case drainReap Q c of (n, c') \<Rightarrow> if 0 < n then drain Q c' else Some c') = Some c'"
  obtain n d where d: "drainReap Q c = (n, d)" by fastforce
  have "quiet c d" using drainReap_quiet [of c Q] d by simp
  then show "quiet c c'" using IH r d quiet_trans [of c d c'] by (auto split: if_splits)
qed

lemma reap_worker_quiet: "reap_worker Q c = Some c' \<Longrightarrow> quiet c c'"
proof -
  assume "reap_worker Q c = Some c'"
  then obtain d where d: "drain_all Q c = Some d"
    and c': "c' = (if cb_reapDropped d > 0 then snd (reap (d\<lparr>cb_reapDropped := 0\<rparr>)) else d\<lparr>cb_reapDropped := 0\<rparr>)\<lparr>cb_reapRunning := False\<rparr>"
    by (auto simp: reap_worker_def bind_eq_Some_conv Let_def)
  have a: "quiet d (d\<lparr>cb_reapDropped := 0\<rparr>)" and b: "quiet e (e\<lparr>cb_reapRunning := False\<rparr>)" for e :: "('a, 'b) critbit"
    by (rule quiet_same; simp)+
  show ?thesis unfolding c' using quiet_trans [OF drain_all_quiet [OF d] a] quiet_trans reap_quiet b by (metis (full_types))
qed

section \<open>Insert\<close>

lemma insert_new:
  assumes ok: "index_ok c" and key: "key \<notin> lkey ` leafset c" and nt: "distinct (Tips newTips)"
    and c': "c' = fireTipDelta old newTips None (c\<lparr>cb_next := cb_next c + 1, cb_root := Some t', cb_size := cb_size c + 1\<rparr>)"
    and x: "x = (fst (allocLeafNode key newTips now c))\<lparr>ldeleted := False\<rparr>"
    and t': "trie_ok lkey t'" "set (leaves t') = insert x (leafset c)" "\<not> cb_closed c"
  shows "index_ok c'" "liveLeaf k c' = (if k = key then Some x else liveLeaf k c)"
    "cb_refDelta c \<Longrightarrow> refs_ok c \<Longrightarrow> old = None \<Longrightarrow> refs_ok c'"
proof -
  let ?c = "c\<lparr>cb_next := cb_next c + 1, cb_root := Some t', cb_size := cb_size c + 1\<rparr>"
  have lx: "lkey x = key" "lid x = cb_next c" "ltips x = newTips" "\<not> ldeleted x" "leaf_ok x"
    using nt by (simp_all add: x allocLeafNode_def leaf_ok_def maxLeafFreq_def)
  have "lkey x \<notin> lkey ` leafset c" using key lx(1) by simp
  note li = linked [OF ok this lx(2,5,4), of ?c]
  show "index_ok c'" "liveLeaf k c' = (if k = key then Some x else liveLeaf k c)"
    unfolding c' fire_keeps using li(1,2) t' lx(1) by (simp_all add: leafset_root tree_ok_def)
  have "held ?c = held c + mset (Tips newTips)" using li(3) t' lx(3) by (simp add: leafset_root tree_ok_def)
  moreover have "taken ?c = taken c" "released ?c = released c" by (simp_all add: taken_def released_def)
  ultimately show "refs_ok c'" if "cb_refDelta c" "refs_ok c" "old = None"
    using that by (simp add: c' refs_ok_def fire_counts add_ac)
qed

lemma insert_existing_ok:
  assumes ok: "index_ok c" and x: "x \<in> leafset c" "lkey x = key" and nt: "distinct (Tips newTips)"
    and r: "insert_existing x old newTips c = (r, c')"
  shows "r = (if accepts key old c then (None, True) else (Contains key c, False))" "index_ok c'"
    "accepts key old c \<Longrightarrow> (\<exists>y. liveLeaf key c' = Some y \<and> ltips y = newTips \<and> ldata y = ldata x \<and> lpins y = lpins x \<and> lpinned y = lpinned x)"
    "\<not> accepts key old c \<Longrightarrow> c' = c" "k \<noteq> key \<Longrightarrow> liveLeaf k c' = liveLeaf k c" "cb_refDelta c \<Longrightarrow> refs_ok c \<Longrightarrow> refs_ok c'"
proof -
  have tree: "tree_ok c" and xok: "leaf_ok x" using ok x by (auto simp: index_ok_def)
  have live: "liveLeaf key c = (if ldeleted x then None else Some x)"
    using liveLeaf_leaf [OF tree x(1)] x(2) by simp
  have acc: "accepts key old c \<longleftrightarrow> (if ldeleted x then old = None else ltips x = old)"
    using x by (cases "ldeleted x") (simp_all add: accepts_def live, blast)
  show res: "r = (if accepts key old c then (None, True) else (Contains key c, False))"
    using r xok by (auto simp: insert_existing_def Let_def acc Contains_def live leaf_ok_def split: if_splits)
  show same: "c' = c" if "\<not> accepts key old c"
    using that r xok by (auto simp: insert_existing_def Let_def acc leaf_ok_def split: if_splits)
  let ?g = "\<lambda>l. l\<lparr>ltips := newTips, ldeleted := False\<rparr>"
  let ?f = "\<lambda>l. if ghost x then (?g l)\<lparr>lfreq := min (- lfreq x + 1) maxLeafFreq, lepoch := cb_decayEpochN c\<rparr> else ?g l"
  let ?d = "if ldeleted x then (if lfreq x < 0 then promoteIfGhost x ((set_leaf x ?g c)\<lparr>cb_size := cb_size c + 1\<rparr>)
      else (set_leaf x ?g c)\<lparr>cb_size := cb_size c + 1, cb_deletedCount := cb_deletedCount c - 1\<rparr>) else set_leaf x ?g c"
  have c': "c' = fireTipDelta (ltips x) newTips None ?d" if "accepts key old c"
    using that r xok by (auto simp: insert_existing_def Let_def acc leaf_ok_def split: if_splits)
  have sel: "cb_root ?d = map_option (update_leaf (lkey x) ?f) (cb_root c)" "cb_closed ?d = cb_closed c" "cb_next ?d = cb_next c"
    "cb_refDelta ?d = cb_refDelta c" "cb_deltas ?d = cb_deltas c"
    by (simp_all add: promoteIfGhost_def Let_def ghost_def)
  have key: "lkey (?f y) = lkey y" "lid (?f y) = lid y" "ltips (?f y) = newTips" "\<not> ldeleted (?f y)" "ldata (?f y) = ldata y"
    "lpins (?f y) = lpins y" "lpinned (?f y) = lpinned y" for y by simp_all
  have lo: "leaf_ok (?f x)" using xok nt by (auto simp: leaf_ok_def ghost_def maxLeafFreq_def)
  have cnt: "cb_size ?d = cb_size c - of_bool (\<not> ldeleted x) + of_bool (\<not> ldeleted (?f x))"
    "cb_deletedCount ?d = cb_deletedCount c - of_bool (dead x) + of_bool (dead (?f x))"
    "cb_ghostCount ?d = cb_ghostCount c - of_bool (ghost x) + of_bool (ghost (?f x))"
    using xok by (simp_all add: promoteIfGhost_def Let_def ghost_def dead_def leaf_ok_def)
  note re = replaced [OF ok x(1), of ?f ?d, OF key(1,2) lo sel(1-3) cnt]
  show "index_ok c'" using re(1) c' same ok by (cases "accepts key old c") simp_all
  show "\<exists>y. liveLeaf key c' = Some y \<and> ltips y = newTips \<and> ldata y = ldata x \<and> lpins y = lpins x \<and> lpinned y = lpinned x" if "accepts key old c"
    using re(2) [of key] x(2) key(4) [of x] key(3) by (intro exI [of _ "?f x"]) (simp add: c' [OF that])
  show "liveLeaf k c' = liveLeaf k c" if "k \<noteq> key" using re(2) [of k] that x(2) c' same by (cases "accepts key old c") simp_all
  show "refs_ok c'" if h: "cb_refDelta c" "refs_ok c"
  proof (cases "accepts key old c")
    case True
    have xd: "distinct (Tips (ltips x))" using xok by (simp add: leaf_ok_def)
    have hd: "held ?d + mset (Tips (ltips x)) = held c + mset (Tips newTips)" using re(3) key(3) [of x] by simp
    have td: "taken ?d = held c + released c" "released ?d = released c" using h(2) sel(5) by (simp_all add: taken_def released_def refs_ok_def)
    have rd: "cb_refDelta ?d" using h(1) sel(4) by simp
    have "taken c' + mset (Tips (ltips x)) = held c' + released c' + mset (Tips (ltips x))"
      unfolding c' [OF True] fire_counts [OF rd] fire_keeps td
      using hd tip_delta_balance [OF xd nt] by (simp add: add_ac del: tipDifference_filter)
    then show ?thesis by (simp add: refs_ok_def)
  qed (use same h in simp)
qed

lemma view_upd:
  assumes "\<And>k. k \<noteq> key \<Longrightarrow> liveLeaf k c' = liveLeaf k c" "liveLeaf key c' = Some y"
  shows "view c' = (view c)(key \<mapsto> (ltips y, ldata y))"
  using assms by (intro ext) (simp add: view_def)

lemma insert_existing_inserted:
  assumes ok: "index_ok c" and x: "x \<in> leafset c" "lkey x = key" and nt: "distinct (Tips newTips)"
  shows "\<exists>c'. insert_existing x old newTips c = ((if accepts key old c then (None, True) else (Contains key c, False)), c') \<and>
    inserted key old newTips c c'"
proof -
  obtain r c' where r: "insert_existing x old newTips c = (r, c')" by fastforce
  note e = insert_existing_ok [OF ok x nt r]
  have tree: "tree_ok c" and xok: "leaf_ok x" using ok x by (auto simp: index_ok_def)
  have data: "Option.bind (view c key) snd = ldata x"
    using liveLeaf_leaf [OF tree x(1)] x(2) xok by (simp add: view_def leaf_ok_def split: if_splits)
  have sel: "cb_closed c' = cb_closed c" "cb_refDelta c' = cb_refDelta c"
    using r by (auto simp: insert_existing_def Let_def promoteIfGhost_def split: if_splits)
  have "view c' = (view c)(key \<mapsto> (newTips, Option.bind (view c key) snd))" if a: "accepts key old c"
  proof -
    obtain y where y: "liveLeaf key c' = Some y" "ltips y = newTips" "ldata y = ldata x" using e(3) [OF a] by blast
    show ?thesis using view_upd [OF e(5) y(1)] y(2,3) data by simp
  qed
  moreover have "\<exists>z. liveLeaf key c' = Some z \<and> lpins z = lpins y \<and> lpinned z = lpinned y"
    if "accepts key old c" "y \<in> leafset c" "lkey y = key" for y
    using e(3) [OF that(1)] leafset_key_inj [OF tree x(1) that(2)] x(2) that(3) by auto
  ultimately show ?thesis using r e(1,2,4,6) sel x by (auto simp: inserted_def)
qed

lemma insert_fresh_inserted:
  assumes ok: "index_ok c" and key: "key \<notin> lkey ` leafset c" and nt: "distinct (Tips newTips)" and op: "\<not> cb_closed c"
    and link: "\<And>x. x = (fst (allocLeafNode key newTips now c))\<lparr>ldeleted := False\<rparr> \<Longrightarrow>
      \<exists>t'. link x = Some t' \<and> trie_ok lkey t' \<and> set (leaves t') = insert x (leafset c)"
  shows "\<exists>c'. publish_leaf link key old newTips now c = Some ((None, True), c') \<and> accepts key old c \<and> inserted key old newTips c c'"
proof -
  define x where "x = (fst (allocLeafNode key newTips now c))\<lparr>ldeleted := False\<rparr>"
  obtain t' where t': "link x = Some t'" "trie_ok lkey t'" "set (leaves t') = insert x (leafset c)" using link [OF x_def] by blast
  define c' where "c' = fireTipDelta old newTips None (c\<lparr>cb_next := cb_next c + 1, cb_root := Some t', cb_size := cb_size c + 1\<rparr>)"
  note n = insert_new [OF ok key nt c'_def x_def t'(2,3) op]
  have tree: "tree_ok c" using ok by (simp add: index_ok_def)
  have "liveLeaf key c = None" using key liveLeaf_iff [OF tree, of key] by (cases "liveLeaf key c") (simp, force)
  then have acc: "accepts key old c" and v: "view c key = None" using key by (simp_all add: accepts_def view_def)
  have "publish_leaf link key old newTips now c = Some ((None, True), c')"
    using t'(1) by (simp add: publish_leaf_def x_def allocLeafNode_def c'_def)
  moreover have "view c' = (view c)(key \<mapsto> (newTips, None))"
    using view_upd [of key c' c x] n(2) by (simp add: x_def allocLeafNode_def)
  moreover have "cb_deltas c' = cb_deltas (fireTipDelta old newTips None c)" "cb_closed c' = cb_closed c" "cb_refDelta c' = cb_refDelta c"
    by (simp_all add: c'_def fireTipDelta_def Let_def)
  ultimately show ?thesis using acc n(1,3) key v by (auto simp: inserted_def)
qed

lemma Insert_spec:
  assumes ok: "index_ok c" and op: "\<not> cb_closed c" and sh: "short_key key" and nt: "distinct (Tips newTips)"
  shows "\<exists>c'. Insert key old newTips now c = Some ((if accepts key old c then (None, True) else (Contains key c, False)), c') \<and>
    inserted key old newTips c c'"
proof -
  have "\<exists>c'. insert_once key old newTips now c = Some ((if accepts key old c then (None, True) else (Contains key c, False)), c') \<and>
      inserted key old newTips c c'"
  proof (cases "cb_root c")
    case None
    then have "leafset c = {}" by (simp add: leafset_root)
    then have "\<exists>c'. publish_leaf (\<lambda>leaf. Some (Leaf leaf)) key old newTips now c = Some ((None, True), c') \<and> accepts key old c \<and>
        inserted key old newTips c c'"
      using sh by (intro insert_fresh_inserted [OF ok _ nt op]) (auto simp: allocLeafNode_def)
    then show ?thesis using None op by (auto simp: insert_once_def)
  next
    case (Some t)
    have tree: "tree_ok c" and t: "trie_ok lkey t" using ok Some by (auto simp: index_ok_def tree_ok_def)
    let ?b = "findBestMatch t key"
    show ?thesis
    proof (cases "lkey ?b = key")
      case True
      have "?b \<in> leafset c" using best_in_leaves [of t key] Some by (simp add: leafset_root)
      from insert_existing_inserted [OF ok this True nt, of old]
      show ?thesis using Some op True by (auto simp: insert_once_def Let_def)
    next
      case False
      then have nk: "key \<notin> lkey ` leafset c" using best_match_iff [OF tree Some, of key] by auto
      let ?link = "\<lambda>leaf. link_insert lkey key leaf (findCritBit key (lkey ?b)) t"
      have "\<exists>t'. ?link x = Some t' \<and> trie_ok lkey t' \<and> set (leaves t') = insert x (leafset c)"
        if x: "x = (fst (allocLeafNode key newTips now c))\<lparr>ldeleted := False\<rparr>" for x
      proof -
        have k: "lkey x = key" using x by (simp add: allocLeafNode_def)
        show ?thesis using link_insert_ok [OF t, of x ?b "findCritBit key (lkey ?b)"] sh False Some
          unfolding k by (fastforce simp: leafset_root)
      qed
      from insert_fresh_inserted [OF ok nk nt op this]
      show ?thesis using Some op False by (auto simp: insert_once_def Let_def)
    qed
  qed
  then show ?thesis by (subst Insert.simps) auto
qed

section \<open>Writes to a live leaf\<close>

lemma written:
  assumes ok: "index_ok c" and x: "liveLeaf key c = Some x" and f: "\<And>y. lkey (f y) = lkey y" "lid (f x) = lid x" "leaf_ok (f x)" "\<not> ldeleted (f x)"
    and root: "cb_root c' = map_option (update_leaf (lkey x) f) (cb_root c)" "cb_closed c' = cb_closed c" "cb_next c' = cb_next c"
      "cb_size c' = cb_size c" "cb_deletedCount c' = cb_deletedCount c" "cb_ghostCount c' = cb_ghostCount c"
  shows "index_ok c'" and "liveLeaf k c' = (if k = key then Some (f x) else liveLeaf k c)"
    and "held c' + mset (Tips (ltips x)) = held c + mset (Tips (ltips (f x)))" and "view c' = (view c)(key \<mapsto> (ltips (f x), ldata (f x)))"
proof -
  have tree: "tree_ok c" using ok by (simp add: index_ok_def)
  have m: "x \<in> leafset c" "lkey x = key" "\<not> ldeleted x" using x unfolding liveLeaf_iff [OF tree] by simp_all
  have cnt: "cb_size c' = cb_size c - of_bool (\<not> ldeleted x) + of_bool (\<not> ldeleted (f x))"
    "cb_deletedCount c' = cb_deletedCount c - of_bool (dead x) + of_bool (dead (f x))"
    "cb_ghostCount c' = cb_ghostCount c - of_bool (ghost x) + of_bool (ghost (f x))"
    using root m(3) f(4) by (simp_all add: dead_def ghost_def)
  note re = replaced [OF ok m(1) f(1,2,3) root(1-3) cnt]
  show "index_ok c'" "held c' + mset (Tips (ltips x)) = held c + mset (Tips (ltips (f x)))" by (rule re)+
  show lv: "liveLeaf k c' = (if k = key then Some (f x) else liveLeaf k c)" for k using re(2) [of k] m(2) f(4) by simp
  show "view c' = (view c)(key \<mapsto> (ltips (f x), ldata (f x)))" by (rule view_upd) (simp_all add: lv)
qed

lemma live_ok: "index_ok c \<Longrightarrow> liveLeaf key c = Some x \<Longrightarrow> leaf_ok x \<and> \<not> ldeleted x \<and> x \<in> leafset c \<and> lkey x = key"
  using liveLeaf_iff [of c key x] by (simp add: index_ok_def)

end
