(* ===== verification/Crit_Evict_Step.thy ===== *)
theory Crit_Evict_Step
  imports Crit_Evict Crit_Index_Ops
begin

text \<open>
  What one eviction does: the leaf goes as a ghost or as a deleted leaf, its contents are handed out, and the rest of the
  index, its counters and the references it holds stay exact.
\<close>

section \<open>Definitions\<close>

text \<open>What clients and holders can see of a key.\<close>

definition hold :: "('d, 'q) critbit \<Rightarrow> bytes \<rightharpoonup> tips_ptr \<times> 'd option \<times> 32 word \<times> bool" where
  "hold c k = map_option (\<lambda>l. (ltips l, ldata l, lpins l, lpinned l)) (liveLeaf k c)"

definition pinned_ids :: "('d, 'q) critbit \<Rightarrow> nat set" where
  "pinned_ids c = lid ` {l \<in> leafset c. lpinned l}"

definition evicts :: "('d, 'q) critbit \<Rightarrow> 'd evicted_leaf list \<Rightarrow> ('d, 'q) critbit \<Rightarrow> bool" where
  "evicts c vs c' \<longleftrightarrow> index_ok c' \<and> distinct (map ev_key vs) \<and>
     (\<forall>v \<in> set vs. hold c (ev_key v) = Some (ev_tips v, ev_data v, 0, False)) \<and>
     hold c' = hold c |` (- ev_key ` set vs) \<and> held c = held c' + (\<Sum>v \<leftarrow> vs. mset (Tips (ev_tips v))) \<and>
     pinned_ids c' = pinned_ids c \<and>
     cb_deltas c' = cb_deltas c \<and> cb_refDelta c' = cb_refDelta c \<and> cb_closed c' = cb_closed c"

text \<open>A silent step that touches ghosts only.\<close>

definition steady :: "('d, 'q) critbit \<Rightarrow> ('d, 'q) critbit \<Rightarrow> bool" where
  "steady c c' \<longleftrightarrow> quiet c c' \<and> (index_ok c \<longrightarrow> pinned_ids c' = pinned_ids c \<and> (\<forall>l \<in> leafset c. \<not> ghost l \<longrightarrow> l \<in> leafset c'))"

definition unpinned :: "candidate list \<Rightarrow> ('d, 'q) critbit \<Rightarrow> bool" where
  "unpinned cs c \<longleftrightarrow> cand_leaf ` set cs \<inter> pinned_ids c = {}"

definition bump_deleted :: "('d, 'q) critbit \<Rightarrow> ('d, 'q) critbit" where
  "bump_deleted c = c\<lparr>cb_deletedCount := cb_deletedCount c + 1\<rparr>"

section \<open>Leaves by address\<close>

lemma leaf_at_iff:
  assumes "index_ok c"
  shows "leaf_at n c = Some l \<longleftrightarrow> l \<in> leafset c \<and> lid l = n"
proof
  assume "leaf_at n c = Some l"
  then show "l \<in> leafset c \<and> lid l = n" by (auto simp: leaf_at_def leafset_def find_Some_iff)
next
  assume l: "l \<in> leafset c \<and> lid l = n"
  then have "leaf_at n c \<noteq> None" by (auto simp: leaf_at_def leafset_def find_None_iff)
  then obtain m where m: "leaf_at n c = Some m" by blast
  then have "m \<in> leafset c \<and> lid m = n" by (auto simp: leaf_at_def leafset_def find_Some_iff)
  then have "m = l" using l assms by (auto simp: index_ok_def dest: inj_onD)
  then show "leaf_at n c = Some l" using m by simp
qed

lemma pinned_replace:
  assumes "x \<in> S" "lid y = lid x" "lpinned y = lpinned x"
  shows "lid ` {l \<in> insert y (S - {x}). lpinned l} = lid ` {l \<in> S. lpinned l}"
proof (rule set_eqI)
  fix n
  have "n \<in> lid ` {l \<in> insert y (S - {x}). lpinned l} \<longleftrightarrow> lpinned x \<and> n = lid x \<or> (\<exists>l \<in> S - {x}. lpinned l \<and> n = lid l)"
    using assms(2,3) by (simp add: image_iff Bex_def) metis
  also have "\<dots> \<longleftrightarrow> n \<in> lid ` {l \<in> S. lpinned l}" using assms(1) by blast
  finally show "n \<in> lid ` {l \<in> insert y (S - {x}). lpinned l} \<longleftrightarrow> n \<in> lid ` {l \<in> S. lpinned l}" .
qed

lemma enqueue_core [simp]:
  "cb_root (enqueueReap Q l c) = cb_root c" "cb_closed (enqueueReap Q l c) = cb_closed c" "cb_next (enqueueReap Q l c) = cb_next c"
  "cb_size (enqueueReap Q l c) = cb_size c" "cb_deletedCount (enqueueReap Q l c) = cb_deletedCount c"
  "cb_ghostCount (enqueueReap Q l c) = cb_ghostCount c" "cb_deltas (enqueueReap Q l c) = cb_deltas c"
  "cb_refDelta (enqueueReap Q l c) = cb_refDelta c"
  by (simp_all add: enqueueReap_def Let_def split: prod.split)

lemma decay_core [simp]:
  "cb_root (advanceDecay c) = cb_root c" "cb_closed (advanceDecay c) = cb_closed c" "cb_next (advanceDecay c) = cb_next c"
  "cb_size (advanceDecay c) = cb_size c" "cb_deletedCount (advanceDecay c) = cb_deletedCount c"
  "cb_ghostCount (advanceDecay c) = cb_ghostCount c" "cb_deltas (advanceDecay c) = cb_deltas c"
  "cb_refDelta (advanceDecay c) = cb_refDelta c"
  by (simp_all add: advanceDecay_def Let_def)

section \<open>Composing evictions\<close>

lemma evicts_trans:
  assumes "evicts a vs b" "evicts b ws c"
  shows "evicts a (vs @ ws) c"
proof -
  have hb: "hold b = hold a |` (- ev_key ` set vs)" and hc: "hold c = hold b |` (- ev_key ` set ws)"
    using assms by (auto simp: evicts_def)
  have w: "hold a (ev_key w) = Some (ev_tips w, ev_data w, 0, False) \<and> ev_key w \<notin> ev_key ` set vs" if "w \<in> set ws" for w
  proof -
    have "hold b (ev_key w) = Some (ev_tips w, ev_data w, 0, False)" using assms(2) that by (simp add: evicts_def)
    then show ?thesis unfolding hb by (simp add: restrict_map_def split: if_splits)
  qed
  then have "ev_key ` set vs \<inter> ev_key ` set ws = {}" unfolding disjoint_iff image_iff by metis
  moreover have "hold c = hold a |` (- ev_key ` set (vs @ ws))" unfolding hc hb by (simp add: Int_ac image_Un)
  moreover have "held a = held c + (\<Sum>v \<leftarrow> vs @ ws. mset (Tips (ev_tips v)))" using assms by (simp add: evicts_def add_ac)
  ultimately show ?thesis using assms w unfolding evicts_def by auto
qed

lemma evicts_refl: "index_ok c \<Longrightarrow> evicts c [] c"
  by (simp add: evicts_def restrict_map_def)

lemma quiet_evicts:
  assumes "index_ok c" "quiet c c'" "pinned_ids c' = pinned_ids c"
  shows "evicts c [] c'"
  using assms by (simp add: evicts_def quiet_def hold_def restrict_map_def fun_eq_iff)

section \<open>Ghosts\<close>

lemma pinned_ids_replace:
  assumes "leafset c' = insert y (leafset c - {x})" "x \<in> leafset c" "lid y = lid x" "lpinned y = lpinned x"
  shows "pinned_ids c' = pinned_ids c"
  unfolding pinned_ids_def assms(1) by (rule pinned_replace [OF assms(2-4)])

lemma steady_refl [simp]: "steady c c"
  by (simp add: steady_def)

lemma steady_trans: "steady a b \<Longrightarrow> steady b c \<Longrightarrow> steady a c"
  using quiet_trans [of a b c] unfolding steady_def quiet_def by blast

lemma steady_evicts: "steady c c' \<Longrightarrow> index_ok c \<Longrightarrow> evicts c [] c'"
  by (simp add: steady_def quiet_evicts)

lemma reclaimGhost_steady: "steady c (snd (reclaimGhost Q n c))"
proof (cases "\<exists>g. leaf_at n c = Some g \<and> lfreq g < 0")
  case True
  then obtain g where g: "leaf_at n c = Some g" "lfreq g < 0" by blast
  let ?f = "\<lambda>l. l\<lparr>lfreq := 0\<rparr>" and ?c = "snd (reclaimGhost Q n c)"
  have sel: "cb_root ?c = map_option (update_leaf (lkey g) ?f) (cb_root c)" "cb_closed ?c = cb_closed c" "cb_next ?c = cb_next c"
      "cb_size ?c = cb_size c" "cb_ghostCount ?c = cb_ghostCount c - 1" "cb_deletedCount ?c = cb_deletedCount c + 1"
      "cb_deltas ?c = cb_deltas c" "cb_refDelta ?c = cb_refDelta c"
    using g by (simp_all add: reclaimGhost_def Let_def)
  have "index_ok ?c \<and> (\<forall>k. liveLeaf k ?c = liveLeaf k c) \<and> held ?c = held c \<and> pinned_ids ?c = pinned_ids c \<and>
      (\<forall>l \<in> leafset c. \<not> ghost l \<longrightarrow> l \<in> leafset ?c)" if ok: "index_ok c"
  proof -
    have gin: "g \<in> leafset c" using g(1) leaf_at_iff [OF ok] by blast
    have gok: "leaf_ok g" using ok gin by (simp add: index_ok_def)
    then have d: "ldeleted g" using g(2) by (auto simp: leaf_ok_def split: if_splits)
    have "leaf_ok (?f g)" using gok d by (simp add: leaf_ok_def maxLeafFreq_def)
    note re = replaced [OF ok gin _ _ this sel(1-3)]
    have r: "index_ok ?c" "\<And>k. liveLeaf k ?c = (if k = lkey g then None else liveLeaf k c)" "held ?c = held c"
      "leafset ?c = insert (?f g) (leafset c - {g})"
      using re sel(4-6) d g(2) by (simp_all add: dead_def ghost_def)
    have "liveLeaf (lkey g) c = None" using liveLeaf_leaf [OF _ gin] d ok by (simp add: index_ok_def)
    moreover have "pinned_ids ?c = pinned_ids c" by (rule pinned_ids_replace [OF r(4) gin]) simp_all
    moreover have "ghost g" using d g(2) by (simp add: ghost_def)
    ultimately show ?thesis using r by (simp, blast)
  qed
  then show ?thesis using sel by (simp add: quiet_def steady_def)
next
  case False
  then have "snd (reclaimGhost Q n c) = c" by (cases "leaf_at n c") (auto simp: reclaimGhost_def)
  then show ?thesis by simp
qed

lemma reclaimGhost_bump: "reclaimGhost Q n (bump_deleted c) = map_prod id bump_deleted (reclaimGhost Q n c)"
  by (simp add: reclaimGhost_def bump_deleted_def set_leaf_def leaf_at_def leaf_list_def enqueueReap_def Let_def split: option.split prod.split)

lemma reclaimOldest_steady: "steady (bump_deleted c) (bump_deleted (snd (snd (reclaimOldestGhost Q gs c))))"
proof (induction gs arbitrary: c)
  case (Cons g gs)
  obtain ok c' where r: "reclaimGhost Q (cand_leaf g) c = (ok, c')" by fastforce
  have "steady (bump_deleted c) (bump_deleted c')" using reclaimGhost_steady [of "bump_deleted c" Q "cand_leaf g"] reclaimGhost_bump [of Q _ c] r by simp
  then show ?case using r steady_trans [OF _ Cons.IH [of c']] by (cases ok) simp_all
qed simp

lemma reclaimOldest_steady': "steady c (snd (snd (reclaimOldestGhost Q gs c)))"
proof (induction gs arbitrary: c)
  case (Cons g gs)
  obtain ok c' where r: "reclaimGhost Q (cand_leaf g) c = (ok, c')" by fastforce
  have "steady c c'" using reclaimGhost_steady [of c Q "cand_leaf g"] r by simp
  then show ?case using r steady_trans [OF _ Cons.IH [of c']] by (cases ok) simp_all
qed simp

section \<open>One eviction\<close>

lemma claim_detach:
  assumes ok: "index_ok c" and cl: "claimForEviction n c = Some (x, c1)" and dt: "detachEvictedLeaf x c1 = (v, c2)" and up: "n \<notin> pinned_ids c"
  shows "evicts c [v] (bump_deleted c2)" "\<exists>y \<in> leafset c2. lkey y = lkey x \<and> dead y" "lid x = n"
proof -
  let ?f = "\<lambda>l. l\<lparr>ldeleted := True, ltips := None, ldata := None\<rparr>"
  have x: "leaf_at n c = Some x" "\<not> ldeleted x" "lpins x = 0" and c1: "c1 = set_leaf x (\<lambda>l. l\<lparr>ldeleted := True\<rparr>) c"
    using cl by (auto simp: claimForEviction_def split: option.splits if_splits)
  have xin: "x \<in> leafset c" "lid x = n" using x(1) leaf_at_iff [OF ok] by blast+
  show "lid x = n" by (rule xin(2))
  have v: "v = \<lparr>ev_key = lkey x, ev_tips = ltips x, ev_data = ldata x\<rparr>"
    and sel: "cb_root (bump_deleted c2) = map_option (update_leaf (lkey x) ?f) (cb_root c)" "cb_closed (bump_deleted c2) = cb_closed c"
      "cb_next (bump_deleted c2) = cb_next c" "cb_size (bump_deleted c2) = cb_size c - 1" "cb_ghostCount (bump_deleted c2) = cb_ghostCount c"
      "cb_deletedCount (bump_deleted c2) = cb_deletedCount c + 1" "cb_deltas (bump_deleted c2) = cb_deltas c" "cb_refDelta (bump_deleted c2) = cb_refDelta c"
    using dt by (auto simp: detachEvictedLeaf_def clearLeaf_def Let_def c1 bump_deleted_def)
  have xok: "leaf_ok x" using ok xin by (simp add: index_ok_def)
  then have fr: "lfreq x \<ge> 0" and fok: "leaf_ok (?f x)" using x(2) by (auto simp: leaf_ok_def)
  note re = replaced [OF ok xin(1) _ _ fok sel(1-3)]
  have r: "index_ok (bump_deleted c2)" "\<And>k. liveLeaf k (bump_deleted c2) = (if k = lkey x then None else liveLeaf k c)"
    "held (bump_deleted c2) + mset (Tips (ltips x)) = held c" "leafset (bump_deleted c2) = insert (?f x) (leafset c - {x})"
    using re sel(4-6) x(2) fr by (simp_all add: dead_def ghost_def)
  have lv: "liveLeaf (lkey x) c = Some x" using liveLeaf_leaf [OF _ xin(1)] x(2) ok by (simp add: index_ok_def)
  have np: "\<not> lpinned x" using up xin by (auto simp: pinned_ids_def)
  have "hold (bump_deleted c2) = hold c |` (- {lkey x})" using r(2) by (intro ext) (simp add: hold_def restrict_map_def)
  moreover have "pinned_ids (bump_deleted c2) = pinned_ids c" by (rule pinned_ids_replace [OF r(4) xin(1)]) simp_all
  ultimately show "evicts c [v] (bump_deleted c2)" using r(1,3) sel(2,7,8) lv np x(3) by (simp add: evicts_def v hold_def)
  have "leafset c2 = insert (?f x) (leafset c - {x})" using r(4) by (simp add: bump_deleted_def leafset_root)
  then show "\<exists>y \<in> leafset c2. lkey y = lkey x \<and> dead y" using fr by (intro bexI [of _ "?f x"]) (simp_all add: dead_def)
qed

lemma become_ghost:
  assumes ok: "index_ok (bump_deleted d)" and y: "y \<in> leafset d" "lkey y = lkey x" "dead y"
    and c': "c' = (set_leaf x (\<lambda>l. l\<lparr>lfreq := - max (lfreq l) 1\<rparr>) d)\<lparr>cb_ghostCount := cb_ghostCount d + 1\<rparr>"
  shows "evicts (bump_deleted d) [] c'"
proof -
  let ?b = "bump_deleted d" and ?f = "\<lambda>l. l\<lparr>lfreq := - max (lfreq l) 1\<rparr>"
  have yin: "y \<in> leafset ?b" using y(1) by (simp add: bump_deleted_def leafset_root)
  have sel: "cb_root c' = map_option (update_leaf (lkey y) ?f) (cb_root ?b)" "cb_closed c' = cb_closed ?b" "cb_next c' = cb_next ?b"
      "cb_size c' = cb_size ?b" "cb_ghostCount c' = cb_ghostCount ?b + 1" "cb_deletedCount c' = cb_deletedCount ?b - 1"
      "cb_deltas c' = cb_deltas ?b" "cb_refDelta c' = cb_refDelta ?b"
    by (simp_all add: c' bump_deleted_def y(2))
  have d: "ldeleted y" "lfreq y \<ge> 0" using y(3) by (simp_all add: dead_def)
  have "leaf_ok y" using ok yin by (simp add: index_ok_def)
  then have fok: "leaf_ok (?f y)" using d by (simp add: leaf_ok_def maxLeafFreq_def)
  note re = replaced [OF ok yin _ _ fok sel(1-3)]
  have r: "index_ok c'" "\<And>k. liveLeaf k c' = (if k = lkey y then None else liveLeaf k ?b)" "held c' = held ?b"
    "leafset c' = insert (?f y) (leafset ?b - {y})"
    using re sel(4-6) d by (simp_all add: dead_def ghost_def)
  have "liveLeaf (lkey y) ?b = None" using liveLeaf_leaf [OF _ yin] d ok by (simp add: index_ok_def)
  then have "hold c' = hold ?b" using r(2) by (intro ext) (simp add: hold_def)
  moreover have "pinned_ids c' = pinned_ids ?b" by (rule pinned_ids_replace [OF r(4) yin]) simp_all
  ultimately show ?thesis using r sel by (simp add: evicts_def restrict_map_def)
qed

lemma same_evicts:
  assumes ok: "index_ok c" and core: "cb_root c' = cb_root c" "cb_closed c' = cb_closed c" "cb_next c' = cb_next c" "cb_size c' = cb_size c"
    "cb_deletedCount c' = cb_deletedCount c" "cb_ghostCount c' = cb_ghostCount c" "cb_deltas c' = cb_deltas c" "cb_refDelta c' = cb_refDelta c"
  shows "evicts c [] c'"
proof (rule quiet_evicts [OF ok quiet_same [OF core]])
  show "pinned_ids c' = pinned_ids c" unfolding pinned_ids_def by (simp add: leafset_root core)
qed

lemma bump_pins: "index_ok (bump_deleted c) \<Longrightarrow> pinned_ids (bump_deleted c) = pinned_ids c"
  by (simp add: pinned_ids_def bump_deleted_def leafset_root)

lemma evict_cold_ok:
  "evict_cold Q cold ghosts victims c = (vs, gs, c') \<Longrightarrow> index_ok c \<Longrightarrow> unpinned cold c \<Longrightarrow>
   \<exists>ws. vs = victims @ ws \<and> evicts c ws c' \<and> length ws \<le> length cold"
proof (induction cold arbitrary: ghosts victims c)
  case Nil
  then show ?case using evicts_refl by auto
next
  case (Cons cd cold)
  have up: "cand_leaf cd \<notin> pinned_ids c" "unpinned cold c" using Cons.prems(3) by (auto simp: unpinned_def pinned_ids_def)
  show ?case
  proof (cases "claimForEviction (cand_leaf cd) c")
    case None
    then obtain ws where ws: "vs = victims @ ws" "evicts c ws c'" "length ws \<le> length cold"
      using Cons.IH [OF _ Cons.prems(2) up(2)] Cons.prems(1) by auto
    then show ?thesis by (intro exI [of _ ws]) simp
  next
    case (Some xc)
    then obtain x c1 where cl: "claimForEviction (cand_leaf cd) c = Some (x, c1)" by (cases xc) auto
    obtain v c2 where dt: "detachEvictedLeaf x c1 = (v, c2)" by fastforce
    note cd = claim_detach [OF Cons.prems(2) cl dt up(1)]
    define rc where "rc = (if cb_ghostCount c2 \<ge> ghostCap c2 then snd (reclaimOldestGhost Q ghosts c2) else (ghosts, c2))"
    obtain gs2 d where d: "rc = (gs2, d)" by fastforce
    have st: "steady (bump_deleted c2) (bump_deleted d)"
      using reclaimOldest_steady [of c2 Q ghosts] d unfolding rc_def by (auto split: if_splits)
    have okb: "index_ok (bump_deleted c2)" using cd(1) by (simp add: evicts_def)
    then have okd: "index_ok (bump_deleted d)" using st by (simp add: steady_def quiet_def)
    have ls: "leafset (bump_deleted e) = leafset e" for e :: "('a, 'b) critbit" by (simp add: bump_deleted_def leafset_root)
    obtain y where y: "y \<in> leafset c2" "lkey y = lkey x" "dead y" using cd(2) by blast
    have yd: "y \<in> leafset d" using st okb y(1,3) unfolding steady_def ls by (auto simp: dead_def ghost_def)
    define e where "e = (if cb_ghostCount d < ghostCap d
        then (set_leaf x (\<lambda>l. l\<lparr>lfreq := - max (lfreq l) 1\<rparr>) d)\<lparr>cb_ghostCount := cb_ghostCount d + 1\<rparr>
        else enqueueReap Q x (bump_deleted d))"
    have ev1: "evicts (bump_deleted d) [] e"
    proof (cases "cb_ghostCount d < ghostCap d")
      case True
      then show ?thesis using become_ghost [OF okd yd y(2,3), of e] by (simp add: e_def)
    next
      case False
      then show ?thesis by (intro same_evicts [OF okd]) (simp_all add: e_def)
    qed
    then have "index_ok e" by (simp add: evicts_def)
    then have ev2: "evicts e [] (advanceDecay e)" by (rule same_evicts) simp_all
    have ev: "evicts c [v] (advanceDecay e)"
      using evicts_trans [OF evicts_trans [OF evicts_trans [OF cd(1) steady_evicts [OF st okb]] ev1] ev2] by simp
    have upe: "unpinned cold (advanceDecay e)" using ev up(2) by (simp add: evicts_def unpinned_def pinned_ids_def)
    have "evict_cold Q (cd # cold) ghosts victims c = evict_cold Q cold gs2 (victims @ [v]) (advanceDecay e)"
      using cl dt d by (simp add: rc_def [symmetric] e_def bump_deleted_def Let_def)
    then obtain ws where ws: "vs = (victims @ [v]) @ ws" "evicts (advanceDecay e) ws c'" "length ws \<le> length cold"
      using Cons.IH [of gs2 "victims @ [v]", OF _ _ upe] Cons.prems(1) ev by (auto simp: evicts_def [of c])
    then show ?thesis using evicts_trans [OF ev ws(2)] by (intro exI [of _ "v # ws"]) simp
  qed
qed

lemma evict_fallback_ok:
  assumes r: "evict_fallback Q ghosts oldest c = (b, vs, c')" and ok: "index_ok c"
    and up: "\<And>n. oldest = Some n \<Longrightarrow> n \<notin> pinned_ids c"
  shows "evicts c vs c'" "length vs \<le> 1" "b \<Longrightarrow> vs = []"
proof -
  obtain g gs d where d: "reclaimOldestGhost Q ghosts c = (g, gs, d)" by (metis surj_pair)
  have st: "steady c d" using reclaimOldest_steady' [of c Q ghosts] d by simp
  note ed = steady_evicts [OF st ok]
  have okd: "index_ok d" and pd: "pinned_ids d = pinned_ids c" using ed by (simp_all add: evicts_def)
  have "evicts c vs c' \<and> length vs \<le> 1 \<and> (b \<longrightarrow> vs = [])"
  proof (cases g)
    case True
    then have e: "b" "vs = []" "c' = advanceDecay (d\<lparr>cb_evictedUnprot := cb_evictedUnprot d + 1\<rparr>)" using r d by (auto simp: evict_fallback_def)
    have "evicts d [] c'" by (rule same_evicts [OF okd]) (simp_all add: e(3))
    then show ?thesis using evicts_trans [OF ed] e(2) by simp
  next
    case g: False
    show ?thesis
    proof (cases "Option.bind oldest (\<lambda>n. claimForEviction n d)")
      case None
      then show ?thesis using r d g ed by (auto simp: evict_fallback_def)
    next
      case (Some xc)
      then obtain n x c1 where n: "oldest = Some n" and cl: "claimForEviction n d = Some (x, c1)" by (cases xc) (auto simp: bind_eq_Some_conv)
      obtain v c2 where dt: "detachEvictedLeaf x c1 = (v, c2)" by fastforce
      have np: "n \<notin> pinned_ids d" using up [OF n] pd by simp
      note cd = claim_detach [OF okd cl dt np]
      let ?e = "enqueueReap Q x (bump_deleted c2)"
      have e: "\<not> b" "vs = [v]" "c' = advanceDecay (?e\<lparr>cb_evictedProt := cb_evictedProt ?e + 1\<rparr>)"
        using r d g n cl dt by (auto simp: evict_fallback_def Let_def bump_deleted_def)
      have "index_ok (bump_deleted c2)" using cd(1) by (simp add: evicts_def)
      then have "evicts (bump_deleted c2) [] c'" by (rule same_evicts) (simp_all add: e(3))
      then show ?thesis using evicts_trans [OF evicts_trans [OF ed cd(1)]] e(1,2) by fastforce
    qed
  qed
  then show "evicts c vs c'" "length vs \<le> 1" "b \<Longrightarrow> vs = []" by auto
qed

end
