(* ===== verification/Crit_Evict_Safe.thy ===== *)
theory Crit_Evict_Safe
  imports Crit_Evict_Step
begin

text \<open>
  What a batch of evictions does: the sample fits its buffer and holds no pinned leaf, only leaves without holds go, the
  rest of the index keeps its contents, reference counts stay exact, and the adaptive parameters stay in their
  ranges.
\<close>

section \<open>Definitions\<close>

definition sample_ok :: "('d, 'q) critbit \<Rightarrow> evict_sample \<times> ('d, 'q) critbit \<Rightarrow> bool" where
  "sample_ok c0 st \<longleftrightarrow> evicts c0 [] (snd st) \<and> unpinned (s_cold (fst st)) (snd st) \<and>
     (\<forall>n. s_oldest (fst st) = Some n \<longrightarrow> n \<notin> pinned_ids (snd st))"

definition policy_ok :: "('d, 'q) critbit \<Rightarrow> bool" where
  "policy_ok c \<longleftrightarrow> 0 \<le> cb_evictK c \<and> cb_evictK c < maxLeafFreq \<and> 500 \<le> cb_rateLow c \<and> cb_rateLow c \<le> 4000 \<and>
     3000 \<le> cb_rateHigh c \<and> cb_rateHigh c \<le> 8000"

definition same_params :: "('d, 'q) critbit \<Rightarrow> ('d, 'q) critbit \<Rightarrow> bool" where
  "same_params c c' \<longleftrightarrow> cb_evictK c' = cb_evictK c \<and> cb_rateLow c' = cb_rateLow c \<and> cb_rateHigh c' = cb_rateHigh c"

section \<open>The sample\<close>

lemma decayLeaf_sel [simp]:
  "lkey (decayLeaf e l) = lkey l" "lid (decayLeaf e l) = lid l" "ltips (decayLeaf e l) = ltips l" "ldata (decayLeaf e l) = ldata l"
  "lpins (decayLeaf e l) = lpins l" "lpinned (decayLeaf e l) = lpinned l" "ldeleted (decayLeaf e l) = ldeleted l"
  by (simp_all add: decayLeaf_def Let_def)

lemma decayLeaf_freq: "lfreq l \<ge> 0 \<Longrightarrow> 0 \<le> lfreq (decayLeaf e l) \<and> lfreq (decayLeaf e l) \<le> lfreq l"
  by (auto simp: decayLeaf_def Let_def)

lemma decay_evicts:
  assumes ok: "index_ok c" and x: "x \<in> leafset c" "\<not> ldeleted x"
  shows "evicts c [] (set_leaf x (decayLeaf e) c)"
proof -
  let ?c = "set_leaf x (decayLeaf e) c"
  have xok: "leaf_ok x" using ok x by (simp add: index_ok_def)
  then have fr: "lfreq x \<ge> 0" using x(2) by (simp add: leaf_ok_def)
  have fok: "leaf_ok (decayLeaf e x)" using xok x(2) decayLeaf_freq [OF fr, of e] by (simp add: leaf_ok_def)
  have "index_ok ?c" "\<And>k. liveLeaf k ?c = (if k = lkey x then Some (decayLeaf e x) else liveLeaf k c)" "held ?c = held c"
    "leafset ?c = insert (decayLeaf e x) (leafset c - {x})"
    using replaced [OF ok x(1), of "decayLeaf e" ?c, OF _ _ fok] x(2) by (simp_all add: dead_def ghost_def)
  moreover have "liveLeaf (lkey x) c = Some x" using liveLeaf_leaf [OF _ x(1)] x(2) ok by (simp add: index_ok_def)
  ultimately show ?thesis using pinned_ids_replace [of ?c "decayLeaf e x" c x] x(1)
    by (simp add: evicts_def hold_def restrict_map_def fun_eq_iff)
qed

lemma consider_ok:
  assumes "sample_ok c0 st"
  shows "sample_ok c0 (sample_consider th ep n st)"
proof -
  obtain s c where st: "st = (s, c)" by fastforce
  have ev: "evicts c0 [] c" and ok: "index_ok c" and up: "unpinned (s_cold s) c"
    and od: "\<And>n. s_oldest s = Some n \<Longrightarrow> n \<notin> pinned_ids c"
    using assms by (auto simp: sample_ok_def st evicts_def)
  show ?thesis
  proof (cases "leaf_at n c")
    case (Some x)
    have x: "x \<in> leafset c" "lid x = n" using Some leaf_at_iff [OF ok] by blast+
    show ?thesis
    proof (cases "ldeleted x")
      case False
      define d where "d = set_leaf x (if ep > 0 then decayLeaf ep else id) c"
      have "map_option (update_leaf (lkey x) id) (cb_root c) = cb_root c" by (cases "cb_root c") simp_all
      then have "set_leaf x id c = c" by (simp add: set_leaf_def)
      then have "evicts c [] d" using decay_evicts [OF ok x(1) False] evicts_refl [OF ok] by (auto simp: d_def)
      then have pd: "pinned_ids d = pinned_ids c" and evd: "evicts c0 [] d"
        using evicts_trans [OF ev, of "[]" d] by (simp_all add: evicts_def [of c])
      have upd: "unpinned (s_cold s) d" using up pd by (simp add: unpinned_def)
      have np: "\<not> lpinned x \<Longrightarrow> n \<notin> pinned_ids d"
        unfolding pd using ok x by (auto simp: pinned_ids_def index_ok_def dest: inj_onD)
      show ?thesis using Some False evd upd np od pd
        by (auto simp: st sample_ok_def sample_consider_def Let_def d_def [symmetric] unpinned_def)
    qed (use Some ev up od in \<open>simp add: st sample_ok_def sample_consider_def\<close>)
  qed (use ev up od in \<open>simp add: st sample_ok_def sample_consider_def\<close>)
qed

section \<open>The sweep\<close>

text \<open>An invariant of the callback that counts its calls holds after a segment, with at most \<open>want\<close> calls.\<close>

lemma sweep_segment_inv:
  assumes fn: "\<And>b n st. P b st \<Longrightarrow> P (Suc b) (fn n st)"
  shows "P b st \<Longrightarrow> \<exists>b' \<le> b + (want - occupied). P b' (snd (sweep_segment chunks chunkSize fn origin want segGap j occupied st))"
proof (induction "segGap - j" arbitrary: j occupied st b rule: less_induct)
  case less
  let ?sweep = "sweep_segment chunks chunkSize fn origin want segGap"
  show ?case
  proof (cases "occupied < want \<and> j < segGap")
    case go: True
    let ?idx = "unat (origin + of_nat j) mod (length chunks * chunkSize)"
    have further: "\<exists>b' \<le> b + (want - o'). P b' (snd (?sweep j' o' st'))" if "j < j'" "P b st'" for j' o' st' b
      using less.hyps [of j' b st' o'] that go by auto
    show ?thesis
    proof (cases "chunks ! (?idx div chunkSize)")
      case None
      then have "?sweep j occupied st = ?sweep (j + (chunkSize - 1 - ?idx mod chunkSize) + 1) occupied st"
        using go by (subst sweep_segment.simps) (simp add: Let_def)
      then show ?thesis using further [OF _ less.prems, of "j + (chunkSize - 1 - ?idx mod chunkSize) + 1" occupied] by simp
    next
      case (Some nodes)
      let ?n = "nodes ! (?idx mod chunkSize)"
      show ?thesis
      proof (cases "case leaf_at ?n (snd st) of None \<Rightarrow> True | Some l \<Rightarrow> dead l")
        case True
        then have "?sweep j occupied st = ?sweep (j + 1) occupied st"
          using go Some by (subst sweep_segment.simps) (simp add: Let_def)
        then show ?thesis using further [OF _ less.prems, of "j + 1" occupied] by simp
      next
        case False
        have "\<exists>b' \<le> Suc b + (want - Suc occupied). P b' (snd (?sweep (Suc j) (Suc occupied) (fn ?n st)))"
          using further [OF _ fn [OF less.prems]] by simp
        moreover have "Suc b + (want - Suc occupied) = b + (want - occupied)" using go by linarith
        moreover have "?sweep j occupied st = ?sweep (Suc j) (Suc occupied) (fn ?n st)"
          using go Some False by (subst sweep_segment.simps) (simp add: Let_def)
        ultimately show ?thesis by (simp only:)
      qed
    qed
  next
    case False
    then show ?thesis using less.prems by (subst sweep_segment.simps) (auto intro!: exI [of _ b])
  qed
qed

lemma sweep_segments_inv:
  assumes fn: "\<And>b n st. P b st \<Longrightarrow> P (Suc b) (fn n st)"
  shows "P b (snd r) \<Longrightarrow> \<exists>b' \<le> b + (\<Sum>s \<leftarrow> ss. if s = nSeg - 1 then base - base div nSeg * (nSeg - 1) else base div nSeg).
    P b' (snd (sweep_segments chunks chunkSize fn base nSeg segGap hand ss r))"
proof (induction ss arbitrary: b r)
  case (Cons s ss)
  let ?want = "if s = nSeg - 1 then base - base div nSeg * (nSeg - 1) else base div nSeg"
  obtain j st where js: "sweep_segment chunks chunkSize fn (hand + of_nat s * of_nat segGap) ?want segGap 0 0 (snd r) = (j, st)" by (meson surj_pair)
  obtain b1 where b1: "b1 \<le> b + ?want" "P b1 st" using sweep_segment_inv [of P fn b "snd r" ?want 0, OF fn Cons.prems] js by (metis diff_zero snd_conv)
  obtain b2 where "b2 \<le> b1 + (\<Sum>s \<leftarrow> ss. if s = nSeg - 1 then base - base div nSeg * (nSeg - 1) else base div nSeg)"
      "P b2 (snd (sweep_segments chunks chunkSize fn base nSeg segGap hand ss (if s = 0 then max j 1 else fst r, st)))"
    using Cons.IH [of b1 "(if s = 0 then max j 1 else fst r, st)"] b1(2) by auto
  then show ?case using b1(1) js by (intro exI [of _ b2]) (simp add: Let_def)
qed auto

lemma sweepLeaves_inv:
  assumes fn: "\<And>b n st. P b st \<Longrightarrow> P (Suc b) (fn n st)" and hand: "\<And>b s c h. P b (s, c) \<Longrightarrow> P b (s, c\<lparr>cb_evictHand := h\<rparr>)" and st: "P b st"
  shows "\<exists>b' \<le> b + max base 1. P b' (sweepLeaves chunks chunkSize base fn st)"
proof (cases "length chunks * chunkSize = 0")
  case True
  then show ?thesis using st by (intro exI [of _ b]) (simp add: sweepLeaves_def)
next
  case False
  define n where "n = (if int (max base 1) \<ge> cb_size (snd st) \<or> max base 1 < sweepSegments then 1 else sweepSegments)"
  have n: "n > 0" by (simp add: n_def sweepSegments_def)
  let ?B = "max base 1" and ?total = "length chunks * chunkSize"
  let ?w = "\<lambda>s. if s = n - 1 then ?B - ?B div n * (n - 1) else ?B div n"
  have "[0..<n] = [0..<n - 1] @ [n - 1]" using n by (metis Suc_pred' upt_Suc_append zero_le)
  then have "(\<Sum>s \<leftarrow> [0..<n]. ?w s) = (\<Sum>s \<leftarrow> [0..<n - 1]. ?w s) + ?w (n - 1)" by simp
  also have "(\<Sum>s \<leftarrow> [0..<n - 1]. ?w s) = (\<Sum>s \<leftarrow> [0..<n - 1]. ?B div n)" by (intro arg_cong [of _ _ sum_list] map_cong) auto
  also have "\<dots> = (n - 1) * (?B div n)" by (simp add: sum_list_triv)
  also have "(n - 1) * (?B div n) + ?w (n - 1) = ?B"
  proof -
    have "?B div n * (n - 1) \<le> ?B" by (meson diff_le_self div_times_less_eq_dividend dual_order.trans mult_le_mono2)
    then show ?thesis by (simp add: mult.commute)
  qed
  finally have tot: "(\<Sum>s \<leftarrow> [0..<n]. ?w s) = ?B" .
  define gap where "gap = (if ?total div n = 0 then ?total else ?total div n)"
  obtain a s c where r: "sweep_segments chunks chunkSize fn ?B n gap (cb_evictHand (snd st)) [0..<n] (0, st) = (a, s, c)" by (metis prod_cases3)
  have "\<exists>b' \<le> b + (\<Sum>s \<leftarrow> [0..<n]. ?w s). P b' (snd (sweep_segments chunks chunkSize fn ?B n gap (cb_evictHand (snd st)) [0..<n] (0, st)))"
    by (rule sweep_segments_inv) (use fn st in simp_all)
  then obtain b' where b': "b' \<le> b + ?B" "P b' (s, c)" unfolding tot r by auto
  have "sweepLeaves chunks chunkSize base fn st = (s, c\<lparr>cb_evictHand := cb_evictHand (snd st) + of_nat a\<rparr>)"
    using False unfolding sweepLeaves_def Let_def n_def [symmetric] gap_def [symmetric] r by simp
  then show ?thesis using b'(1) hand [OF b'(2)] by auto
qed

section \<open>The adaptive parameters\<close>

lemma adapt_rates_ok: "policy_ok c \<Longrightarrow> policy_ok (adapt_rates h c)"
  by (simp add: policy_ok_def adapt_rates_def Let_def)

lemma adapt_k_ok: "policy_ok c \<Longrightarrow> policy_ok (adapt_k g e c)"
  by (simp add: policy_ok_def adapt_k_def Let_def)

lemma policy_same: "same_params c c' \<Longrightarrow> policy_ok c' \<longleftrightarrow> policy_ok c"
  by (simp add: same_params_def policy_ok_def)

lemma same_params_trans: "same_params a b \<Longrightarrow> same_params b c \<Longrightarrow> same_params a c"
  by (simp add: same_params_def)

lemma maybeAdaptK_ok:
  assumes "policy_ok c"
  shows "policy_ok (maybeAdaptK c)"
proof -
  have upd: "policy_ok (d\<lparr>cb_lastAdaptCheck := t\<rparr>) = policy_ok d" "policy_ok (d\<lparr>cb_reachedProt := r\<rparr>) = policy_ok d"
    "policy_ok (d\<lparr>cb_prevHitRate := h, cb_windowOps := 0, cb_windowHits := 0\<rparr>) = policy_ok d"
    "policy_ok (d\<lparr>cb_evictedUnprot := u, cb_evictedProt := p\<rparr>) = policy_ok d" for d :: "('a, 'b) critbit" and t r h u p
    by (simp_all add: policy_ok_def)
  show ?thesis unfolding maybeAdaptK_def Let_def using assms by (simp add: upd adapt_k_ok adapt_rates_ok split: if_split)
qed

lemma maybeAdaptK_core [simp]:
  "cb_root (maybeAdaptK c) = cb_root c" "cb_closed (maybeAdaptK c) = cb_closed c" "cb_next (maybeAdaptK c) = cb_next c"
  "cb_size (maybeAdaptK c) = cb_size c" "cb_deletedCount (maybeAdaptK c) = cb_deletedCount c"
  "cb_ghostCount (maybeAdaptK c) = cb_ghostCount c" "cb_deltas (maybeAdaptK c) = cb_deltas c" "cb_refDelta (maybeAdaptK c) = cb_refDelta c"
  by (simp_all add: maybeAdaptK_def adapt_k_def adapt_rates_def Let_def)

lemma params_kept:
  "same_params c (set_leaf l f c)" "same_params c (enqueueReap Q l c)" "same_params c (advanceDecay c)" "same_params c (fireTipDelta a b d c)"
  by (simp_all add: same_params_def set_leaf_def enqueueReap_def advanceDecay_def fireTipDelta_def Let_def split: prod.split)

lemma reclaim_params: "same_params c (snd (reclaimGhost Q n c))"
  using params_kept(2) [of "(set_leaf l (\<lambda>l. l\<lparr>lfreq := 0\<rparr>) c)\<lparr>cb_ghostCount := cb_ghostCount c - 1, cb_deletedCount := cb_deletedCount c + 1\<rparr>" Q l for l]
  by (auto simp: reclaimGhost_def Let_def same_params_def set_leaf_def split: option.split)

lemma reclaimOldest_params: "same_params c (snd (snd (reclaimOldestGhost Q gs c)))"
proof (induction gs arbitrary: c)
  case (Cons g gs)
  obtain ok c' where r: "reclaimGhost Q (cand_leaf g) c = (ok, c')" by fastforce
  have "same_params c c'" using reclaim_params [of c Q "cand_leaf g"] r by simp
  then show ?case using r same_params_trans [OF _ Cons.IH [of c']] by (cases ok) simp_all
qed (simp add: same_params_def)

lemma detach_params: "claimForEviction n c = Some (x, c1) \<Longrightarrow> detachEvictedLeaf x c1 = (v, c2) \<Longrightarrow> same_params c c2"
  by (auto simp: claimForEviction_def detachEvictedLeaf_def clearLeaf_def Let_def set_leaf_def same_params_def split: option.splits if_splits)

lemma evict_cold_params: "evict_cold Q cold ghosts victims c = (vs, gs, c') \<Longrightarrow> same_params c c'"
proof (induction cold arbitrary: ghosts victims c)
  case (Cons cd cold)
  show ?case
  proof (cases "claimForEviction (cand_leaf cd) c")
    case (Some xc)
    then obtain x c1 where cl: "claimForEviction (cand_leaf cd) c = Some (x, c1)" by (cases xc) auto
    obtain v c2 where dt: "detachEvictedLeaf x c1 = (v, c2)" by fastforce
    obtain gs2 d where d: "(if cb_ghostCount c2 \<ge> ghostCap c2 then snd (reclaimOldestGhost Q ghosts c2) else (ghosts, c2)) = (gs2, d)" by fastforce
    have "same_params c2 d" using reclaimOldest_params [of c2 Q ghosts] d by (auto simp: same_params_def split: if_splits)
    then have cd: "same_params c d" using same_params_trans [OF detach_params [OF cl dt]] by blast
    define e where "e = (if cb_ghostCount d < ghostCap d
        then (set_leaf x (\<lambda>l. l\<lparr>lfreq := - max (lfreq l) 1\<rparr>) d)\<lparr>cb_ghostCount := cb_ghostCount d + 1\<rparr>
        else enqueueReap Q x (d\<lparr>cb_deletedCount := cb_deletedCount d + 1\<rparr>))"
    have "same_params d e" using params_kept(2) [of "d\<lparr>cb_deletedCount := cb_deletedCount d + 1\<rparr>" Q x]
      by (simp add: e_def same_params_def set_leaf_def)
    then have ce: "same_params c (advanceDecay e)" using same_params_trans [OF same_params_trans [OF cd] params_kept(3)] by blast
    have "evict_cold Q (cd # cold) ghosts victims c = evict_cold Q cold gs2 (victims @ [v]) (advanceDecay e)"
      using cl dt d by (simp add: e_def Let_def)
    then show ?thesis using Cons same_params_trans [OF ce] by simp
  qed (use Cons in auto)
qed (simp add: same_params_def)

lemma evict_fallback_params:
  assumes "evict_fallback Q ghosts oldest c = (b, vs, c')"
  shows "same_params c c'"
proof -
  obtain g gs d where d: "reclaimOldestGhost Q ghosts c = (g, gs, d)" by (metis surj_pair)
  have cd: "same_params c d" using reclaimOldest_params [of c Q ghosts] d by simp
  have adv: "same_params e (advanceDecay (e\<lparr>cb_evictedUnprot := u\<rparr>))" "same_params e (advanceDecay (e\<lparr>cb_evictedProt := u\<rparr>))" for e :: "('a, 'b) critbit" and u
    by (simp_all add: same_params_def advanceDecay_def Let_def)
  show ?thesis
  proof (cases "g \<or> Option.bind oldest (\<lambda>n. claimForEviction n d) = None")
    case True
    then show ?thesis using assms d cd same_params_trans [OF cd adv(1)] by (auto simp: evict_fallback_def split: if_splits)
  next
    case False
    then obtain n x c1 where n: "\<not> g" "oldest = Some n" and cl: "claimForEviction n d = Some (x, c1)" by (auto simp: bind_eq_None_conv)
    obtain v c2 where dt: "detachEvictedLeaf x c1 = (v, c2)" by fastforce
    let ?e = "enqueueReap Q x (c2\<lparr>cb_deletedCount := cb_deletedCount c2 + 1\<rparr>)"
    have "same_params c2 ?e" using params_kept(2) [of "c2\<lparr>cb_deletedCount := cb_deletedCount c2 + 1\<rparr>" Q x] by (simp add: same_params_def)
    moreover have "c' = advanceDecay (?e\<lparr>cb_evictedProt := cb_evictedProt ?e + 1\<rparr>)"
      using assms d n cl dt by (auto simp: evict_fallback_def Let_def)
    ultimately show ?thesis using same_params_trans cd detach_params [OF cl dt] adv(2) by metis
  qed
qed

lemma consider_params: "same_params (snd st) (snd (sample_consider th ep n st))"
  by (simp add: sample_consider_def Let_def same_params_def set_leaf_def split: prod.split option.split)

lemma consider_count:
  "length (s_cold (fst st)) + length (s_ghosts (fst st)) \<le> b \<Longrightarrow>
   length (s_cold (fst (sample_consider th ep n st))) + length (s_ghosts (fst (sample_consider th ep n st))) \<le> Suc b"
  by (cases st) (simp add: sample_consider_def Let_def split: option.split)

section \<open>A batch\<close>

lemma notify_Cons: "notify_victims (v # vs) c = notify_victims vs (fireTipDelta (ev_tips v) None (ev_data v) c)"
  by (simp add: notify_victims_def)

lemma notify_ok:
  "index_ok (notify_victims vs c) \<longleftrightarrow> index_ok c" "liveLeaf k (notify_victims vs c) = liveLeaf k c" "held (notify_victims vs c) = held c"
  "same_params c (notify_victims vs c)" "cb_refDelta (notify_victims vs c) = cb_refDelta c" "cb_closed (notify_victims vs c) = cb_closed c"
proof (induction vs arbitrary: c)
  case (Cons v vs)
  { case 1 then show ?case using Cons.IH(1) by (simp add: notify_Cons) }
  { case 2 then show ?case using Cons.IH(2) by (simp add: notify_Cons) }
  { case 3 then show ?case using Cons.IH(3) by (simp add: notify_Cons) }
  { case 4 then show ?case using same_params_trans [OF params_kept(4) Cons.IH(4)] by (simp add: notify_Cons) }
  { case 5 then show ?case using Cons.IH(5) by (simp add: notify_Cons) }
  { case 6 then show ?case using Cons.IH(6) by (simp add: notify_Cons) }
qed (simp_all add: notify_victims_def same_params_def)

lemma notify_counts:
  assumes "cb_refDelta c"
  shows "taken (notify_victims vs c) = taken c" "released (notify_victims vs c) = released c + (\<Sum>v \<leftarrow> vs. mset (Tips (ev_tips v)))"
  using assms
proof (induction vs arbitrary: c)
  case (Cons v vs)
  { case 1 then show ?case using Cons.IH(1) by (simp add: notify_Cons fire_counts) }
  { case 2 then show ?case using Cons.IH(2) by (simp add: notify_Cons fire_counts add_ac) }
qed (simp_all add: notify_victims_def)

text \<open>The sample: the index looks the same, no pinned leaf is a candidate, the buffer of candidates is long enough.\<close>

lemma sample_result:
  assumes "index_ok c" "sweepLeaves chunks chunkSize base (sample_consider th ep) (\<lparr>s_cold = [], s_ghosts = [], s_oldest = None, s_oldest_access = a\<rparr>, c) = (s, d)"
  shows "sample_ok c (s, d)" "same_params c d" "length (s_cold s) + length (s_ghosts s) \<le> max base 1"
proof -
  define P :: "nat \<Rightarrow> evict_sample \<times> ('a, 'b) critbit \<Rightarrow> bool" where
    "P b st \<longleftrightarrow> sample_ok c st \<and> same_params c (snd st) \<and> length (s_cold (fst st)) + length (s_ghosts (fst st)) \<le> b" for b st
  have "P (Suc b) (sample_consider th ep n st)" if "P b st" for b n st
    using that consider_ok [of c st] consider_params [of st th ep n] consider_count [of st b th ep n] same_params_trans unfolding P_def by blast
  moreover have "P b (s, e\<lparr>cb_evictHand := h\<rparr>)" if p: "P b (s, e)" for b s e h
  proof -
    have ok: "index_ok e" using p by (simp add: P_def sample_ok_def evicts_def)
    have ev: "evicts e [] (e\<lparr>cb_evictHand := h\<rparr>)" by (rule same_evicts [OF ok]) simp_all
    then have "pinned_ids (e\<lparr>cb_evictHand := h\<rparr>) = pinned_ids e" by (simp add: evicts_def)
    moreover have "evicts c [] (e\<lparr>cb_evictHand := h\<rparr>)" using evicts_trans [OF _ ev, of c "[]"] p by (simp add: P_def sample_ok_def)
    ultimately show ?thesis using p by (simp add: P_def sample_ok_def unpinned_def same_params_def)
  qed
  moreover have "P 0 (\<lparr>s_cold = [], s_ghosts = [], s_oldest = None, s_oldest_access = a\<rparr>, c)"
    using evicts_refl [OF assms(1)] by (simp add: P_def sample_ok_def unpinned_def same_params_def)
  ultimately obtain b where "b \<le> 0 + max base 1" "P b (s, d)"
    using sweepLeaves_inv [of P "sample_consider th ep" 0 _ base chunks chunkSize] assms(2) by metis
  then show "sample_ok c (s, d)" "same_params c d" "length (s_cold s) + length (s_ghosts s) \<le> max base 1" by (auto simp: P_def)
qed

lemma batch_evicts:
  assumes ok: "index_ok c" and perm: "\<And>xs. mset (srt xs) = mset xs"
    and r: "EvictBatch Q srt chunks chunkSize want c = (n, vs, c')" and go: "\<not> cb_closed c" "want > 0"
  shows "\<exists>d b. evicts c vs d \<and> same_params c d \<and> c' = maybeReap (notify_victims vs (maybeAdaptK d)) \<and> int (length vs) \<le> want \<and>
    n = (if b then 1 else int (length vs)) \<and> (b \<longrightarrow> vs = [])"
proof -
  obtain s c1 where sw: "sweepLeaves chunks chunkSize (max (nat want * 2) minSweep) (sample_consider (cb_evictK c) (cb_decayEpochN c))
      (\<lparr>s_cold = [], s_ghosts = [], s_oldest = None, s_oldest_access = - 1\<rparr>, c) = (s, c1)" by fastforce
  note sr = sample_result [OF ok sw]
  have e1: "evicts c [] c1" and up: "unpinned (s_cold s) c1" and od: "\<And>n. s_oldest s = Some n \<Longrightarrow> n \<notin> pinned_ids c1"
    using sr(1) by (auto simp: sample_ok_def)
  have ok1: "index_ok c1" using e1 by (simp add: evicts_def)
  define cold where "cold = (if int (length (s_cold s)) > want then take (nat want) (srt (s_cold s)) else s_cold s)"
  have len: "length (srt xs) = length xs" "set (srt xs) = set xs" for xs using perm [of xs] by (metis size_mset, metis set_mset_mset)
  have cold: "set cold \<subseteq> set (s_cold s)" "int (length cold) \<le> want"
    using go(2) by (auto simp: cold_def len dest: in_set_takeD)
  have upc: "unpinned cold c1" using up cold(1) unfolding unpinned_def by blast
  obtain ws gs c2 where ec: "evict_cold Q cold (srt (s_ghosts s)) [] c1 = (ws, gs, c2)" by (metis prod_cases3)
  have e2: "evicts c1 ws c2" "length ws \<le> length cold" using evict_cold_ok [OF ec ok1 upc] by auto
  have p2: "same_params c c2" using same_params_trans [OF sr(2) evict_cold_params [OF ec]] .
  have ok2: "index_ok c2" and pin2: "pinned_ids c2 = pinned_ids c1" using e2 by (simp_all add: evicts_def)
  have c12: "evicts c ws c2" using evicts_trans [OF e1 e2(1)] by simp
  obtain b us d where fb: "(if ws = [] then evict_fallback Q gs (s_oldest s) c2
      else (False, ws, c2\<lparr>cb_evictedUnprot := cb_evictedUnprot c2 + of_nat (length ws)\<rparr>)) = (b, us, d)" by (metis prod_cases3)
  have out: "n = (if b then 1 else int (length us))" "vs = us" "c' = maybeReap (notify_victims us (maybeAdaptK d))"
    using r go sw ec fb by (auto simp: EvictBatch_def Let_def cold_def [symmetric])
  show ?thesis
  proof (cases "ws = []")
    case True
    then have fb': "evict_fallback Q gs (s_oldest s) c2 = (b, us, d)" using fb by simp
    note f = evict_fallback_ok [OF fb' ok2] evict_fallback_params [OF fb']
    have "evicts c2 us d" "length us \<le> 1" "b \<Longrightarrow> us = []" using f od pin2 by auto
    then show ?thesis using evicts_trans [of c "[]" c2 us d] c12 True same_params_trans [OF p2 f(4)] out go(2) od pin2
      by (intro exI [of _ d] exI [of _ b]) auto
  next
    case False
    then have u: "\<not> b" "us = ws" "d = c2\<lparr>cb_evictedUnprot := cb_evictedUnprot c2 + of_nat (length ws)\<rparr>" using fb by auto
    have "evicts c2 [] d" by (rule same_evicts [OF ok2]) (simp_all add: u(3))
    then have "evicts c ws d" using evicts_trans [OF c12] by fastforce
    moreover have "same_params c d" using p2 by (simp add: same_params_def u(3))
    ultimately show ?thesis using u(1,2) out e2(2) cold(2) by (intro exI [of _ d] exI [of _ b]) auto
  qed
qed

lemma hold_same: "liveLeaf k c' = liveLeaf k c \<Longrightarrow> hold c' k = hold c k"
  by (simp add: hold_def)

lemma EvictBatch_ok:
  assumes ok: "index_ok c" and perm: "\<And>xs. mset (srt xs) = mset xs" and r: "EvictBatch Q srt chunks chunkSize want c = (n, vs, c')"
  shows "index_ok c'" "distinct (map ev_key vs)" "\<forall>v \<in> set vs. hold c (ev_key v) = Some (ev_tips v, ev_data v, 0, False)"
    "hold c' = hold c |` (- ev_key ` set vs)" "int (length vs) \<le> n" "n \<le> max want 0"
    "policy_ok c \<Longrightarrow> policy_ok c'" "cb_refDelta c \<Longrightarrow> refs_ok c \<Longrightarrow> refs_ok c'" "cb_closed c' = cb_closed c" "cb_refDelta c' = cb_refDelta c"
proof -
  have "index_ok c' \<and> distinct (map ev_key vs) \<and> (\<forall>v \<in> set vs. hold c (ev_key v) = Some (ev_tips v, ev_data v, 0, False)) \<and>
    hold c' = hold c |` (- ev_key ` set vs) \<and> int (length vs) \<le> n \<and> n \<le> max want 0 \<and> (policy_ok c \<longrightarrow> policy_ok c') \<and>
    (cb_refDelta c \<and> refs_ok c \<longrightarrow> refs_ok c') \<and> cb_closed c' = cb_closed c \<and> cb_refDelta c' = cb_refDelta c"
  proof (cases "cb_closed c \<or> want \<le> 0")
    case True
    then have "n = 0" "vs = []" "c' = c" using r by (auto simp: EvictBatch_def)
    then show ?thesis using ok by (simp add: restrict_map_def)
  next
    case False
    then obtain d b where d: "evicts c vs d" "same_params c d" "c' = maybeReap (notify_victims vs (maybeAdaptK d))" "int (length vs) \<le> want"
        "n = (if b then 1 else int (length vs))" "b \<longrightarrow> vs = []"
      using batch_evicts [OF ok perm r] by auto
    let ?a = "maybeAdaptK d" and ?v = "notify_victims vs (maybeAdaptK d)"
    have core: "liveLeaf k ?a = liveLeaf k d" "index_ok ?a \<longleftrightarrow> index_ok d" "held ?a = held d" for k by (rule same_core; simp)+
    have mr: "cb_root (maybeReap e) = cb_root e" "cb_closed (maybeReap e) = cb_closed e" "cb_next (maybeReap e) = cb_next e"
      "cb_size (maybeReap e) = cb_size e" "cb_deletedCount (maybeReap e) = cb_deletedCount e" "cb_ghostCount (maybeReap e) = cb_ghostCount e"
      "cb_deltas (maybeReap e) = cb_deltas e" "cb_refDelta (maybeReap e) = cb_refDelta e" "same_params e (maybeReap e)" for e :: "('a, 'b) critbit"
      by (simp_all add: maybeReap_def same_params_def)
    have core': "liveLeaf k c' = liveLeaf k ?v" "index_ok c' \<longleftrightarrow> index_ok ?v" "held c' = held ?v" for k unfolding d(3) by (rule same_core; simp add: mr)+
    have "hold c' = hold d" by (rule ext, rule hold_same) (simp add: core' core notify_ok)
    moreover have "index_ok c'" using d(1) by (simp add: core' core notify_ok evicts_def)
    moreover have "policy_ok c'" if "policy_ok c"
    proof -
      have "policy_ok ?a" using maybeAdaptK_ok policy_same [OF d(2)] that by blast
      then show ?thesis using policy_same [OF same_params_trans [OF notify_ok(4) mr(9)]] d(3) by blast
    qed
    moreover have "refs_ok c'" if h: "cb_refDelta c" "refs_ok c"
    proof -
      have "cb_refDelta ?a" using d(1) h(1) by (simp add: evicts_def)
      note nc = notify_counts [OF this, of vs]
      have "taken c' = taken ?v" "released c' = released ?v" by (simp_all add: d(3) taken_def released_def mr)
      moreover have "taken ?a = taken c" "released ?a = released c" using d(1) by (simp_all add: evicts_def taken_def released_def)
      moreover have "held c = held c' + (\<Sum>v \<leftarrow> vs. mset (Tips (ev_tips v)))" using d(1) by (simp add: evicts_def core' core notify_ok)
      ultimately show ?thesis using h(2) nc by (simp add: refs_ok_def add_ac)
    qed
    moreover have "cb_closed c' = cb_closed c" "cb_refDelta c' = cb_refDelta c" using d(1) by (simp_all add: d(3) mr notify_ok evicts_def)
    ultimately show ?thesis using d(1,4-6) False by (auto simp: evicts_def)
  qed
  then show "index_ok c'" "distinct (map ev_key vs)" "\<forall>v \<in> set vs. hold c (ev_key v) = Some (ev_tips v, ev_data v, 0, False)"
    "hold c' = hold c |` (- ev_key ` set vs)" "int (length vs) \<le> n" "n \<le> max want 0"
    "policy_ok c \<Longrightarrow> policy_ok c'" "cb_refDelta c \<Longrightarrow> refs_ok c \<Longrightarrow> refs_ok c'" "cb_closed c' = cb_closed c" "cb_refDelta c' = cb_refDelta c"
    by blast+
qed

end
