(* ===== verification/Crit_Index_Run.thy ===== *)
theory Crit_Index_Run
  imports Crit_Evict_Safe
begin

text \<open>
  Sequences of operations on the key index, against an abstract map from keys to tip sets and payloads whose only freedom is
  what a stale expectation does to a key that is absent.
\<close>

section \<open>Definitions\<close>

datatype 'd index_op =
    OpInsert bytes tips_ptr tips_ptr uint64
  | OpRemoveTips nat bytes "tip list"
  | OpDelete bytes tips_ptr
  | OpPin bytes
  | OpUnpin bytes
  | OpLoadData "bool option" uint64 bytes
  | OpStoreData "bool option" uint64 bytes "'d option"
  | OpDrain
  | OpReap
  | OpEvict "candidate list \<Rightarrow> candidate list" directory nat int
  | OpClose

primrec exec :: "'q mpmc \<Rightarrow> 'd index_op \<Rightarrow> ('d, 'q) critbit \<Rightarrow> ('d, 'q) critbit option" where
  "exec Q (OpInsert key old newTips now) c = map_option snd (Insert key old newTips now c)"
| "exec Q (OpRemoveTips fresh key refs) c = Some (RemoveTips fresh key refs c)"
| "exec Q (OpDelete key old) c = Some (snd (DeleteAndSnapshot Q key old c))"
| "exec Q (OpPin key) c = Some (snd (Pin key c))"
| "exec Q (OpUnpin key) c = map_option snd (Unpin key c)"
| "exec Q (OpLoadData pressure now key) c = Some (snd (LoadData pressure now key c))"
| "exec Q (OpStoreData pressure now key def) c = Some (snd (LoadOrStoreData pressure now key def c))"
| "exec Q OpDrain c = Some (snd (drainReap Q c))"
| "exec Q OpReap c = Some (snd (reap c))"
| "exec Q (OpEvict srt chunks chunkSize want) c = Some (snd (snd (EvictBatch Q srt chunks chunkSize want c)))"
| "exec Q OpClose c = Some (Close c)"

primrec exec_all :: "'q mpmc \<Rightarrow> 'd index_op list \<Rightarrow> ('d, 'q) critbit \<Rightarrow> ('d, 'q) critbit option" where
  "exec_all Q [] c = Some c"
| "exec_all Q (op # ops) c = Option.bind (exec Q op c) (exec_all Q ops)"

text \<open>Keys shorter than \<open>2 ^ 32\<close> bytes, tip sets as \<open>NewTipSet\<close> makes them, a sort that permutes.\<close>

primrec op_ok :: "'d index_op \<Rightarrow> bool" where
  "op_ok (OpInsert key old newTips now) \<longleftrightarrow> short_key key \<and> distinct (Tips newTips)"
| "op_ok (OpRemoveTips fresh key refs) \<longleftrightarrow> True"
| "op_ok (OpDelete key old) \<longleftrightarrow> True"
| "op_ok (OpPin key) \<longleftrightarrow> True"
| "op_ok (OpUnpin key) \<longleftrightarrow> True"
| "op_ok (OpLoadData pressure now key) \<longleftrightarrow> True"
| "op_ok (OpStoreData pressure now key def) \<longleftrightarrow> True"
| "op_ok OpDrain \<longleftrightarrow> True"
| "op_ok OpReap \<longleftrightarrow> True"
| "op_ok (OpEvict srt chunks chunkSize want) \<longleftrightarrow> (\<forall>xs. mset (srt xs) = mset xs)"
| "op_ok OpClose \<longleftrightarrow> True"

type_synonym 'd spec = "bool \<times> (bytes \<rightharpoonup> tips_ptr \<times> 'd option)"

text \<open>The promise of \<open>KeyIndex\<close>: the first component says that the index is closed.\<close>

inductive spec_step :: "'d index_op \<Rightarrow> 'd spec \<Rightarrow> 'd spec \<Rightarrow> bool" where
  swap: "m key = Some (old, d) \<Longrightarrow> spec_step (OpInsert key old newTips now) (False, m) (False, m(key \<mapsto> (newTips, d)))"
| conflict: "m key = Some (t, d) \<Longrightarrow> t \<noteq> old \<Longrightarrow> spec_step (OpInsert key old newTips now) (False, m) (False, m)"
| create: "m key = None \<Longrightarrow> spec_step (OpInsert key old newTips now) (False, m) (False, m(key \<mapsto> (newTips, None)))"
| stale: "m key = None \<Longrightarrow> old \<noteq> None \<Longrightarrow> spec_step (OpInsert key old newTips now) (False, m) (False, m)"
| insert_closed: "spec_step (OpInsert key old newTips now) (True, m) (True, m)"
| remove: "m key = Some (Some t, d) \<Longrightarrow> set (ts_tips t) \<inter> set refs \<noteq> {} \<Longrightarrow>
    spec_step (OpRemoveTips fresh key refs) (b, m)
      (b, m(key \<mapsto> (Some \<lparr>ts_id = fresh, ts_tips = filter (\<lambda>r. r \<notin> set refs) (ts_tips t)\<rparr>, d)))"
| remove_none: "(\<And>t d. m key = Some (Some t, d) \<Longrightarrow> set (ts_tips t) \<inter> set refs = {}) \<Longrightarrow>
    spec_step (OpRemoveTips fresh key refs) (b, m) (b, m)"
| delete: "m key = Some (old, d) \<Longrightarrow> spec_step (OpDelete key old) (b, m) (b, m(key := None))"
| delete_none: "(\<And>d. m key \<noteq> Some (old, d)) \<Longrightarrow> spec_step (OpDelete key old) (b, m) (b, m)"
| store: "m key = Some (t, None) \<Longrightarrow> spec_step (OpStoreData pressure now key def) (b, m) (b, m(key \<mapsto> (t, def)))"
| store_none: "(\<And>t. m key \<noteq> Some (t, None)) \<Longrightarrow> spec_step (OpStoreData pressure now key def) (b, m) (b, m)"
| unseen: "op \<in> {OpPin key, OpUnpin key, OpLoadData pressure now key, OpDrain, OpReap} \<Longrightarrow> spec_step op s s"
| evict: "card (dom m - K) \<le> nat want \<Longrightarrow> spec_step (OpEvict srt chunks chunkSize want) (b, m) (b, m |` K)"
| close: "spec_step OpClose (b, m) (True, Map.empty)"

inductive spec_run :: "'d index_op list \<Rightarrow> 'd spec \<Rightarrow> 'd spec \<Rightarrow> bool" where
  run_nil: "spec_run [] s s"
| run_cons: "spec_step op s s' \<Longrightarrow> spec_run ops s' s'' \<Longrightarrow> spec_run (op # ops) s s''"

definition abs_index :: "('d, 'q) critbit \<Rightarrow> 'd spec" where
  "abs_index c = (cb_closed c, view c)"

text \<open>No insertion along the run gives an expectation for a key that has no leaf.\<close>

primrec fair :: "'q mpmc \<Rightarrow> 'd index_op list \<Rightarrow> ('d, 'q) critbit \<Rightarrow> bool" where
  "fair Q [] c \<longleftrightarrow> True"
| "fair Q (op # ops) c \<longleftrightarrow>
     (case op of OpInsert key old newTips now \<Rightarrow> old = None \<or> key \<in> lkey ` leafset c | _ \<Rightarrow> True) \<and>
     (case exec Q op c of None \<Rightarrow> True | Some c' \<Rightarrow> fair Q ops c')"

text \<open>What a step owes: the invariant, the abstract step, and exact reference counts.\<close>

definition step_ok :: "'d index_op \<Rightarrow> ('d, 'q) critbit \<Rightarrow> ('d, 'q) critbit \<Rightarrow> bool" where
  "step_ok op c c' \<longleftrightarrow> index_ok c' \<and> spec_step op (abs_index c) (abs_index c') \<and> cb_refDelta c' = cb_refDelta c \<and>
     (cb_refDelta c \<and> refs_ok c \<and> \<not> cb_closed c' \<and>
      (case op of OpInsert key old newTips now \<Rightarrow> old = None \<or> key \<in> lkey ` leafset c | _ \<Rightarrow> True) \<longrightarrow> refs_ok c')"

section \<open>Steps\<close>

lemma abs_upd: "view c' = (view c)(key \<mapsto> e) \<Longrightarrow> cb_closed c' = cb_closed c \<Longrightarrow> abs_index c' = (cb_closed c, (view c)(key \<mapsto> e))"
  by (simp add: abs_index_def)

lemma insert_step:
  assumes ok: "index_ok c" and wf: "short_key key" "distinct (Tips newTips)" and r: "Insert key old newTips now c = Some (r, c')"
  shows "step_ok (OpInsert key old newTips now) c c'"
proof (cases "cb_closed c")
  case True
  then have "c' = c" using r by (subst (asm) Insert.simps) (simp add: insert_once_def)
  then show ?thesis using ok True by (simp add: step_ok_def abs_index_def insert_closed)
next
  case False
  have ins: "inserted key old newTips c c'" using Insert_spec [OF ok False wf, of old now] r by auto
  have vk: "view c key = map_option (\<lambda>l. (ltips l, ldata l)) (liveLeaf key c)" by (simp add: view_def)
  have "spec_step (OpInsert key old newTips now) (abs_index c) (abs_index c')"
  proof (cases "accepts key old c")
    case True
    then have v: "abs_index c' = (False, (view c)(key \<mapsto> (newTips, Option.bind (view c key) snd)))"
      using ins False by (simp add: inserted_def abs_index_def)
    show ?thesis
    proof (cases "liveLeaf key c")
      case None
      then show ?thesis using v vk False by (simp add: abs_index_def create)
    next
      case (Some l)
      then show ?thesis using v vk False True swap [of "view c" key old "ldata l"] by (simp add: abs_index_def accepts_def)
    qed
  next
    case na: False
    then have "c' = c" using ins by (simp add: inserted_def)
    then show ?thesis using na False vk conflict [of "view c" key] stale [of "view c" key]
      by (cases "liveLeaf key c") (simp_all add: abs_index_def accepts_def)
  qed
  then show ?thesis using ins by (simp add: step_ok_def inserted_def)
qed

lemma touched:
  assumes "index_ok c" "liveLeaf key c = Some x" "\<And>y. lkey (f y) = lkey y" "lid (f x) = lid x" "leaf_ok (f x)" "\<not> ldeleted (f x)"
    "ltips (f x) = ltips x" "ldata (f x) = ldata x"
    "cb_root c' = map_option (update_leaf (lkey x) f) (cb_root c)" "cb_closed c' = cb_closed c" "cb_next c' = cb_next c"
      "cb_size c' = cb_size c" "cb_deletedCount c' = cb_deletedCount c" "cb_ghostCount c' = cb_ghostCount c"
    "cb_deltas c' = cb_deltas c"
  shows "index_ok c'" "abs_index c' = abs_index c" "refs_ok c' \<longleftrightarrow> refs_ok c" "liveLeaf key c' = Some (f x)"
proof -
  note w = written [OF assms(1-6,9-14)]
  show "index_ok c'" by (rule w(1))
  show "liveLeaf key c' = Some (f x)" using w(2) [of key] by simp
  show "abs_index c' = abs_index c" using w(4) assms(2,7,8,10) by (simp add: abs_index_def view_leaf fun_upd_idem)
  show "refs_ok c' \<longleftrightarrow> refs_ok c" using w(3) assms(7,15) by (simp add: refs_ok_def taken_def released_def)
qed

lemma unseen_step:
  assumes "index_ok c'" "abs_index c' = abs_index c" "refs_ok c' \<longleftrightarrow> refs_ok c" "cb_refDelta c' = cb_refDelta c"
    "op \<in> {OpPin key, OpUnpin key, OpLoadData pressure now key, OpDrain, OpReap}"
  shows "step_ok op c c'"
  using assms(1-4) unseen [OF assms(5), of "abs_index c"] by (simp add: step_ok_def)

lemma quiet_step:
  assumes "index_ok c" "quiet c c'" "op \<in> {OpDrain, OpReap}"
  shows "step_ok op c c'"
proof (rule unseen_step)
  show "index_ok c'" "cb_refDelta c' = cb_refDelta c" using assms(1,2) by (simp_all add: quiet_def)
  show "abs_index c' = abs_index c" using quiet_view [OF assms(2,1)] assms(2) by (simp add: abs_index_def quiet_def)
  show "refs_ok c' \<longleftrightarrow> refs_ok c" by (rule quiet_refs [OF assms(2,1)])
  show "op \<in> {OpPin [], OpUnpin [], OpLoadData None 0 [], OpDrain, OpReap}" using assms(3) by auto
qed

lemma pins_step:
  assumes ok: "index_ok c" and x: "liveLeaf key c = Some x" and op: "op \<in> {OpPin key, OpUnpin key}"
  shows "step_ok op c (set_leaf x (\<lambda>l. l\<lparr>lpins := p l\<rparr>) c)"
proof (rule unseen_step)
  let ?f = "\<lambda>l. l\<lparr>lpins := p l\<rparr>" and ?c = "set_leaf x (\<lambda>l. l\<lparr>lpins := p l\<rparr>) c"
  have l: "leaf_ok (?f x)" "\<not> ldeleted (?f x)" using live_ok [OF ok x] by (auto simp: leaf_ok_def)
  note t = touched [OF ok x, of ?f ?c, OF _ _ l]
  show "index_ok ?c" "abs_index ?c = abs_index c" "refs_ok ?c \<longleftrightarrow> refs_ok c" using t(1-3) by simp_all
  show "cb_refDelta ?c = cb_refDelta c" by simp
  show "op \<in> {OpPin key, OpUnpin key, OpLoadData None 0 key, OpDrain, OpReap}" using op by auto
qed

lemma bump_ok:
  assumes ok: "index_ok c" and x: "liveLeaf key c = Some x"
  shows "index_ok (bumpAccess pr now x c)" "abs_index (bumpAccess pr now x c) = abs_index c" "refs_ok (bumpAccess pr now x c) \<longleftrightarrow> refs_ok c"
    "\<exists>y. liveLeaf key (bumpAccess pr now x c) = Some y \<and> ltips y = ltips x \<and> ldata y = ldata x \<and> lkey y = lkey x"
    "cb_refDelta (bumpAccess pr now x c) = cb_refDelta c"
proof -
  let ?c = "bumpAccess pr now x c"
  have lx: "leaf_ok x" "\<not> ldeleted x" using live_ok [OF ok x] by blast+
  have "index_ok ?c \<and> abs_index ?c = abs_index c \<and> (refs_ok ?c \<longleftrightarrow> refs_ok c) \<and>
      (\<exists>y. liveLeaf key ?c = Some y \<and> ltips y = ltips x \<and> ldata y = ldata x \<and> lkey y = lkey x) \<and> cb_refDelta ?c = cb_refDelta c"
  proof (cases "cb_evictActive c")
    case True
    let ?f = "\<lambda>l. (if lfreq x < 0 \<or> lfreq x \<ge> maxLeafFreq then l else l\<lparr>lfreq := lfreq x + 1\<rparr>)\<lparr>laccess := now\<rparr>"
    have sel: "cb_root ?c = map_option (update_leaf (lkey x) ?f) (cb_root c)" "cb_closed ?c = cb_closed c" "cb_next ?c = cb_next c"
      "cb_size ?c = cb_size c" "cb_deletedCount ?c = cb_deletedCount c" "cb_ghostCount ?c = cb_ghostCount c"
      "cb_deltas ?c = cb_deltas c" "cb_refDelta ?c = cb_refDelta c"
      using True by (simp_all add: bumpAccess_def Let_def set_leaf_def)
    have l: "leaf_ok (?f x)" "\<not> ldeleted (?f x)" "ltips (?f x) = ltips x" "ldata (?f x) = ldata x" "lid (?f x) = lid x" "\<And>y. lkey (?f y) = lkey y"
      using lx by (auto simp: leaf_ok_def maxLeafFreq_def)
    note t = touched [OF ok x l(6,5,1-4) sel(1-7)]
    show ?thesis using t sel(8) l(3,4,6) by blast
  next
    case False
    then show ?thesis using ok x by (simp add: bumpAccess_def)
  qed
  then show "index_ok ?c" "abs_index ?c = abs_index c" "refs_ok ?c \<longleftrightarrow> refs_ok c"
    "\<exists>y. liveLeaf key ?c = Some y \<and> ltips y = ltips x \<and> ldata y = ldata x \<and> lkey y = lkey x" "cb_refDelta ?c = cb_refDelta c"
    by blast+
qed

lemma store_step:
  assumes ok: "index_ok c"
  shows "step_ok (OpStoreData pr now key def) c (snd (LoadOrStoreData pr now key def c))"
proof (cases "liveLeaf key c")
  case None
  have "spec_step (OpStoreData pr now key def) (cb_closed c, view c) (cb_closed c, view c)" by (rule store_none) (simp add: view_leaf(2) [OF None])
  then show ?thesis using None ok by (simp add: step_ok_def LoadOrStoreData_def abs_index_def)
next
  case (Some x)
  let ?b = "bumpAccess pr now x c"
  note b = bump_ok [OF ok Some, of pr now]
  obtain y where y: "liveLeaf key ?b = Some y" "ltips y = ltips x" "ldata y = ldata x" "lkey y = lkey x" using b(4) by blast
  have bs: "cb_closed ?b = cb_closed c" "view ?b = view c" using b(2) by (simp_all add: abs_index_def)
  have v: "view c key = Some (ltips x, ldata x)" by (rule view_leaf(1) [OF Some])
  show ?thesis
  proof (cases "ldata x")
    case None
    let ?c = "set_leaf x (\<lambda>l. l\<lparr>ldata := def\<rparr>) ?b" and ?f = "\<lambda>l. l\<lparr>ldata := def\<rparr>"
    have r: "snd (LoadOrStoreData pr now key def c) = ?c" using Some None by (simp add: LoadOrStoreData_def Let_def)
    have l: "leaf_ok (?f y)" "\<not> ldeleted (?f y)" using live_ok [OF b(1) y(1)] by (auto simp: leaf_ok_def)
    note w = written [OF b(1) y(1), of ?f ?c, OF _ _ l]
    have "view ?c = (view c)(key \<mapsto> (ltips x, def))" using w(4) y bs by simp
    moreover have "spec_step (OpStoreData pr now key def) (cb_closed c, view c) (cb_closed c, (view c)(key \<mapsto> (ltips x, def)))"
      by (rule store) (simp add: v None)
    moreover have "held ?c = held ?b" using w(3) y by simp
    then have "refs_ok ?c \<longleftrightarrow> refs_ok c" using b(3) by (simp add: refs_ok_def taken_def released_def)
    ultimately show ?thesis using w(1) y b(5) bs unfolding r by (simp add: step_ok_def abs_index_def)
  next
    case d: (Some d)
    have "spec_step (OpStoreData pr now key def) (cb_closed c, view c) (cb_closed c, view c)" by (rule store_none) (simp add: v d)
    then show ?thesis using Some d b bs by (simp add: step_ok_def LoadOrStoreData_def Let_def abs_index_def)
  qed
qed

lemma remove_step:
  assumes ok: "index_ok c"
  shows "step_ok (OpRemoveTips fresh key refs) c (RemoveTips fresh key refs c)"
proof (cases "\<exists>x t. liveLeaf key c = Some x \<and> ltips x = Some t \<and> set (ts_tips t) \<inter> set refs \<noteq> {}")
  case True
  then obtain x t where x: "liveLeaf key c = Some x" "ltips x = Some t" "set (ts_tips t) \<inter> set refs \<noteq> {}" by blast
  let ?kept = "filter (\<lambda>r. r \<notin> set refs) (ts_tips t)"
  let ?nt = "Some \<lparr>ts_id = fresh, ts_tips = ?kept\<rparr>"
  let ?f = "\<lambda>l. l\<lparr>ltips := ?nt\<rparr>"
  let ?d = "set_leaf x ?f c"
  have ne: "refs \<noteq> []" "length ?kept \<noteq> length (ts_tips t)" using x(3) length_filter_less [of _ "ts_tips t" "\<lambda>r. r \<notin> set refs"] by fastforce+
  have r: "RemoveTips fresh key refs c = fireTipDelta (Some t) ?nt None ?d" using x ne by (simp add: RemoveTips_def Let_def)
  have lx: "leaf_ok x" "\<not> ldeleted x" using live_ok [OF ok x(1)] by blast+
  then have dt: "distinct (ts_tips t)" using x(2) by (simp add: leaf_ok_def)
  then have l: "leaf_ok (?f x)" "\<not> ldeleted (?f x)" using lx by (auto simp: leaf_ok_def)
  note w = written [OF ok x(1), of ?f ?d, OF _ _ l]
  have "view ?d = (view c)(key \<mapsto> (?nt, ldata x))" using w(4) by simp
  moreover have "view (fireTipDelta (Some t) ?nt None ?d) = view ?d" by (rule ext) (simp add: view_def)
  moreover have "spec_step (OpRemoveTips fresh key refs) (cb_closed c, view c) (cb_closed c, (view c)(key \<mapsto> (?nt, ldata x)))"
    by (rule remove) (use x view_leaf(1) [OF x(1)] in simp_all)
  moreover have "refs_ok (fireTipDelta (Some t) ?nt None ?d)" if h: "cb_refDelta c" "refs_ok c"
  proof -
    have rd: "cb_refDelta ?d" using h(1) by simp
    have hd: "held ?d + mset (ts_tips t) = held c + mset ?kept" using w(3) x(2) by simp
    have td: "taken ?d = held c + released c" "released ?d = released c" using h(2) by (simp_all add: taken_def released_def refs_ok_def)
    have dk: "distinct ?kept" using dt by simp
    have "taken (fireTipDelta (Some t) ?nt None ?d) + mset (ts_tips t) = held ?d + released (fireTipDelta (Some t) ?nt None ?d) + mset (ts_tips t)"
      unfolding fire_counts [OF rd] td using hd tip_delta_balance [OF dt dk] by (simp add: add_ac del: tipDifference_filter)
    then show ?thesis by (simp add: refs_ok_def)
  qed
  ultimately show ?thesis using w(1) unfolding r by (simp add: step_ok_def abs_index_def)
next
  case False
  have "RemoveTips fresh key refs c = c"
  proof (cases "liveLeaf key c")
    case (Some x)
    have "length (filter (\<lambda>r. r \<notin> set refs) (ts_tips t)) = length (ts_tips t)" if t: "ltips x = Some t" for t
    proof -
      have "set (ts_tips t) \<inter> set refs = {}" using False Some t by blast
      then show ?thesis by (subst filter_True) auto
    qed
    then show ?thesis using Some by (simp add: RemoveTips_def Let_def split: option.split)
  qed (simp add: RemoveTips_def)
  moreover have "spec_step (OpRemoveTips fresh key refs) (cb_closed c, view c) (cb_closed c, view c)"
    by (rule remove_none) (use False in \<open>auto simp: view_def\<close>)
  ultimately show ?thesis using ok by (simp add: step_ok_def abs_index_def)
qed

lemma maybeReap_quiet: "quiet c (maybeReap c)"
  by (rule quiet_same) (simp_all add: maybeReap_def)

lemma delete_step:
  assumes ok: "index_ok c"
  shows "step_ok (OpDelete key old) c (snd (DeleteAndSnapshot Q key old c))"
proof (cases "\<exists>x. liveLeaf key c = Some x \<and> ltips x = old")
  case True
  then obtain x where x: "liveLeaf key c = Some x" "ltips x = old" by blast
  let ?f = "\<lambda>l. l\<lparr>ltips := None, ldeleted := True, ldata := None\<rparr>" and ?c = "snd (DeleteAndSnapshot Q key old c)"
  define d where "d = (let c = (set_leaf x (\<lambda>l. l\<lparr>ldata := None\<rparr>) (set_leaf x (\<lambda>l. l\<lparr>ltips := None, ldeleted := True\<rparr>) c)) in
    c\<lparr>cb_size := cb_size c - 1, cb_deletedCount := cb_deletedCount c + 1\<rparr>)"
  have sel: "cb_root d = map_option (update_leaf (lkey x) ?f) (cb_root c)" "cb_closed d = cb_closed c" "cb_next d = cb_next c" "cb_size d = cb_size c - 1"
      "cb_deletedCount d = cb_deletedCount c + 1" "cb_ghostCount d = cb_ghostCount c" "cb_deltas d = cb_deltas c" "cb_refDelta d = cb_refDelta c"
    by (simp_all add: d_def Let_def)
  let ?e = "fireTipDelta old None (ldata x) (enqueueReap Q x d)"
  have "?c = ?e \<or> ?c = maybeReap ?e"
    using x by (simp add: DeleteAndSnapshot_def clearLeaf_def Let_def d_def)
  then have q: "quiet ?e ?c" using maybeReap_quiet [of ?e] quiet_refl [of ?e] by presburger
  have lx: "leaf_ok x" "\<not> ldeleted x" "x \<in> leafset c" "lkey x = key" using live_ok [OF ok x(1)] by blast+
  have l: "leaf_ok (?f x)" "lfreq x \<ge> 0" using lx by (auto simp: leaf_ok_def)
  note re = replaced [OF ok lx(3) _ _ l(1) sel(1-3)]
  have r: "index_ok d" "\<And>k. liveLeaf k d = (if k = key then None else liveLeaf k c)" "held d + mset (Tips old) = held c"
    using re sel(4-6) lx(2,4) l(2) x(2) by (simp_all add: dead_def ghost_def)
  have qd: "quiet d (enqueueReap Q x d)" by (rule quiet_same) simp_all
  have e: "index_ok ?e" "\<And>k. liveLeaf k ?e = liveLeaf k d" "held ?e = held d" "cb_closed ?e = cb_closed c" "cb_refDelta ?e = cb_refDelta c"
    using qd r(1) sel by (simp_all add: quiet_def)
  have "view ?c = (view c)(key := None)" using q e(1,2) r(2) by (intro ext) (simp add: quiet_def view_def)
  moreover have "cb_closed ?c = cb_closed c" "cb_refDelta ?c = cb_refDelta c" "index_ok ?c" using q e by (simp_all add: quiet_def)
  moreover have "spec_step (OpDelete key old) (cb_closed c, view c) (cb_closed c, (view c)(key := None))"
    by (rule delete) (use x view_leaf(1) [OF x(1)] in simp)
  moreover have "refs_ok ?c" if h: "cb_refDelta c" "refs_ok c"
  proof -
    have rd: "cb_refDelta (enqueueReap Q x d)" using h(1) sel(8) by simp
    have "taken (enqueueReap Q x d) = held c + released c" "released (enqueueReap Q x d) = released c"
      using h(2) sel(7) by (simp_all add: taken_def released_def refs_ok_def)
    then have "refs_ok ?e" unfolding refs_ok_def fire_counts [OF rd] e(3) using r(3) by (simp add: add_ac)
    then show ?thesis using quiet_refs [OF q e(1)] by blast
  qed
  ultimately show ?thesis by (simp add: step_ok_def abs_index_def)
next
  case False
  have "snd (DeleteAndSnapshot Q key old c) = c" using False by (cases "liveLeaf key c") (simp_all add: DeleteAndSnapshot_def)
  moreover have "spec_step (OpDelete key old) (cb_closed c, view c) (cb_closed c, view c)"
    by (rule delete_none) (use False in \<open>auto simp: view_def\<close>)
  ultimately show ?thesis using ok by (simp add: step_ok_def abs_index_def)
qed

lemma view_hold: "view c k = map_option (\<lambda>(t, d, p, b). (t, d)) (hold c k)"
  by (simp add: view_def hold_def option.map_comp comp_def)

lemma evict_step:
  assumes ok: "index_ok c" and srt: "\<And>xs. mset (srt xs) = mset xs"
  shows "step_ok (OpEvict srt chunks chunkSize want) c (snd (snd (EvictBatch Q srt chunks chunkSize want c)))"
proof -
  obtain n vs c' where r: "EvictBatch Q srt chunks chunkSize want c = (n, vs, c')" by (metis prod_cases3)
  note e = EvictBatch_ok [OF ok srt r]
  let ?K = "- ev_key ` set vs"
  have v: "view c' = view c |` ?K" using e(4) by (intro ext) (simp add: view_hold restrict_map_def)
  have "dom (view c) - ?K \<subseteq> ev_key ` set vs" by auto
  then have "card (dom (view c) - ?K) \<le> card (ev_key ` set vs)" by (rule card_mono [rotated]) simp
  also have "\<dots> \<le> length vs" by (metis card_length length_map list.set_map)
  also have "\<dots> \<le> nat want" using e(5,6) by linarith
  finally have "spec_step (OpEvict srt chunks chunkSize want) (cb_closed c, view c) (cb_closed c, view c |` ?K)" by (rule evict)
  then show ?thesis using e v by (simp add: r step_ok_def abs_index_def)
qed

lemma close_step:
  assumes ok: "index_ok c"
  shows "step_ok OpClose c (Close c)"
proof -
  have "index_ok (Close c)" using ok by (auto simp: Close_def index_ok_def tree_ok_def leafset_root)
  moreover have "cb_root c = None" if "cb_closed c" using ok that by (cases "cb_root c") (auto simp: index_ok_def tree_ok_def)
  then have "view (Close c) = Map.empty" by (intro ext) (simp add: view_def liveLeaf_def Close_def)
  moreover have "cb_closed (Close c)" "cb_refDelta (Close c) = cb_refDelta c" by (simp_all add: Close_def)
  ultimately show ?thesis using close [of "cb_closed c" "view c"] by (simp add: step_ok_def abs_index_def)
qed

lemma exec_step:
  assumes ok: "index_ok c" and op: "op_ok op" and r: "exec Q op c = Some c'"
  shows "step_ok op c c'"
proof (cases op)
  case (OpInsert key old newTips now)
  then show ?thesis using insert_step [OF ok] op r by auto
next
  case (OpPin key)
  have none: "liveLeaf key c = None \<Longrightarrow> step_ok op c c" using ok unseen_step [OF ok] OpPin by blast
  show ?thesis
  proof (cases "liveLeaf key c")
    case (Some x)
    then show ?thesis using r OpPin live_ok [OF ok Some] pins_step [OF ok Some] by (auto simp: Pin_def Let_def)
  qed (use none r OpPin in \<open>simp add: Pin_def\<close>)
next
  case (OpUnpin key)
  have none: "liveLeaf key c = None \<Longrightarrow> step_ok op c c" using ok unseen_step [OF ok] OpUnpin by blast
  show ?thesis
  proof (cases "liveLeaf key c")
    case (Some x)
    then show ?thesis using r OpUnpin pins_step [OF ok Some] by (auto simp: Unpin_def Let_def split: if_splits)
  qed (use none r OpUnpin in \<open>simp add: Unpin_def\<close>)
next
  case (OpLoadData pr now key)
  show ?thesis
  proof (cases "liveLeaf key c")
    case None
    then show ?thesis using r OpLoadData unseen_step [OF ok, of c op key pr now] by (simp add: LoadData_def)
  next
    case (Some x)
    note b = bump_ok [OF ok Some, of pr now]
    show ?thesis using r OpLoadData Some unseen_step [OF b(1-3,5), of op key pr now] by (simp add: LoadData_def)
  qed
next
  case OpDrain
  then show ?thesis using quiet_step [OF ok drainReap_quiet] r by auto
next
  case OpReap
  then show ?thesis using quiet_step [OF ok reap_quiet] r by auto
next
  case (OpEvict srt chunks chunkSize want)
  then show ?thesis using evict_step [OF ok] op r by auto
qed (use r ok store_step remove_step delete_step close_step in auto)

lemma exec_total:
  assumes ok: "index_ok c" and op: "op_ok op" and n: "exec Q op c = None"
  shows "\<exists>key. op = OpUnpin key"
proof (cases op)
  case (OpInsert key old newTips now)
  have "Insert key old newTips now c \<noteq> None"
  proof (cases "cb_closed c")
    case True
    then show ?thesis by (subst Insert.simps) (simp add: insert_once_def)
  next
    case False
    then show ?thesis using Insert_spec [OF ok False] op OpInsert by fastforce
  qed
  then show ?thesis using n OpInsert by simp
qed (use n in auto)

lemma exec_all_ok:
  "index_ok c \<Longrightarrow> \<forall>op \<in> set ops. op_ok op \<Longrightarrow>
   (case exec_all Q ops c of
      None \<Rightarrow> \<exists>key. OpUnpin key \<in> set ops
    | Some c' \<Rightarrow> index_ok c' \<and> spec_run ops (abs_index c) (abs_index c') \<and> cb_refDelta c' = cb_refDelta c)"
proof (induction ops arbitrary: c)
  case Nil
  then show ?case by (simp add: run_nil)
next
  case (Cons op ops)
  show ?case
  proof (cases "exec Q op c")
    case None
    then show ?thesis using exec_total [OF Cons.prems(1) _ None] Cons.prems(2) by auto
  next
    case (Some d)
    have s: "step_ok op c d" using exec_step [OF Cons.prems(1) _ Some] Cons.prems(2) by simp
    then have "index_ok d" by (simp add: step_ok_def)
    from Cons.IH [OF this] show ?thesis using Cons.prems(2) Some s
      by (auto simp: step_ok_def split: option.splits intro: run_cons)
  qed
qed

end
