(* ===== verification/Crit_Index_Safe.thy ===== *)
theory Crit_Index_Safe
  imports Crit_Index_Run
begin

text \<open>
  Properties of the key index over all sequences of its operations, and two ways in which it departs from its documentation.
\<close>

section \<open>Definitions\<close>

text \<open>A bounded first-in first-out queue, as the reap queue is documented.\<close>

definition list_queue :: "nat list mpmc" where
  "list_queue =
     \<lparr>q_new = [], q_enq = (\<lambda>n q. if length q < 65536 then (True, q @ [n]) else (False, q)),
      q_deq = (\<lambda>q. case q of [] \<Rightarrow> None | n # q \<Rightarrow> Some (n, q))\<rparr>"

definition demo_key :: bytes where
  "demo_key = ''k''"

definition demo_tips :: "nat \<Rightarrow> tips_ptr" where
  "demo_tips n = Some \<lparr>ts_id = n, ts_tips = [Tip 1 (of_nat n)]\<rparr>"

definition demo_index :: "(nat, nat list) critbit" where
  "demo_index = SetRefDelta (SetEvictHooks None NewCritbit)"

definition demo_ops :: "nat index_op list" where
  "demo_ops =
     [OpInsert demo_key None (demo_tips 1) 0, OpPin demo_key, OpInsert ''kk'' None (demo_tips 2) 1,
      OpInsert demo_key (demo_tips 1) (demo_tips 3) 2, OpDelete demo_key (demo_tips 3), OpReap]"

definition slots_of :: "('d, 'q) critbit \<Rightarrow> directory" where
  "slots_of c = [Some [0..<cb_next c]]"

section \<open>Helpers\<close>

lemma demo_ok: "index_ok demo_index" "cb_refDelta demo_index" "refs_ok demo_index" "\<not> cb_closed demo_index"
  by (simp_all add: demo_index_def NewCritbit_def SetRefDelta_def SetEvictHooks_def index_ok_def tree_ok_def counts_ok_def leafset_root tally_def
      refs_ok_def taken_def released_def held_def)

lemma demo_ops_ok: "\<forall>op \<in> set demo_ops. op_ok op" "\<forall>op \<in> set demo_ops. op_ok op \<and> op \<noteq> OpClose"
  by (simp_all add: demo_ops_def short_key_def demo_key_def demo_tips_def)

lemma demo_runs: "\<exists>c'. exec_all list_queue demo_ops demo_index = Some c'"
  using exec_all_ok [OF demo_ok(1) demo_ops_ok(1), of list_queue] by (cases "exec_all list_queue demo_ops demo_index") (auto simp: demo_ops_def)

lemma live_keys: "index_ok c \<Longrightarrow> dom (view c) = lkey ` {l \<in> leafset c. \<not> ldeleted l}"
proof -
  assume "index_ok c"
  then have t: "tree_ok c" by (simp add: index_ok_def)
  show ?thesis
  proof (rule set_eqI)
    fix k
    have "k \<in> dom (view c) \<longleftrightarrow> (\<exists>l. liveLeaf k c = Some l)" by (auto simp: view_def)
    also have "\<dots> \<longleftrightarrow> k \<in> lkey ` {l \<in> leafset c. \<not> ldeleted l}" unfolding liveLeaf_iff [OF t] by blast
    finally show "k \<in> dom (view c) \<longleftrightarrow> k \<in> lkey ` {l \<in> leafset c. \<not> ldeleted l}" .
  qed
qed

lemma size_exact:
  assumes ok: "index_ok c"
  shows "Size c = int (card (dom (view c)))"
proof (cases "cb_closed c")
  case True
  then have "cb_root c = None" using ok by (cases "cb_root c") (auto simp: index_ok_def tree_ok_def)
  then show ?thesis using True by (simp add: live_keys [OF ok] Size_def leafset_root)
next
  case False
  have t: "tree_ok c" and cnt: "counts_ok c" using ok False by (auto simp: index_ok_def)
  have "inj_on lkey {l \<in> leafset c. \<not> ldeleted l}" using leafset_key_inj [OF t] by (auto intro: inj_onI)
  then show ?thesis using False cnt by (simp add: live_keys [OF ok] Size_def counts_ok_def tally_def card_image)
qed

lemma refs_run:
  "index_ok c \<Longrightarrow> \<forall>op \<in> set ops. op_ok op \<and> op \<noteq> OpClose \<Longrightarrow> cb_refDelta c \<Longrightarrow> refs_ok c \<Longrightarrow> \<not> cb_closed c \<Longrightarrow> fair Q ops c \<Longrightarrow>
   exec_all Q ops c = Some c' \<Longrightarrow> refs_ok c'"
proof (induction ops arbitrary: c)
  case (Cons op ops)
  obtain d where d: "exec Q op c = Some d" "exec_all Q ops d = Some c'" using Cons.prems(7) by (auto simp: bind_eq_Some_conv)
  have s: "step_ok op c d" using exec_step [OF Cons.prems(1) _ d(1)] Cons.prems(2) by simp
  have "\<not> cb_closed d"
  proof -
    have "spec_step op (abs_index c) (abs_index d)" using s by (simp add: step_ok_def)
    then show ?thesis using Cons.prems(2,5) by cases (auto simp: abs_index_def)
  qed
  then show ?case using Cons s d by (auto simp: step_ok_def)
qed simp

lemma insert_none_accepts: "liveLeaf key c = None \<Longrightarrow> accepts key None c"
  by (simp add: accepts_def)

lemma demo_new: "liveLeaf key demo_index = None" "leafset demo_index = {}"
  by (simp_all add: demo_index_def NewCritbit_def SetRefDelta_def SetEvictHooks_def liveLeaf_def leafset_root)

lemma demo_insert:
  obtains c x where "Insert demo_key None (demo_tips 1) 0 demo_index = Some ((None, True), c)" "index_ok c" "\<not> cb_closed c" "cb_refDelta c" "refs_ok c"
    "liveLeaf demo_key c = Some x" "ltips x = demo_tips 1"
proof -
  have wf: "short_key demo_key" "distinct (Tips (demo_tips 1))" by (simp_all add: short_key_def demo_key_def demo_tips_def)
  have a: "accepts demo_key None demo_index" by (rule insert_none_accepts [OF demo_new(1)])
  obtain c where c: "Insert demo_key None (demo_tips 1) 0 demo_index = Some ((None, True), c)" "inserted demo_key None (demo_tips 1) demo_index c"
    using Insert_spec [OF demo_ok(1,4) wf, of None 0] a by auto
  have "view c demo_key = Some (demo_tips 1, None)" using c(2) a demo_new(1) by (simp add: inserted_def view_def)
  then obtain x where "liveLeaf demo_key c = Some x" "ltips x = demo_tips 1" by (auto simp: view_def)
  then show thesis using that [of c x] c demo_ok by (simp add: inserted_def)
qed

lemma demo_swap_fair:
  "fair list_queue [OpInsert demo_key None (demo_tips 1) 0, OpInsert demo_key (demo_tips 1) (demo_tips 2) 0] demo_index"
proof -
  obtain c x where c: "Insert demo_key None (demo_tips 1) 0 demo_index = Some ((None, True), c)" "index_ok c" "liveLeaf demo_key c = Some x"
    using demo_insert by metis
  then have "demo_key \<in> lkey ` leafset c" using live_ok [OF c(2,3)] by force
  then show ?thesis using c(1) by (simp split: option.split)
qed

lemma demo_pinned: "\<exists>(c :: (nat, nat list) critbit) x. index_ok c \<and> \<not> cb_closed c \<and> liveLeaf demo_key c = Some x \<and> lpins x = 1"
proof -
  obtain c x where c: "Insert demo_key None (demo_tips 1) 0 demo_index = Some ((None, True), c)" "index_ok c" "\<not> cb_closed c" "liveLeaf demo_key c = Some x"
    using demo_insert by metis
  have "c = fireTipDelta None (demo_tips 1) None (demo_index\<lparr>cb_next := cb_next demo_index + 1, cb_size := cb_size demo_index + 1,
      cb_root := Some (Leaf ((fst (allocLeafNode demo_key (demo_tips 1) 0 demo_index))\<lparr>ldeleted := False\<rparr>))\<rparr>)"
    using c(1) by (subst (asm) Insert.simps)
      (simp add: insert_once_def publish_leaf_def allocLeafNode_def demo_index_def NewCritbit_def SetRefDelta_def SetEvictHooks_def)
  then have p: "lpins x = 0" using c(4) by (auto simp: liveLeaf_def Let_def allocLeafNode_def split: if_splits)
  let ?f = "\<lambda>l. l\<lparr>lpins := lpins l + 1\<rparr>"
  have l: "leaf_ok (?f x)" "\<not> ldeleted (?f x)" using live_ok [OF c(2,4)] by (auto simp: leaf_ok_def)
  note t = touched [OF c(2,4), of ?f "set_leaf x ?f c", OF _ _ l]
  show ?thesis using t(1,4) c(3) p by (intro exI [of _ "set_leaf x ?f c"] exI [of _ "?f x"]) simp
qed

lemma delete_keeps_leaf:
  assumes ok: "index_ok c" and x: "liveLeaf key c = Some x"
  shows "x\<lparr>ltips := None, ldeleted := True, ldata := None\<rparr> \<in> leafset (snd (DeleteAndSnapshot Q key (ltips x) c))"
    "cb_closed (snd (DeleteAndSnapshot Q key (ltips x) c)) = cb_closed c"
proof -
  let ?f = "\<lambda>l. l\<lparr>ltips := None, ldeleted := True, ldata := None\<rparr>" and ?c = "snd (DeleteAndSnapshot Q key (ltips x) c)"
  have r: "cb_root ?c = map_option (update_leaf (lkey x) ?f) (cb_root c)" and cl: "cb_closed ?c = cb_closed c"
    using x by (simp_all add: DeleteAndSnapshot_def clearLeaf_def Let_def maybeReap_def)
  have "tree_ok c" "x \<in> leafset c" using ok live_ok [OF ok x] by (simp_all add: index_ok_def)
  from update_root(2) [OF this _ r cl] show "?f x \<in> leafset ?c" by simp
  show "cb_closed ?c = cb_closed c" by (rule cl)
qed

section \<open>Properties\<close>



text \<open>C38: whatever operations ran, \<open>Size\<close> is the number of keys that the index answers.\<close>

theorem index_size_exact:
  assumes "index_ok c" "\<forall>op \<in> set ops. op_ok op" "exec_all Q ops c = Some c'"
  shows "Size c' = int (card (dom (view c')))"
  using exec_all_ok [OF assms(1,2), of Q] assms(3) size_exact [of c'] by simp

theorem index_size_exact_witness:
  "\<exists>c'. exec_all list_queue demo_ops demo_index = Some c' \<and> Size c' = int (card (dom (view c')))"
  using demo_runs index_size_exact [OF demo_ok(1) demo_ops_ok(1)] by blast



text \<open>C37: a batch evicts at most \<open>want\<close> leaves; each was live, neither pinned nor held, and its tips and payload
  are handed out; every other key keeps its tips, payload and holds; the index stays well formed and the adaptive
  parameters in their ranges.\<close>

theorem eviction_respects_holds:
  assumes "index_ok c" "\<And>xs. mset (srt xs) = mset xs" "EvictBatch Q srt chunks chunkSize want c = (n, vs, c')"
  shows "index_ok c' \<and> int (length vs) \<le> n \<and> n \<le> max want 0 \<and> distinct (map ev_key vs) \<and>
    (\<forall>v \<in> set vs. hold c (ev_key v) = Some (ev_tips v, ev_data v, 0, False)) \<and> hold c' = hold c |` (- ev_key ` set vs) \<and>
    (policy_ok c \<longrightarrow> policy_ok c')"
  using EvictBatch_ok [OF assms] by blast

theorem eviction_respects_holds_witness:
  "\<exists>c n vs c'. Insert demo_key None (demo_tips 1) 0 demo_index = Some ((None, True), c) \<and>
    EvictBatch list_queue (sort_key cand_access) (slots_of c) (cb_next c) 1 c = (n, vs, c') \<and> index_ok c' \<and> n \<le> max 1 0 \<and>
    hold c' = hold c |` (- ev_key ` set vs)"
proof -
  obtain c where c: "Insert demo_key None (demo_tips 1) 0 demo_index = Some ((None, True), c)" "index_ok c" using demo_insert by metis
  obtain n vs c' where r: "EvictBatch list_queue (sort_key cand_access) (slots_of c) (cb_next c) 1 c = (n, vs, c')" by (metis prod_cases3)
  show ?thesis using eviction_respects_holds [OF c(2) mset_sort r] c(1) r by blast
qed

text \<open>C39: the result of inserting with an expectation for a key that is no longer live depends on whether
  the background reaper has unlinked the deleted leaf. While the leaf is linked, the expectation is checked and refused;
  once it is gone, the insertion succeeds and the hook releases the tips of the expectation, although the deletion had
  released them already.\<close>

theorem stale_insert_depends_on_reaper:
  assumes "index_ok c" "\<not> cb_closed c" "short_key key" "distinct (Tips newTips)" "liveLeaf key c = None" "old \<noteq> None" "cb_refDelta c"
  shows "\<exists>c'. Insert key old newTips now c =
      Some ((if key \<in> lkey ` leafset c then (None, False) else (None, True)), c') \<and>
    (if key \<in> lkey ` leafset c then c' = c
     else released c' = released c + mset (tipDifference (Tips old) (Tips newTips)) \<and>
       taken c' = taken c + mset (tipDifference (Tips newTips) (Tips old)) \<and> view c' = (view c)(key \<mapsto> (newTips, None)))"
proof -
  have acc: "accepts key old c \<longleftrightarrow> key \<notin> lkey ` leafset c" using assms(5,6) by (cases old) (simp_all add: accepts_def)
  obtain c' where c': "Insert key old newTips now c = Some ((if accepts key old c then (None, True) else (Contains key c, False)), c')"
      "inserted key old newTips c c'" using Insert_spec [OF assms(1-4)] by blast
  have ct: "Contains key c = None" "view c key = None" using assms(5) by (simp_all add: Contains_def view_def)
  show ?thesis
  proof (cases "key \<in> lkey ` leafset c")
    case True
    then show ?thesis using c' acc ct by (simp add: inserted_def)
  next
    case False
    then have d: "cb_deltas c' = cb_deltas (fireTipDelta old newTips None c)" using c'(2) by (simp add: inserted_def)
    have "taken c' = taken (fireTipDelta old newTips None c)" "released c' = released (fireTipDelta old newTips None c)"
      unfolding taken_def released_def d by (rule refl)+
    then show ?thesis using False c' acc ct fire_counts [OF assms(7)] by (simp add: inserted_def)
  qed
qed

theorem stale_insert_depends_on_reaper_witness:
  "\<exists>c'. Insert demo_key (demo_tips 1) (demo_tips 2) 0 demo_index = Some ((None, True), c') \<and> released c' = {#Tip 1 1#} \<and> taken demo_index = {#}"
proof -
  have wf: "short_key demo_key" "distinct (Tips (demo_tips 2))" "demo_tips 1 \<noteq> None" by (simp_all add: short_key_def demo_key_def demo_tips_def)
  have z: "released demo_index = {#}" "taken demo_index = {#}"
    by (simp_all add: released_def taken_def demo_index_def NewCritbit_def SetRefDelta_def SetEvictHooks_def)
  have d: "tipDifference (Tips (demo_tips 1)) (Tips (demo_tips 2)) = [Tip 1 1]" by (simp add: demo_tips_def)
  show ?thesis using stale_insert_depends_on_reaper [OF demo_ok(1,4) wf(1,2) demo_new(1) wf(3) demo_ok(2), of 0] z d
    by (simp add: demo_new(2) del: tipDifference_filter) blast
qed

text \<open>C40: a hold does not die with the leaf. If a held key is deleted, the holder's unpin does nothing, and inserting the
  key again before the reaper has run revives the leaf with the hold in place, for good: no batch evicts the key.\<close>

theorem hold_outlives_leaf:
  assumes "index_ok c" "\<not> cb_closed c" "liveLeaf key c = Some x" "lpins x = 1" "short_key key" "distinct (Tips newTips)"
  shows "let c1 = snd (DeleteAndSnapshot Q key (ltips x) c) in Unpin key c1 = Some (False, c1) \<and>
    (\<exists>c2 y. Insert key None newTips now c1 = Some ((None, True), c2) \<and> liveLeaf key c2 = Some y \<and> lpins y = 1 \<and>
      (\<forall>want chunks chunkSize n vs c3. EvictBatch Q (sort_key cand_access) chunks chunkSize want c2 = (n, vs, c3) \<longrightarrow> hold c3 key = hold c2 key))"
proof -
  define c1 where "c1 = snd (DeleteAndSnapshot Q key (ltips x) c)"
  let ?y = "x\<lparr>ltips := None, ldeleted := True, ldata := None\<rparr>"
  have ok1: "index_ok c1" using delete_step [OF assms(1)] by (simp add: c1_def step_ok_def)
  have y: "?y \<in> leafset c1" and cl: "\<not> cb_closed c1" using delete_keeps_leaf [OF assms(1,3)] assms(2) by (simp_all add: c1_def)
  have k: "lkey ?y = key" using live_ok [OF assms(1,3)] by simp
  have lv: "liveLeaf key c1 = None" using liveLeaf_leaf [OF _ y] k ok1 by (simp add: index_ok_def)
  then have "Unpin key c1 = Some (False, c1)" by (simp add: Unpin_def)
  moreover obtain c2 where c2: "Insert key None newTips now c1 = Some ((None, True), c2)" "inserted key None newTips c1 c2"
    using Insert_spec [OF ok1 cl assms(5,6), of None now] insert_none_accepts [OF lv] by auto
  moreover have "\<exists>z. liveLeaf key c2 = Some z \<and> lpins z = lpins ?y \<and> lpinned z = lpinned ?y"
    using c2(2) insert_none_accepts [OF lv] y k unfolding inserted_def by blast
  then obtain z where z: "liveLeaf key c2 = Some z" "lpins z = 1" using assms(4) by auto
  moreover have "hold c3 key = hold c2 key"
    if e: "EvictBatch Q (sort_key cand_access) chunks chunkSize want c2 = (n, vs, c3)" for want chunks chunkSize n vs c3
  proof -
    have ok2: "index_ok c2" using c2(2) by (simp add: inserted_def)
    note b = EvictBatch_ok [OF ok2 mset_sort e]
    have "key \<notin> ev_key ` set vs" using b(3) z by (auto simp: hold_def)
    then show ?thesis using b(4) by (simp add: restrict_map_def)
  qed
  ultimately show ?thesis unfolding c1_def [symmetric] Let_def by blast
qed

theorem hold_outlives_leaf_witness:
  "\<exists>(c :: (nat, nat list) critbit) x. index_ok c \<and> liveLeaf demo_key c = Some x \<and> lpins x = 1 \<and>
    (let c1 = snd (DeleteAndSnapshot list_queue demo_key (ltips x) c) in Unpin demo_key c1 = Some (False, c1) \<and>
     (\<exists>c2 y. Insert demo_key None (demo_tips 2) 5 c1 = Some ((None, True), c2) \<and> liveLeaf demo_key c2 = Some y \<and> lpins y = 1))"
proof -
  obtain c :: "(nat, nat list) critbit" and x where c: "index_ok c" "\<not> cb_closed c" "liveLeaf demo_key c = Some x" "lpins x = 1" using demo_pinned by blast
  have wf: "short_key demo_key" "distinct (Tips (demo_tips 2))" by (simp_all add: short_key_def demo_key_def demo_tips_def)
  show ?thesis using hold_outlives_leaf [OF c wf, of list_queue 5] c unfolding Let_def by blast
qed

end
