(* ===== verification/Spec2Isabelle.thy ===== *)
theory Spec2Isabelle
  imports Reduce Dag_Fork Causal_Range Horizon_Safe Predicate_Match Glob Mvcc Bloom_Filter Key_Filter_Safe Crit_Index_Safe
begin

text \<open>
  A verification of the effects engine of Swytch: an append-only log of effects, replicated between
  nodes, from which the value of every key is computed. Paths below are relative to src/.

  \<^bold>\<open>The program.\<close> A write appends an \<^emph>\<open>effect\<close> to the log, addressed by node and sequence number and
  naming the effects it depends on. A read collects the ancestry of the key's tips
  (effects/dag.go), orders it causally with concurrent branches by fork choice
  (effects/fork_choice.go), and folds it into a state (effects/reduce.go). Transactions bind several
  keys; a bind stays invisible in the horizon set (effects/horizon.go) until its verdict or a timer,
  competes with binds on the same base unless their predicates are disjoint
  (effects/predicate.go, effects/causal_index.go), and reads a cut of the log decided from clock
  evidence (effects/temporal.go, effects/transaction_snapshot.go, effects/historical.go), which is
  kept in a simple temporal network (stn/). Filters of key names (effects/bloom.go,
  effects/cuckoo.go, effects/keyfilter.go) let a read answer a miss without asking the cluster. The
  key index (keytrie/), a crit-bit trie, maps every key to its tips and evicts cold keys.

  \<^bold>\<open>Conventions.\<close> Definitions carry the names of the functions they translate and are executable. Byte
  strings are \<^typ>\<open>string\<close>, \<open>uint64\<close> and \<open>int64\<close> are 64-bit words, or integers with \<open>wrap64\<close> written out
  where the code tests for overflow. A Go map is a finite map; its iteration order is a parameter
  \<open>rng\<close> constrained only to enumerate the entries. An error result is a value of a sum or an option; a
  panic, and a loop that does not return, is \<open>None\<close>. Objects that alias are kept in explicit heaps
  (\<open>Horizon\<close>) or index arrays (\<open>Bucket_Queue\<close>). Code run under one lock is one step; compare-and-swap
  loops are step relations (\<open>merge_step\<close>). SHA-256, zstd and xxhash are parameters.

  \<^bold>\<open>The theories.\<close>
  \<^item> \<open>Go_Base\<close>, \<open>Go_Float\<close>: the prelude, with Go integers, slices and byte order, IEEE doubles and
    number parsing. \<open>Proto\<close>: the messages of cluster/proto.
  \<^item> \<open>Reduce\<close> (effects/reduce.go): all of the reducer. Batch and incremental reduction agree outside an
    identified case, and disagree in it; counters, keyed and ordered collections, partitions and root
    deletes have their intended meaning; the in-place reducer equals the copying one.
  \<^item> \<open>Fork_Choice\<close>, \<open>Dag\<close>, \<open>Dag_Collect\<close>, \<open>Dag_Order\<close>, \<open>Dag_Fork\<close> (effects/fork_choice.go, effects/slices.go,
    effects/dag.go): the walk visits every effect once, dependencies first, replays exactly what a
    snapshot does not fold, fails only on missing effects, and gives the same order on every replica.
  \<^item> \<open>Causal_Index\<close>, \<open>Causal_Reach\<close>, \<open>Causal_Range\<close> (effects/causal_index.go): the chain index answers graph
    reachability, and the binary searches find exactly the concurrent candidates.
  \<^item> \<open>Horizon\<close>, \<open>Horizon_Inv\<close>, \<open>Horizon_Safe\<close> (effects/horizon.go): an invariant over heaps of entries, groups
    and timers; no interleaving panics, competing binds become visible together, no scheduled bind
    loses its timer, and readers wake exactly on resolution.
  \<^item> \<open>Stack_Walk\<close>, \<open>Predicate_Match\<close> (effects/predicate.go): the walk over a transaction's effects and the
    three-valued conflict test, sound for every completion of unknown comparisons.
  \<^item> \<open>Glob\<close> (keytrie/pattern.go, crdt/dataplane.go): both glob matchers terminate with the declarative
    meaning of a pattern.
  \<^item> \<open>Bucket_Queue\<close>, \<open>Stn\<close>, \<open>Stn_Sound\<close>, \<open>Stn_Topology\<close>, \<open>Stn_Query\<close>, \<open>Stn_Order\<close>, \<open>Stn_Fill\<close>, \<open>Stn_Connect\<close>
    (stn/cardinality.go, stn/stn.go, stn/topology.go): constraints change the solution set exactly,
    queries bound it, and construction and connection keep a perfect elimination order.
  \<^item> \<open>Stn_Clocks\<close>, \<open>Stn_Clocks_Sound\<close>, \<open>Temporal\<close> (stn/clocks.go, effects/temporal.go): intervals contain the
    true time differences for every sequence of observations, arithmetic never wraps, and concurrent
    merges lose nothing.
  \<^item> \<open>Mvcc\<close> (effects/transaction_snapshot.go, effects/historical.go): the cut a transaction reads is
    causally closed and excludes only effects truly after its boundary.
  \<^item> \<open>Membership\<close>, \<open>Bloom_Filter\<close>, \<open>Cuckoo_Filter\<close>, \<open>Cuckoo_Chain\<close> (effects/bloom.go, effects/cuckoo.go): the
    filters have no false negatives and their encodings round-trip. \<open>Key_Filter\<close>, \<open>Key_Filter_Safe\<close>
    (effects/keyfilter.go): no sequence of peer events produces a false miss, and a peer that applies a
    published filter answers for every key in it; a frame that overflows the decoder's length test is
    shown to be accepted.

  \<^item> \<open>Crit_Bits\<close>, \<open>Crit_Trie\<close>, \<open>Tip_Sets\<close>, \<open>Crit_Index\<close>, \<open>Crit_Index_Inv\<close>, \<open>Crit_Index_Ops\<close> (keytrie/critbit.go, access.go,
    reclaim.go, types.go): critical bits order keys bytewise, the trie finds the leaf of a key, and insertion,
    update and pruning keep it well formed. The index state is a record of the trie and the counters beside
    it; leaves are identified by allocation number and every call under the lock is one step. \<open>Crit_Evict\<close>,
    \<open>Crit_Evict_Step\<close>, \<open>Crit_Evict_Safe\<close> (keytrie/evict.go, evict_sample.go): the sweep, ghosts, decay and adaptive
    threshold; a batch takes only leaves without holds. \<open>Crit_Index_Run\<close>, \<open>Crit_Index_Safe\<close>: any sequence of
    operations refines an abstract map, with exact size and reference counts; an insertion with a stale
    expectation and a hold on a deleted key are shown to go wrong.

  Interfaces are locales, interpreted on the model's definitions: \<open>graph_walk\<close> (a worklist traversal),
  \<open>glob_matcher\<close>, \<open>max_queue\<close> (the bucket queue as its client sees it), \<open>net_fill\<close> (edges added to a network)
  and \<open>approx_set\<close> (no false negatives).

  \<^bold>\<open>Bounds.\<close> Unbounded loops are proved to return: by a termination measure, or, for \<open>partial_function\<close>
  definitions, by a lemma that the result is not \<open>None\<close>. Fuel appears once, as the 500 evictions of
  \<open>kick_loop\<close>, which is the source's own bound.

  \<^bold>\<open>Not modelled.\<close> Emission, flush, ingestion and reconstruction in effects/effect.go, context.go and
  snapshot.go drive goroutines, the network and the memory pool around the parts above; of the struct
  only the key-filter fields appear. The transports in cluster/, the services in beacon/, the caches in
  cache/, the memory-mapped files in durability/, telemetry, generated code and cryptography are I/O, timers,
  operating system calls or statistical policy. Of keytrie/, the arenas with their byte accounting and
  compaction, shared key ownership and the ordered scans are left out: a leaf's arena slot is its
  allocation number and the sweep gets the directory of slots as an argument. Logging is left out everywhere.
\<close>

end
